(* ===== verification/Prelude.thy ===== *)
theory Prelude
  imports Complex_Main "HOL-Library.Word" "HOL-Library.Multiset" "HOL-Library.AList"
begin

text \<open>
  Shared vocabulary of the development: machine integers, the association lists that stand for
  \<^verbatim>\<open>std::unordered_map\<close>, the traversal order of such a map, and the generic lemmas on lists and
  maps that the component theories use.
\<close>

named_theorems umap_simps \<open>lookup laws of the map operations\<close>

section \<open>Machine integers and identifiers\<close>

type_synonym u8 = "8 word"
type_synonym u16 = "16 word"
type_synonym u32 = "32 word"
type_synonym u64 = "64 word"

section \<open>Unordered maps\<close>

text \<open>
  A \<^verbatim>\<open>std::unordered_map\<close> is an association list in insertion order, with distinct keys.
  \<open>map_of\<close> is \<^verbatim>\<open>find\<close>, \<open>AList.update\<close> is \<^verbatim>\<open>m[k] = v\<close> and \<open>AList.delete\<close> is \<^verbatim>\<open>erase\<close>.
\<close>

type_synonym ('k, 'v) umap = "('k \<times> 'v) list"

text \<open>\<^verbatim>\<open>emplace\<close>, and the default insertion of \<^verbatim>\<open>m[k]\<close>: an existing entry is kept.\<close>

definition um_emplace :: "'k \<Rightarrow> 'v \<Rightarrow> ('k, 'v) umap \<Rightarrow> ('k, 'v) umap" where
  "um_emplace k v m = (case map_of m k of None \<Rightarrow> m @ [(k, v)] | Some _ \<Rightarrow> m)"

text \<open>The value \<^verbatim>\<open>m[k]\<close> reads, with the value a missing key is created with.\<close>

definition um_get :: "'v \<Rightarrow> ('k, 'v) umap \<Rightarrow> 'k \<Rightarrow> 'v" where
  "um_get dflt m k = (case map_of m k of None \<Rightarrow> dflt | Some v \<Rightarrow> v)"

text \<open>\<^verbatim>\<open>m[k].push_back(x)\<close> on a map of vectors.\<close>

definition um_push :: "'k \<Rightarrow> 'a \<Rightarrow> ('k, 'a list) umap \<Rightarrow> ('k, 'a list) umap" where
  "um_push k x m = AList.update k (um_get [] m k @ [x]) m"

definition um_keys :: "('k, 'v) umap \<Rightarrow> 'k set" where
  "um_keys m = fst ` set m"

abbreviation um_ok :: "('k, 'v) umap \<Rightarrow> bool" where
  "um_ok m \<equiv> distinct (map fst m)"

text \<open>
  A range-for over the map visits the entries in the order \<open>ord\<close> gives to its keys. The C++
  standard leaves that order open, so it is a parameter of every operation that traverses a map;
  all that is assumed of it is that it visits each key once.
\<close>

definition order_ok :: "('k list \<Rightarrow> 'k list) \<Rightarrow> bool" where
  "order_ok ord \<longleftrightarrow> (\<forall>ks. mset (ord ks) = mset ks)"

definition traverse :: "('k list \<Rightarrow> 'k list) \<Rightarrow> ('k, 'v) umap \<Rightarrow> ('k \<times> 'v) list" where
  "traverse ord m = map (\<lambda>k. (k, the (map_of m k))) (ord (map fst m))"

lemma order_ok_id: "order_ok (\<lambda>ks. ks)"
  by (simp add: order_ok_def)

lemma order_ok_rev: "order_ok rev"
  by (simp add: order_ok_def)

lemma order_ok_set [simp]: "order_ok ord \<Longrightarrow> set (ord ks) = set ks"
  unfolding order_ok_def by (metis set_mset_mset)

lemma order_ok_distinct [simp]: "order_ok ord \<Longrightarrow> distinct (ord ks) = distinct ks"
  unfolding order_ok_def by (metis mset_eq_imp_distinct_iff)

lemma order_ok_length [simp]: "order_ok ord \<Longrightarrow> length (ord ks) = length ks"
  unfolding order_ok_def by (metis size_mset)

lemma um_keys_Nil [simp]: "um_keys [] = {}"
  by (simp add: um_keys_def)

lemma um_keys_Cons [simp]: "um_keys ((k, v) # m) = insert k (um_keys m)"
  by (simp add: um_keys_def)

lemma um_keys_append [simp]: "um_keys (m @ m') = um_keys m \<union> um_keys m'"
  by (simp add: um_keys_def image_Un)

lemma fst_image_set: "fst ` set m = um_keys m"
  by (simp add: um_keys_def)

lemma finite_um_keys [simp]: "finite (um_keys m)"
  by (simp add: um_keys_def)

lemma dom_map_of_keys: "dom (map_of m) = um_keys m"
  by (simp add: um_keys_def dom_map_of_conv_image_fst)

lemma map_of_None_keys: "map_of m k = None \<longleftrightarrow> k \<notin> um_keys m"
  by (simp add: dom_map_of_keys [symmetric] domIff)

lemma in_um_keys_iff: "k \<in> um_keys m \<longleftrightarrow> (\<exists>v. map_of m k = Some v)"
  by (simp add: dom_map_of_keys [symmetric] dom_def)

lemma um_keysI: "map_of m k = Some v \<Longrightarrow> k \<in> um_keys m"
  by (auto simp: in_um_keys_iff)

lemma map_of_update [umap_simps]: "map_of (AList.update k v m) = (map_of m)(k \<mapsto> v)"
  by (rule update_conv')

lemma map_of_emplace [umap_simps]:
  "map_of (um_emplace k v m) = (if k \<in> um_keys m then map_of m else (map_of m)(k \<mapsto> v))"
proof (cases "map_of m k")
  case None
  then have "k \<notin> um_keys m" by (simp add: map_of_None_keys)
  with None show ?thesis
    by (auto simp: um_emplace_def map_add_def fun_eq_iff split: option.splits)
next
  case (Some x)
  then show ?thesis by (simp add: um_emplace_def um_keysI)
qed

lemma keys_emplace [umap_simps]: "um_keys (um_emplace k v m) = insert k (um_keys m)"
  by (auto simp: um_emplace_def split: option.splits dest: um_keysI)

lemma um_ok_emplace [simp]: "um_ok m \<Longrightarrow> um_ok (um_emplace k v m)"
  by (auto simp: um_emplace_def map_of_None_keys fst_image_set split: option.splits)

lemma keys_update [umap_simps]: "um_keys (AList.update k v m) = insert k (um_keys m)"
  by (simp add: dom_map_of_keys [symmetric] umap_simps)

lemma keys_delete [umap_simps]: "um_keys (AList.delete k m) = um_keys m - {k}"
  by (simp add: dom_map_of_keys [symmetric] delete_conv' dom_fun_upd)

lemma um_ok_update [simp]: "um_ok m \<Longrightarrow> um_ok (AList.update k v m)"
  by (rule distinct_update)

lemma um_get_Nil [simp]: "um_get dflt [] k = dflt"
  by (simp add: um_get_def)

lemma um_get_update [umap_simps]:
  "um_get dflt (AList.update k v m) k' = (if k' = k then v else um_get dflt m k')"
  by (simp add: um_get_def umap_simps)

lemma um_get_emplace [umap_simps]:
  "um_get dflt (um_emplace k v m) k' =
     (if k' = k \<and> k \<notin> um_keys m then v else um_get dflt m k')"
  by (simp add: um_get_def umap_simps)

lemma um_get_push [umap_simps]:
  "um_get [] (um_push k x m) k' = (if k' = k then um_get [] m k @ [x] else um_get [] m k')"
  by (simp add: um_push_def umap_simps)

lemma keys_push [umap_simps]: "um_keys (um_push k x m) = insert k (um_keys m)"
  by (simp add: um_push_def umap_simps)

lemma um_ok_push [simp]: "um_ok m \<Longrightarrow> um_ok (um_push k x m)"
  by (simp add: um_push_def)

lemma um_get_notin [simp]: "k \<notin> um_keys m \<Longrightarrow> um_get dflt m k = dflt"
  by (simp add: um_get_def map_of_None_keys [THEN iffD2])

lemma um_get_None [simp]: "map_of m k = None \<Longrightarrow> um_get dflt m k = dflt"
  by (simp add: um_get_def)

lemma um_get_Some [simp]: "map_of m k = Some v \<Longrightarrow> um_get dflt m k = v"
  by (simp add: um_get_def)

lemma map_of_in_set: "um_ok m \<Longrightarrow> map_of m k = Some v \<longleftrightarrow> (k, v) \<in> set m"
  by simp

lemma map_fst_traverse [simp]: "map fst (traverse ord m) = ord (map fst m)"
  by (simp add: traverse_def comp_def)

lemma set_traverse:
  assumes "order_ok ord" "um_ok m"
  shows "set (traverse ord m) = set m"
proof -
  have "the (map_of m k) = v" if "(k, v) \<in> set m" for k v
    using that assms(2) by simp
  with assms show ?thesis by (force simp: traverse_def)
qed

lemma mset_traverse:
  assumes "order_ok ord" "um_ok m"
  shows "mset (traverse ord m) = mset m"
proof (rule set_eq_iff_mset_eq_distinct [THEN iffD1])
  have "distinct (map fst (traverse ord m))" using assms by simp
  then show "distinct (traverse ord m)" by (simp only: distinct_map)
  show "distinct m" using assms(2) by (simp add: distinct_map)
  show "set (traverse ord m) = set m" using assms by (rule set_traverse)
qed

lemma um_keys_traverse [simp]: "order_ok ord \<Longrightarrow> um_keys (traverse ord m) = um_keys m"
  by (simp add: um_keys_def flip: set_map)

lemma sum_list_traverse:
  assumes "order_ok ord" "um_ok m"
  shows "sum_list (map f (traverse ord m)) = sum_list (map (f :: _ \<Rightarrow> 'a :: comm_monoid_add) m)"
  using mset_traverse [OF assms] by (metis mset_map sum_mset_sum_list)

section \<open>Positions in a list\<close>

text \<open>The position of an element in a list; elements outside it come last.\<close>

fun position :: "'a list \<Rightarrow> 'a \<Rightarrow> nat" where
  "position [] x = 0"
| "position (y # ys) x = (if y = x then 0 else Suc (position ys x))"

lemma position_le: "position xs x \<le> length xs"
  by (induction xs) auto

lemma position_nth: "x \<in> set xs \<Longrightarrow> position xs x < length xs \<and> xs ! position xs x = x"
  by (induction xs) auto

lemma position_notin: "x \<notin> set xs \<Longrightarrow> position xs x = length xs"
  by (induction xs) auto

lemma position_take: "x \<in> set (take i xs) \<Longrightarrow> position xs x < i"
proof (induction xs arbitrary: i)
  case (Cons a xs)
  then show ?case by (cases i) auto
qed simp

lemma position_append: "x \<in> set xs \<Longrightarrow> position (xs @ ys) x = position xs x"
  by (induction xs) auto

lemma position_last: "x \<notin> set xs \<Longrightarrow> position (xs @ [x]) x = length xs"
  by (induction xs) auto

lemma position_index: "distinct xs \<Longrightarrow> i < length xs \<Longrightarrow> position xs (xs ! i) = i"
  by (induction xs arbitrary: i) (auto simp: nth_Cons split: nat.splits)

declare fst_image_set [simp]

end
