(* ===== verification/Float32.thy ===== *)
theory Float32
  imports Prelude "HOL-Library.Log_Nat"
begin

text \<open>
  The C++ type \<^verbatim>\<open>float\<close> (IEEE-754 binary32, round to nearest, ties to even) as the code uses it.
  A finite value is the rational number it denotes; every operation computes exactly and rounds
  once. Zeros carry no sign: no division of the program has a zero divisor (each is guarded), so
  the sign of a zero is never observed.
\<close>

section \<open>Values and rounding\<close>

datatype f32 = NaN | NInf | Fin rat | PInf

definition round_half_even :: "rat \<Rightarrow> int" where
  "round_half_even y =
     (let f = \<lfloor>y\<rfloor>; r = y - of_int f
      in if r < 1 / 2 then f else if 1 / 2 < r then f + 1 else if even f then f else f + 1)"

text \<open>\<open>\<lfloor>log\<^sub>2 x\<rfloor>\<close> of a positive rational, from the bit lengths of numerator and denominator.\<close>

definition ilog2 :: "rat \<Rightarrow> int" where
  "ilog2 x = (let (p, q) = quotient_of x; b = bitlen p - bitlen q
              in if 2 powi b \<le> x then b else b - 1)"

definition quantum :: "rat \<Rightarrow> int" where
  "quantum x = max (ilog2 x - 23) (-149)"

definition max_finite :: rat where
  "max_finite = 340282346638528859811704183484516925440"

definition rnd_pos :: "rat \<Rightarrow> f32" where
  "rnd_pos x = (let v = of_int (round_half_even (x / 2 powi quantum x)) * 2 powi quantum x
                in if max_finite < v then PInf else Fin v)"

fun f32_neg :: "f32 \<Rightarrow> f32" where
  "f32_neg NaN = NaN"
| "f32_neg NInf = PInf"
| "f32_neg PInf = NInf"
| "f32_neg (Fin x) = Fin (- x)"

definition rnd :: "rat \<Rightarrow> f32" where
  "rnd x = (if x = 0 then Fin 0 else if 0 < x then rnd_pos x else f32_neg (rnd_pos (- x)))"

section \<open>Operations\<close>

fun f32_add :: "f32 \<Rightarrow> f32 \<Rightarrow> f32" where
  "f32_add (Fin x) (Fin y) = rnd (x + y)"
| "f32_add NaN b = NaN"
| "f32_add a NaN = NaN"
| "f32_add PInf NInf = NaN"
| "f32_add NInf PInf = NaN"
| "f32_add PInf b = PInf"
| "f32_add NInf b = NInf"
| "f32_add (Fin x) PInf = PInf"
| "f32_add (Fin x) NInf = NInf"

definition f32_sub :: "f32 \<Rightarrow> f32 \<Rightarrow> f32" where
  "f32_sub a b = f32_add a (f32_neg b)"

fun f32_sgn :: "f32 \<Rightarrow> rat" where
  "f32_sgn NaN = 0"
| "f32_sgn NInf = -1"
| "f32_sgn PInf = 1"
| "f32_sgn (Fin x) = sgn x"

definition f32_inf :: "rat \<Rightarrow> f32" where
  "f32_inf s = (if s = 0 then NaN else if 0 < s then PInf else NInf)"

definition f32_mul :: "f32 \<Rightarrow> f32 \<Rightarrow> f32" where
  "f32_mul a b = (case (a, b) of
       (Fin x, Fin y) \<Rightarrow> rnd (x * y)
     | (NaN, _) \<Rightarrow> NaN
     | (_, NaN) \<Rightarrow> NaN
     | _ \<Rightarrow> f32_inf (f32_sgn a * f32_sgn b))"

definition f32_div :: "f32 \<Rightarrow> f32 \<Rightarrow> f32" where
  "f32_div a b = (case (a, b) of
       (Fin x, Fin y) \<Rightarrow> if y = 0 then f32_inf (sgn x) else rnd (x / y)
     | (NaN, _) \<Rightarrow> NaN
     | (_, NaN) \<Rightarrow> NaN
     | (Fin _, _) \<Rightarrow> Fin 0
     | (_, Fin y) \<Rightarrow> f32_inf (f32_sgn a * (if y = 0 then 1 else sgn y))
     | _ \<Rightarrow> NaN)"

text \<open>Comparison: false as soon as an operand is not a number.\<close>

fun f32_less :: "f32 \<Rightarrow> f32 \<Rightarrow> bool" where
  "f32_less NaN b = False"
| "f32_less a NaN = False"
| "f32_less (Fin x) (Fin y) = (x < y)"
| "f32_less NInf b = (b \<noteq> NInf)"
| "f32_less a PInf = (a \<noteq> PInf)"
| "f32_less a b = False"

definition f32_of_u64 :: "u64 \<Rightarrow> f32" where
  "f32_of_u64 n = rnd (of_nat (unat n))"

definition f32_of_int :: "int \<Rightarrow> f32" where
  "f32_of_int n = rnd (of_int n)"

text \<open>
  \<^verbatim>\<open>static_cast<int64_t>(f)\<close> truncates towards zero. A value outside the target's range has no
  defined conversion, so it has no result here.
\<close>

definition rat_trunc :: "rat \<Rightarrow> int" where
  "rat_trunc x = (if 0 \<le> x then \<lfloor>x\<rfloor> else - \<lfloor>- x\<rfloor>)"

fun f32_to_i64 :: "f32 \<Rightarrow> int option" where
  "f32_to_i64 (Fin x) =
     (let n = rat_trunc x in if - (2 ^ 63) \<le> n \<and> n < 2 ^ 63 then Some n else None)"
| "f32_to_i64 _ = None"

text \<open>\<^verbatim>\<open>std::min(a, b)\<close> returns \<open>a\<close> unless \<open>b < a\<close>.\<close>

definition f32_min :: "f32 \<Rightarrow> f32 \<Rightarrow> f32" where
  "f32_min a b = (if f32_less b a then b else a)"

abbreviation f32_max_value :: f32 where
  "f32_max_value \<equiv> Fin max_finite"

section \<open>Laws\<close>

lemma f32_less_irrefl [simp]: "\<not> f32_less a a"
  by (cases a) auto

lemma f32_less_trans: "f32_less a b \<Longrightarrow> f32_less b c \<Longrightarrow> f32_less a c"
  by (cases a; cases b; cases c) auto

lemma f32_less_asym: "f32_less a b \<Longrightarrow> \<not> f32_less b a"
  using f32_less_irrefl f32_less_trans by blast

text \<open>Among numbers the comparison is total: only equal values are incomparable.\<close>

lemma f32_less_linear: "a \<noteq> NaN \<Longrightarrow> b \<noteq> NaN \<Longrightarrow> f32_less a b \<or> a = b \<or> f32_less b a"
  by (cases a; cases b) auto

lemma f32_less_NaN [simp]: "f32_less a NaN = False"
  by (cases a) auto

lemma rnd_zero [simp]: "rnd 0 = Fin 0"
  by (simp add: rnd_def)

lemma round_half_even_of_int [simp]: "round_half_even (of_int n) = n"
  by (simp add: round_half_even_def)

lemma round_half_even_mono:
  assumes "x \<le> y"
  shows "round_half_even x \<le> round_half_even y"
proof (cases "\<lfloor>x\<rfloor> = \<lfloor>y\<rfloor>")
  case True
  with assms show ?thesis by (auto simp: round_half_even_def Let_def)
next
  case False
  with floor_mono [OF assms] have "\<lfloor>x\<rfloor> + 1 \<le> \<lfloor>y\<rfloor>" by simp
  then show ?thesis by (auto simp: round_half_even_def Let_def)
qed

lemma round_half_even_nonneg: "0 \<le> x \<Longrightarrow> 0 \<le> round_half_even x"
  using round_half_even_mono [of 0 x] round_half_even_of_int [of 0] by simp

text \<open>Rounding at most doubles a non-negative value, so small values never overflow.\<close>

lemma round_half_even_le_double:
  assumes "0 \<le> y"
  shows "of_int (round_half_even y) \<le> 2 * y"
proof (cases "y < 1 / 2")
  case True
  with assms have "\<lfloor>y\<rfloor> = 0" by (simp add: floor_eq_iff)
  with True assms show ?thesis by (simp add: round_half_even_def)
next
  case False
  have "of_int (round_half_even y) \<le> y + 1 / 2"
    by (auto simp: round_half_even_def Let_def) linarith+
  with False show ?thesis by linarith
qed

lemma rnd_double_bound:
  assumes "0 \<le> x" "2 * x \<le> max_finite"
  obtains v where "rnd x = Fin v" "0 \<le> v" "v \<le> 2 * x"
proof (cases "x = 0")
  case True
  then show ?thesis using that [of 0] by simp
next
  case False
  let ?q = "2 powi quantum x :: rat"
  let ?v = "of_int (round_half_even (x / ?q)) * ?q"
  have q: "0 < ?q" by simp
  have y: "0 \<le> x / ?q" using assms(1) q by simp
  have "?v \<le> 2 * (x / ?q) * ?q"
    using round_half_even_le_double [OF y] q by (intro mult_right_mono) simp_all
  then have v: "?v \<le> 2 * x" using q by simp
  have "0 \<le> ?v" using round_half_even_nonneg [OF y] q by simp
  moreover have "rnd x = Fin ?v"
    using False assms v by (simp add: rnd_def rnd_pos_def Let_def not_less)
  ultimately show ?thesis using that v by blast
qed

end
