(* ===== verification/Core_Types.thy ===== *)
theory Core_Types
  imports Float32
begin

text \<open>
  The vocabulary types of \<^verbatim>\<open>src/core/types.hpp\<close> and the error monad of \<^verbatim>\<open>src/core/result.hpp\<close>.
\<close>

section \<open>Identities, time, resources\<close>

type_synonym NodeId = string
type_synonym TaskId = string

text \<open>
  \<^verbatim>\<open>Duration\<close> and \<^verbatim>\<open>Timestamp\<close> count ticks in a signed 64-bit integer. Signed overflow has no
  meaning in C++, so the counts are mathematical integers: the model agrees with every execution
  that has a meaning.
\<close>

type_synonym Timestamp = int
type_synonym Duration = int

record ResourceSnapshot =
  node_id :: NodeId
  timestamp :: Timestamp
  cpu_usage_percent :: f32
  per_core_cpu_percent :: "f32 list"
  memory_available_bytes :: u64
  memory_total_bytes :: u64
  cpu_temperature_celsius :: f32
  gpu_temperature_celsius :: f32
  network_rx_bytes_sec :: u64
  network_tx_bytes_sec :: u64
  is_throttled :: bool

definition default_snapshot :: ResourceSnapshot where
  "default_snapshot = \<lparr>node_id = [], timestamp = 0, cpu_usage_percent = Fin 0,
     per_core_cpu_percent = replicate 4 (Fin 0), memory_available_bytes = 0,
     memory_total_bytes = 0, cpu_temperature_celsius = Fin 0, gpu_temperature_celsius = Fin 0,
     network_rx_bytes_sec = 0, network_tx_bytes_sec = 0, is_throttled = False\<rparr>"

definition memory_usage_percent :: "ResourceSnapshot \<Rightarrow> f32" where
  "memory_usage_percent s =
     (if memory_total_bytes s = 0 then Fin 0
      else f32_div (f32_mul (Fin 100) (f32_of_u64 (memory_total_bytes s - memory_available_bytes s)))
                   (f32_of_u64 (memory_total_bytes s)))"

definition cpu_headroom_percent :: "ResourceSnapshot \<Rightarrow> f32" where
  "cpu_headroom_percent s = f32_sub (Fin 100) (cpu_usage_percent s)"

record TaskProfile =
  compute_cost :: Duration
  memory_bytes :: u64
  input_bytes :: u64
  output_bytes :: u64

datatype TaskState = Pending | Ready | Scheduled | Running | Completed | Failed

fun to_string :: "TaskState \<Rightarrow> string" where
  "to_string Pending = ''pending''"
| "to_string Ready = ''ready''"
| "to_string Scheduled = ''scheduled''"
| "to_string Running = ''running''"
| "to_string Completed = ''completed''"
| "to_string Failed = ''failed''"

section \<open>Results\<close>

text \<open>
  \<^verbatim>\<open>Result<T, E>\<close> holds a value (\<open>Inr\<close>) or an error (\<open>Inl\<close>). Asking a result for the side it
  does not hold throws; a throw is the left side of the answer.
\<close>

type_synonym error = string
type_synonym ('e, 'a) result = "'e + 'a"

definition has_value :: "('e, 'a) result \<Rightarrow> bool" where
  "has_value r = (case r of Inl _ \<Rightarrow> False | Inr _ \<Rightarrow> True)"

definition result_value :: "('e, 'a) result \<Rightarrow> string + 'a" where
  "result_value r = (case r of Inl _ \<Rightarrow> Inl ''Result has no value'' | Inr v \<Rightarrow> Inr v)"

definition result_error :: "('e, 'a) result \<Rightarrow> string + 'e" where
  "result_error r = (case r of Inl e \<Rightarrow> Inr e | Inr _ \<Rightarrow> Inl ''Result has no error'')"

definition result_map :: "('a \<Rightarrow> 'b) \<Rightarrow> ('e, 'a) result \<Rightarrow> ('e, 'b) result" where
  "result_map f r = (case r of Inr v \<Rightarrow> Inr (f v) | Inl e \<Rightarrow> Inl e)"

definition and_then :: "('e, 'a) result \<Rightarrow> ('a \<Rightarrow> ('e, 'b) result) \<Rightarrow> ('e, 'b) result" where
  "and_then r f = (case r of Inr v \<Rightarrow> f v | Inl e \<Rightarrow> Inl e)"

definition value_or :: "('e, 'a) result \<Rightarrow> 'a \<Rightarrow> 'a" where
  "value_or r dflt = (case r of Inr v \<Rightarrow> v | Inl _ \<Rightarrow> dflt)"

definition make_error :: "string \<Rightarrow> (error, 'a) result" where
  "make_error msg = Inl msg"

lemmas result_defs = has_value_def result_value_def result_error_def result_map_def and_then_def
  value_or_def make_error_def

text \<open>The accessors are guarded by \<open>has_value\<close>: exactly one of them throws.\<close>

lemma result_value_throws: "has_value r \<longleftrightarrow> (\<exists>v. result_value r = Inr v)"
  by (simp add: result_defs split: sum.splits)

lemma result_error_throws: "\<not> has_value r \<longleftrightarrow> (\<exists>e. result_error r = Inr e)"
  by (simp add: result_defs split: sum.splits)

end
