(* ===== verification/Dag.thy ===== *)
theory Dag
  imports Core_Types
begin

text \<open>
  The workload graph: \<^verbatim>\<open>src/workload/dag.hpp\<close> and \<^verbatim>\<open>src/workload/dag.cpp\<close>. This theory holds the
  record and every operation in the order of the source, the invariant the constructors keep, and
  the edge relation the algorithm theories speak about.
\<close>

section \<open>State\<close>

record Task =
  t_id :: TaskId
  t_name :: string
  t_profile :: TaskProfile
  t_dependencies :: "TaskId list"
  t_state :: TaskState

record WorkloadDAG =
  tasks :: "(TaskId, Task) umap"
  adj_list :: "(TaskId, TaskId list) umap"
  reverse_adj :: "(TaskId, TaskId list) umap"

definition empty_dag :: WorkloadDAG where
  "empty_dag = \<lparr>tasks = [], adj_list = [], reverse_adj = []\<rparr>"

type_synonym order = "TaskId list \<Rightarrow> TaskId list"

section \<open>Construction\<close>

text \<open>\<^verbatim>\<open>add_task\<close> returns the graph and the id of the task.\<close>

definition add_task :: "Task \<Rightarrow> WorkloadDAG \<Rightarrow> WorkloadDAG \<times> TaskId" where
  "add_task task d =
     (let i = t_id task
      in (d\<lparr>adj_list := um_emplace i [] (adj_list d),
            reverse_adj := um_emplace i [] (reverse_adj d),
            tasks := um_emplace i task (tasks d)\<rparr>, i))"

definition add_dependency :: "TaskId \<Rightarrow> TaskId \<Rightarrow> WorkloadDAG \<Rightarrow> WorkloadDAG" where
  "add_dependency from to d =
     d\<lparr>adj_list := um_push from to (adj_list d),
       reverse_adj := um_push to from (reverse_adj d),
       tasks := (case map_of (tasks d) to of
           None \<Rightarrow> tasks d
         | Some t \<Rightarrow>
             if from \<in> set (t_dependencies t) then tasks d
             else AList.update to (t\<lparr>t_dependencies := t_dependencies t @ [from]\<rparr>) (tasks d))\<rparr>"

section \<open>Topological ordering\<close>

text \<open>
  The in-degree counters are \<^verbatim>\<open>size_t\<close>; they are kept as integers, on which a decrement below
  zero gives a value that is never zero again, as the wrap-around of the unsigned counter does.
  Theory \<open>Dag_Order\<close> shows that no run decrements a counter below zero.
\<close>

type_synonym degrees = "(TaskId, int) umap"

definition count_edge :: "TaskId \<Rightarrow> degrees \<Rightarrow> degrees" where
  "count_edge to deg = AList.update to (um_get 0 deg to + 1) deg"

definition in_degree_init :: "order \<Rightarrow> WorkloadDAG \<Rightarrow> degrees" where
  "in_degree_init ord d =
     fold (\<lambda>(_, neighbors) deg. fold count_edge neighbors deg) (traverse ord (adj_list d))
       (fold (\<lambda>(i, _) deg. AList.update i 0 deg) (traverse ord (tasks d)) [])"

fun kahn_relax :: "TaskId list \<Rightarrow> degrees \<Rightarrow> TaskId list \<Rightarrow> degrees \<times> TaskId list" where
  "kahn_relax [] deg zero_in = (deg, zero_in)"
| "kahn_relax (n # ns) deg zero_in =
     (let c = um_get 0 deg n - 1
      in kahn_relax ns (AList.update n c deg) (if c = 0 then zero_in @ [n] else zero_in))"

definition degree_sum :: "degrees \<Rightarrow> nat" where
  "degree_sum deg = sum_list (map (\<lambda>(_, c). nat c) deg)"

lemma degree_sum_update:
  "degree_sum (AList.update k c deg) + nat (um_get 0 deg k) = degree_sum deg + nat c"
  by (induction deg) (auto simp: degree_sum_def um_get_def split: option.splits)

lemma kahn_relax_measure:
  "kahn_relax ns deg q = (deg', q') \<Longrightarrow>
     degree_sum deg' + length q' \<le> degree_sum deg + length q"
proof (induction ns deg q rule: kahn_relax.induct)
  case (2 n ns deg q)
  let ?c = "um_get 0 deg n - 1"
  from 2 have "degree_sum deg' + length q' \<le>
      degree_sum (AList.update n ?c deg) + length (if ?c = 0 then q @ [n] else q)"
    by (simp add: Let_def)
  moreover have "degree_sum (AList.update n ?c deg) + nat (um_get 0 deg n)
      = degree_sum deg + nat ?c"
    by (rule degree_sum_update)
  ultimately show ?case by (auto split: if_splits)
qed simp

function kahn_loop ::
  "(TaskId, TaskId list) umap \<Rightarrow> degrees \<Rightarrow> TaskId list \<Rightarrow> TaskId list \<Rightarrow> TaskId list" where
  "kahn_loop adj deg [] order = order"
| "kahn_loop adj deg (current # zero_in) order =
     (let (deg', zero_in') =
        (case map_of adj current of
           None \<Rightarrow> (deg, zero_in)
         | Some neighbors \<Rightarrow> kahn_relax neighbors deg zero_in)
      in kahn_loop adj deg' zero_in' (order @ [current]))"
  by pat_completeness auto
termination
  by (relation "measure (\<lambda>(adj, deg, q, order). degree_sum deg + length q)")
    (auto split: option.splits dest!: kahn_relax_measure [OF sym])

definition topological_order :: "order \<Rightarrow> WorkloadDAG \<Rightarrow> TaskId list" where
  "topological_order ord d =
     (let deg = in_degree_init ord d;
          zero_in = map fst (filter (\<lambda>(_, c). c = 0) (traverse ord deg))
      in kahn_loop (adj_list d) deg zero_in [])"

section \<open>Ready tasks and queries\<close>

definition deps_met :: "WorkloadDAG \<Rightarrow> TaskId \<Rightarrow> bool" where
  "deps_met d i = (case map_of (reverse_adj d) i of
       None \<Rightarrow> True
     | Some deps \<Rightarrow> list_all (\<lambda>dep. case map_of (tasks d) dep of
           None \<Rightarrow> True | Some t \<Rightarrow> t_state t = Completed) deps)"

definition ready_tasks :: "order \<Rightarrow> WorkloadDAG \<Rightarrow> TaskId list" where
  "ready_tasks ord d =
     map fst (filter (\<lambda>(i, t). t_state t = Pending \<and> deps_met d i) (traverse ord (tasks d)))"

definition dependents :: "WorkloadDAG \<Rightarrow> TaskId \<Rightarrow> TaskId list" where
  "dependents d i = (case map_of (adj_list d) i of None \<Rightarrow> [] | Some vs \<Rightarrow> vs)"

definition dependencies :: "WorkloadDAG \<Rightarrow> TaskId \<Rightarrow> TaskId list" where
  "dependencies d i = (case map_of (reverse_adj d) i of None \<Rightarrow> [] | Some vs \<Rightarrow> vs)"

section \<open>Cycle detection\<close>

datatype Color = White | Gray | Black

type_synonym colors = "(TaskId, Color) umap"

text \<open>\<^verbatim>\<open>color[n]\<close> of a node without an entry is \<^verbatim>\<open>Color::White\<close>, the zero of the enumeration.\<close>

abbreviation color_of :: "colors \<Rightarrow> TaskId \<Rightarrow> Color" where
  "color_of color n \<equiv> um_get White color n"

definition targets :: "(TaskId, TaskId list) umap \<Rightarrow> TaskId list" where
  "targets adj = concat (map snd adj)"

definition whites :: "(TaskId, TaskId list) umap \<Rightarrow> colors \<Rightarrow> TaskId set" where
  "whites adj color = {n \<in> set (targets adj). color_of color n = White}"

definition frames_left :: "(TaskId, TaskId list) umap \<Rightarrow> (TaskId \<times> nat) list \<Rightarrow> nat" where
  "frames_left adj st = sum_list (map (\<lambda>(n, i). Suc (length (um_get [] adj n) - i)) st)"

lemma finite_whites [simp]: "finite (whites adj color)"
  by (simp add: whites_def)

lemma card_whites_le:
  assumes "c \<noteq> White"
  shows "card (whites adj (AList.update n c color)) \<le> card (whites adj color)"
  by (rule card_mono) (use assms in \<open>auto simp: whites_def umap_simps\<close>)

lemma card_whites_less:
  assumes "n \<in> set (targets adj)" "color_of color n = White" "c \<noteq> White"
  shows "card (whites adj (AList.update n c color)) < card (whites adj color)"
  by (rule psubset_card_mono) (use assms in \<open>auto simp: whites_def umap_simps\<close>)

lemma nth_in_targets: "map_of adj n = Some vs \<Longrightarrow> i < length vs \<Longrightarrow> vs ! i \<in> set (targets adj)"
  by (force simp: targets_def dest: map_of_SomeD)

function dfs_loop ::
  "(TaskId, TaskId list) umap \<Rightarrow> colors \<Rightarrow> (TaskId \<times> nat) list \<Rightarrow> bool \<times> colors" where
  "dfs_loop adj color [] = (False, color)"
| "dfs_loop adj color ((node, idx) # stack) =
     (case map_of adj node of
        None \<Rightarrow> dfs_loop adj (AList.update node Black color) stack
      | Some neighbors \<Rightarrow>
          if idx \<ge> length neighbors
          then dfs_loop adj (AList.update node Black color) stack
          else let neighbor = neighbors ! idx
               in if color_of color neighbor = Gray then (True, color)
                  else if color_of color neighbor = White
                  then dfs_loop adj (AList.update neighbor Gray color)
                         ((neighbor, 0) # (node, Suc idx) # stack)
                  else dfs_loop adj color ((node, Suc idx) # stack))"
  by pat_completeness auto
termination
proof (relation "measures [\<lambda>(adj, color, st). card (whites adj color),
                           \<lambda>(adj, color, st). frames_left adj st]", goal_cases)
  case 1
  show ?case by simp
next
  case (2 adj color node idx stack)
  then show ?case
    using card_whites_le [of Black adj node color] by (auto simp: frames_left_def)
next
  case (3 adj color node idx stack vs)
  then show ?case
    using card_whites_le [of Black adj node color] by (auto simp: frames_left_def)
next
  case (4 adj color node idx stack vs nb)
  then show ?case
    by (auto intro!: card_whites_less nth_in_targets)
next
  case (5 adj color node idx stack vs nb)
  then show ?case by (auto simp: frames_left_def um_get_def)
qed

fun has_cycle_starts :: "(TaskId, TaskId list) umap \<Rightarrow> colors \<Rightarrow> TaskId list \<Rightarrow> bool" where
  "has_cycle_starts adj color [] = False"
| "has_cycle_starts adj color (start_id # rest) =
     (if color_of color start_id \<noteq> White then has_cycle_starts adj color rest
      else case dfs_loop adj (AList.update start_id Gray color) [(start_id, 0)] of
          (True, _) \<Rightarrow> True
        | (False, color') \<Rightarrow> has_cycle_starts adj color' rest)"

definition has_cycle :: "order \<Rightarrow> WorkloadDAG \<Rightarrow> bool" where
  "has_cycle ord d =
     has_cycle_starts (adj_list d)
       (fold (\<lambda>(i, _) color. AList.update i White color) (traverse ord (tasks d)) [])
       (map fst (traverse ord (tasks d)))"

definition is_valid :: "order \<Rightarrow> WorkloadDAG \<Rightarrow> bool" where
  "is_valid ord d = (tasks d \<noteq> [] \<and> \<not> has_cycle ord d)"

definition task_count :: "WorkloadDAG \<Rightarrow> nat" where
  "task_count d = length (tasks d)"

definition get_task :: "WorkloadDAG \<Rightarrow> TaskId \<Rightarrow> Task option" where
  "get_task d i = map_of (tasks d) i"

section \<open>State updates\<close>

definition set_state :: "TaskState \<Rightarrow> TaskId \<Rightarrow> WorkloadDAG \<Rightarrow> WorkloadDAG" where
  "set_state s i d = (case map_of (tasks d) i of
       None \<Rightarrow> d
     | Some t \<Rightarrow> d\<lparr>tasks := AList.update i (t\<lparr>t_state := s\<rparr>) (tasks d)\<rparr>)"

definition mark_completed :: "TaskId \<Rightarrow> WorkloadDAG \<Rightarrow> WorkloadDAG" where
  "mark_completed = set_state Completed"

definition mark_failed :: "TaskId \<Rightarrow> WorkloadDAG \<Rightarrow> WorkloadDAG" where
  "mark_failed = set_state Failed"

definition mark_running :: "TaskId \<Rightarrow> WorkloadDAG \<Rightarrow> WorkloadDAG" where
  "mark_running = set_state Running"

definition mark_scheduled :: "TaskId \<Rightarrow> WorkloadDAG \<Rightarrow> WorkloadDAG" where
  "mark_scheduled = set_state Scheduled"

section \<open>The invariant of the constructors\<close>

text \<open>
  The invariant of a graph built by \<open>add_task\<close> and \<open>add_dependency\<close>: the three maps have one entry
  per key, every task is filed under its own id and has its two adjacency entries, and the two
  adjacency maps hold the same edges with the same multiplicity.
\<close>

definition dag_inv :: "WorkloadDAG \<Rightarrow> bool" where
  "dag_inv d \<longleftrightarrow> um_ok (tasks d) \<and> um_ok (adj_list d) \<and> um_ok (reverse_adj d) \<and>
     (\<forall>(i, t) \<in> set (tasks d). t_id t = i) \<and>
     um_keys (tasks d) \<subseteq> um_keys (adj_list d) \<and>
     um_keys (tasks d) \<subseteq> um_keys (reverse_adj d) \<and>
     (\<forall>u v. count_list (dependents d u) v = count_list (dependencies d v) u)"

abbreviation task_ids :: "WorkloadDAG \<Rightarrow> TaskId set" where
  "task_ids d \<equiv> um_keys (tasks d)"

definition edges :: "WorkloadDAG \<Rightarrow> (TaskId \<times> TaskId) set" where
  "edges d = {(u, v). v \<in> set (dependents d u)}"

text \<open>A closed graph has no edge to or from an id that is not a task.\<close>

definition closed_dag :: "WorkloadDAG \<Rightarrow> bool" where
  "closed_dag d \<longleftrightarrow> edges d \<subseteq> task_ids d \<times> task_ids d"

lemma dependents_get: "dependents d i = um_get [] (adj_list d) i"
  by (simp add: dependents_def um_get_def)

lemma dependencies_get: "dependencies d i = um_get [] (reverse_adj d) i"
  by (simp add: dependencies_def um_get_def)

lemmas dag_view = dependents_get dependencies_get

lemma dag_invD:
  assumes "dag_inv d"
  shows "um_ok (tasks d)" "um_ok (adj_list d)" "um_ok (reverse_adj d)"
    and "\<forall>(i, t) \<in> set (tasks d). t_id t = i"
    and "um_keys (tasks d) \<subseteq> um_keys (adj_list d)"
    and "um_keys (tasks d) \<subseteq> um_keys (reverse_adj d)"
    and "\<And>u v. count_list (dependents d u) v = count_list (dependencies d v) u"
  using assms by (auto simp: dag_inv_def)

lemma dependents_iff_dependencies:
  assumes "dag_inv d"
  shows "v \<in> set (dependents d u) \<longleftrightarrow> u \<in> set (dependencies d v)"
  by (metis assms count_list_0_iff dag_invD(7))

lemma edges_iff: "(u, v) \<in> edges d \<longleftrightarrow> v \<in> set (dependents d u)"
  by (simp add: edges_def)

lemma edges_iff': "dag_inv d \<Longrightarrow> (u, v) \<in> edges d \<longleftrightarrow> u \<in> set (dependencies d v)"
  by (simp add: edges_iff dependents_iff_dependencies)

lemma dag_inv_empty: "dag_inv empty_dag"
  by (simp add: dag_inv_def empty_dag_def dag_view)

lemma update_same_shape:
  assumes "map_of m k = Some v"
  shows "map fst (AList.update k w m) = map fst m"
  using assms by (induction m) (auto split: if_splits)

lemma set_update_subset: "set (AList.update k v m) \<subseteq> insert (k, v) (set m)"
  by (induction m) auto

lemma set_emplace_subset: "set (um_emplace k v m) \<subseteq> insert (k, v) (set m)"
  by (auto simp: um_emplace_def split: option.splits)

lemma dependents_add_task [simp]: "dependents (fst (add_task t d)) = dependents d"
  by (auto simp: dag_view add_task_def Let_def umap_simps fun_eq_iff)

lemma dependencies_add_task [simp]: "dependencies (fst (add_task t d)) = dependencies d"
  by (auto simp: dag_view add_task_def Let_def umap_simps fun_eq_iff)

lemma task_ids_add_task [simp]: "task_ids (fst (add_task t d)) = insert (t_id t) (task_ids d)"
  by (simp add: add_task_def Let_def umap_simps)

lemma dag_inv_add_task:
  assumes "dag_inv d"
  shows "dag_inv (fst (add_task t d))"
proof -
  have "\<forall>(i, t') \<in> set (tasks (fst (add_task t d))). t_id t' = i"
    using dag_invD(4) [OF assms] set_emplace_subset [of "t_id t" t "tasks d"]
    by (auto simp: add_task_def Let_def)
  moreover have "um_ok (tasks (fst (add_task t d)))" "um_ok (adj_list (fst (add_task t d)))"
    "um_ok (reverse_adj (fst (add_task t d)))"
    using dag_invD(1-3) [OF assms] by (simp_all add: add_task_def Let_def)
  moreover have "task_ids (fst (add_task t d)) \<subseteq> um_keys (adj_list (fst (add_task t d)))"
    "task_ids (fst (add_task t d)) \<subseteq> um_keys (reverse_adj (fst (add_task t d)))"
    using dag_invD(5-6) [OF assms] by (auto simp: add_task_def Let_def umap_simps)
  ultimately show ?thesis
    using dag_invD(7) [OF assms] unfolding dag_inv_def by simp
qed

lemma dependents_add_dependency:
  "dependents (add_dependency u v d) u' = dependents d u' @ (if u' = u then [v] else [])"
  by (simp add: dag_view add_dependency_def umap_simps)

lemma dependencies_add_dependency:
  "dependencies (add_dependency u v d) v' = dependencies d v' @ (if v' = v then [u] else [])"
  by (simp add: dag_view add_dependency_def umap_simps)

lemma map_fst_tasks_add_dependency [simp]:
  "map fst (tasks (add_dependency u v d)) = map fst (tasks d)"
  by (auto simp: add_dependency_def update_same_shape split: option.splits)

lemma task_ids_add_dependency [simp]: "task_ids (add_dependency u v d) = task_ids d"
  by (metis map_fst_tasks_add_dependency set_map um_keys_def)

lemma edges_add_task [simp]: "edges (fst (add_task t d)) = edges d"
  by (simp add: edges_def)

lemma edges_add_dependency: "edges (add_dependency u v d) = insert (u, v) (edges d)"
  by (auto simp: edges_def dependents_add_dependency)

lemma dag_inv_add_dependency:
  assumes "dag_inv d"
  shows "dag_inv (add_dependency u v d)"
proof -
  have ids: "\<forall>(i, t') \<in> set (tasks (add_dependency u v d)). t_id t' = i"
  proof (cases "map_of (tasks d) v")
    case None
    then show ?thesis using dag_invD(4) [OF assms] by (auto simp: add_dependency_def)
  next
    case (Some t)
    then have "t_id t = v" using dag_invD(4) [OF assms] by (auto dest!: map_of_SomeD)
    with Some show ?thesis
      using dag_invD(4) [OF assms]
        set_update_subset [of v "t\<lparr>t_dependencies := t_dependencies t @ [u]\<rparr>" "tasks d"]
      by (auto simp: add_dependency_def)
  qed
  have "um_keys (tasks d) \<subseteq> um_keys (adj_list (add_dependency u v d))"
    "um_keys (tasks d) \<subseteq> um_keys (reverse_adj (add_dependency u v d))"
    using dag_invD(5,6) [OF assms] by (auto simp: add_dependency_def umap_simps)
  moreover have "um_ok (adj_list (add_dependency u v d))" "um_ok (reverse_adj (add_dependency u v d))"
    using dag_invD(2,3) [OF assms] by (simp_all add: add_dependency_def)
  ultimately show ?thesis
    using dag_invD(1,7) [OF assms] ids unfolding dag_inv_def
    by (simp add: dependents_add_dependency dependencies_add_dependency)
qed

lemma dag_inv_set_state:
  assumes "dag_inv d"
  shows "dag_inv (set_state s i d)"
proof (cases "map_of (tasks d) i")
  case None
  with assms show ?thesis by (simp add: set_state_def)
next
  case (Some t)
  let ?d = "set_state s i d"
  have "t_id t = i" using Some dag_invD(4) [OF assms] by (auto dest!: map_of_SomeD)
  then have ids: "\<forall>(j, t') \<in> set (tasks ?d). t_id t' = j"
    using Some dag_invD(4) [OF assms] set_update_subset [of i "t\<lparr>t_state := s\<rparr>" "tasks d"]
    by (auto simp: set_state_def)
  have keys: "map fst (tasks ?d) = map fst (tasks d)"
    using Some by (simp add: set_state_def update_same_shape)
  then have "task_ids ?d = task_ids d" by (metis set_map um_keys_def)
  moreover have "dependents ?d = dependents d" "dependencies ?d = dependencies d"
    "adj_list ?d = adj_list d" "reverse_adj ?d = reverse_adj d"
    using Some by (auto simp: set_state_def dag_view fun_eq_iff)
  ultimately show ?thesis
    using assms ids keys unfolding dag_inv_def by simp
qed

text \<open>Two passes, tasks first and then edges: how the submission decoder builds a graph.\<close>

definition build_dag :: "Task list \<Rightarrow> (TaskId \<times> TaskId) list \<Rightarrow> WorkloadDAG" where
  "build_dag ts es =
     fold (\<lambda>(u, v). add_dependency u v) es (fold (\<lambda>t d. fst (add_task t d)) ts empty_dag)"

lemma fold_add_tasks:
  "dag_inv d \<Longrightarrow> dag_inv (fold (\<lambda>t d. fst (add_task t d)) ts d)"
  "task_ids (fold (\<lambda>t d. fst (add_task t d)) ts d) = t_id ` set ts \<union> task_ids d"
  "edges (fold (\<lambda>t d. fst (add_task t d)) ts d) = edges d"
  by (induction ts arbitrary: d) (simp_all add: dag_inv_add_task)

lemma fold_add_dependencies:
  "dag_inv d \<Longrightarrow> dag_inv (fold (\<lambda>(u, v). add_dependency u v) es d)"
  "task_ids (fold (\<lambda>(u, v). add_dependency u v) es d) = task_ids d"
  "edges (fold (\<lambda>(u, v). add_dependency u v) es d) = set es \<union> edges d"
  by (induction es arbitrary: d)
    (auto simp: dag_inv_add_dependency edges_add_dependency split: prod.splits)

lemma build_dag_inv: "dag_inv (build_dag ts es)"
  by (simp add: build_dag_def fold_add_tasks fold_add_dependencies dag_inv_empty)

lemma edges_empty [simp]: "edges empty_dag = {}"
  by (simp add: edges_def empty_dag_def dag_view um_get_def)

lemma build_dag_edges: "edges (build_dag ts es) = set es"
  by (simp add: build_dag_def fold_add_dependencies fold_add_tasks)

lemma build_dag_task_ids: "task_ids (build_dag ts es) = t_id ` set ts"
  by (simp add: build_dag_def fold_add_dependencies fold_add_tasks) (simp add: empty_dag_def)

lemma finite_edges: "finite (edges d)"
proof (rule finite_subset)
  show "edges d \<subseteq> Sigma (um_keys (adj_list d)) (\<lambda>u. set (dependents d u))"
  proof safe
    fix u v
    assume "(u, v) \<in> edges d"
    then have v: "v \<in> set (dependents d u)" by (simp add: edges_def)
    then have "um_get [] (adj_list d) u \<noteq> []" by (auto simp: dependents_get)
    then show "u \<in> um_keys (adj_list d)" by (metis um_get_notin)
    show "v \<in> set (dependents d u)" by (rule v)
  qed
  show "finite (Sigma (um_keys (adj_list d)) (\<lambda>u. set (dependents d u)))"
    by (rule finite_SigmaI) simp_all
qed

lemma get_task_iff: "v \<in> task_ids d \<longleftrightarrow> (\<exists>t. get_task d v = Some t)"
  by (simp add: get_task_def in_um_keys_iff)

section \<open>Histories of a graph\<close>

text \<open>Every mutator of the class as one data type, so that a history is a list of calls.\<close>

datatype dag_op =
    AddTask Task
  | AddDependency TaskId TaskId
  | MarkCompleted TaskId
  | MarkFailed TaskId
  | MarkRunning TaskId
  | MarkScheduled TaskId

fun run_dag_op :: "dag_op \<Rightarrow> WorkloadDAG \<Rightarrow> WorkloadDAG" where
  "run_dag_op (AddTask t) d = fst (add_task t d)"
| "run_dag_op (AddDependency u v) d = add_dependency u v d"
| "run_dag_op (MarkCompleted i) d = mark_completed i d"
| "run_dag_op (MarkFailed i) d = mark_failed i d"
| "run_dag_op (MarkRunning i) d = mark_running i d"
| "run_dag_op (MarkScheduled i) d = mark_scheduled i d"

lemmas mark_defs = mark_completed_def mark_failed_def mark_running_def mark_scheduled_def

lemma edges_set_state [simp]: "edges (set_state s i d) = edges d"
  by (auto simp: edges_def dependents_def set_state_def split: option.splits)

lemma task_ids_set_state [simp]: "task_ids (set_state s i d) = task_ids d"
  by (auto simp: set_state_def umap_simps um_keysI split: option.splits)

lemma dag_inv_run_dag_op: "dag_inv d \<Longrightarrow> dag_inv (run_dag_op op d)"
  by (cases op) (simp_all add: mark_defs dag_inv_add_task dag_inv_add_dependency dag_inv_set_state)

lemma edges_run_dag_op:
  "edges (run_dag_op op d) = edges d \<union> (case op of AddDependency u v \<Rightarrow> {(u, v)} | _ \<Rightarrow> {})"
  by (cases op) (simp_all add: mark_defs edges_add_dependency)

text \<open>
  C12. Whatever sequence of mutator calls a client makes on a fresh graph, the result is well formed
  (one entry per key, each task filed under its id, the forward and the reverse adjacency map hold
  the same edges with the same multiplicity), and its edges are exactly the dependencies added.
\<close>

theorem dag_history_inv:
  "dag_inv (fold run_dag_op ops empty_dag) \<and>
   edges (fold run_dag_op ops empty_dag) = {(u, v). AddDependency u v \<in> set ops}"
proof -
  have "dag_inv (fold run_dag_op ops d) \<and>
      edges (fold run_dag_op ops d) = edges d \<union> {(u, v). AddDependency u v \<in> set ops}"
    if "dag_inv d" for d
    using that
    by (induction ops arbitrary: d)
      (auto simp: dag_inv_run_dag_op edges_run_dag_op split: dag_op.splits)
  from this [OF dag_inv_empty] show ?thesis by simp
qed

text \<open>A task with a compute cost and a memory demand, for the concrete graphs of the examples.\<close>

definition sample_task :: "TaskId \<Rightarrow> Duration \<Rightarrow> u64 \<Rightarrow> Task" where
  "sample_task i c m = \<lparr>t_id = i, t_name = i,
     t_profile = \<lparr>compute_cost = c, memory_bytes = m, input_bytes = 0, output_bytes = 0\<rparr>,
     t_dependencies = [], t_state = Pending\<rparr>"

text \<open>A diamond: \<open>a\<close> before \<open>b\<close> and \<open>c\<close>, both before \<open>e\<close>.\<close>

definition sample_dag :: WorkloadDAG where
  "sample_dag = build_dag
     [sample_task ''a'' 5 10, sample_task ''b'' 20 30, sample_task ''c'' 7 40, sample_task ''e'' 1 5]
     [(''a'', ''b''), (''a'', ''c''), (''b'', ''e''), (''c'', ''e'')]"

lemma closed_build_dag:
  "closed_dag (build_dag ts es) \<longleftrightarrow> list_all (\<lambda>(u, v). u \<in> t_id ` set ts \<and> v \<in> t_id ` set ts) es"
  by (auto simp: closed_dag_def build_dag_edges build_dag_task_ids list_all_iff)

lemma sample_dag_ok: "dag_inv sample_dag" "closed_dag sample_dag"
  by (simp_all add: sample_dag_def build_dag_inv closed_build_dag sample_task_def)

end
