(* ===== verification/Dag_Order.thy ===== *)
theory Dag_Order
  imports Dag
begin

text \<open>
  Kahn's algorithm (\<^verbatim>\<open>WorkloadDAG::topological_order\<close>): the order it returns has no duplicates,
  every node comes after all its predecessors, and on a closed acyclic graph it lists every task.
\<close>

section \<open>In-degrees\<close>

text \<open>The edges into \<open>v\<close> whose source is not yet in \<open>P\<close>, counted with multiplicity.\<close>

definition indeg :: "(TaskId, TaskId list) umap \<Rightarrow> TaskId set \<Rightarrow> TaskId \<Rightarrow> nat" where
  "indeg adj P v = sum_list (map (\<lambda>(u, vs). if u \<in> P then 0 else count_list vs v) adj)"

lemma indeg_eq_0_iff:
  assumes "um_ok adj"
  shows "indeg adj P v = 0 \<longleftrightarrow> (\<forall>u. v \<in> set (um_get [] adj u) \<longrightarrow> u \<in> P)"
proof -
  have "(\<forall>(u, vs) \<in> set adj. u \<in> P \<or> v \<notin> set vs) \<longleftrightarrow>
      (\<forall>u. v \<in> set (um_get [] adj u) \<longrightarrow> u \<in> P)"
    using assms by (fastforce simp: um_get_def split: option.splits dest: map_of_SomeD)
  then show ?thesis by (auto simp: indeg_def count_list_0_iff split: if_splits)
qed

lemma indeg_Cons:
  "indeg ((w, vs) # adj) P v = (if w \<in> P then 0 else count_list vs v) + indeg adj P v"
  by (simp add: indeg_def)

lemma indeg_insert:
  assumes "um_ok adj" "u \<notin> P"
  shows "indeg adj (insert u P) v + count_list (um_get [] adj u) v = indeg adj P v"
  using assms(1)
proof (induction adj)
  case Nil
  then show ?case by (simp add: indeg_def)
next
  case (Cons e adj)
  obtain w vs where e: "e = (w, vs)" by force
  show ?case
  proof (cases "w = u")
    case True
    with Cons.prems e have "u \<notin> um_keys adj" by simp
    then have "um_get [] adj u = []" by simp
    with True Cons assms(2) e show ?thesis by (simp add: indeg_Cons um_get_def)
  next
    case False
    with Cons assms(2) e show ?thesis by (simp add: indeg_Cons um_get_def)
  qed
qed

lemma count_edges_get:
  "um_get 0 (fold count_edge vs deg) v = um_get 0 deg v + int (count_list vs v)"
  by (induction vs arbitrary: deg) (auto simp: count_edge_def umap_simps)

lemma count_edges_keys: "um_keys (fold count_edge vs deg) = um_keys deg \<union> set vs"
  by (induction vs arbitrary: deg) (auto simp: count_edge_def umap_simps)

lemma count_edges_ok: "um_ok deg \<Longrightarrow> um_ok (fold count_edge vs deg)"
  by (induction vs arbitrary: deg) (auto simp: count_edge_def)

lemma count_all_get:
  "um_get 0 (fold (\<lambda>(_, vs). fold count_edge vs) es deg) v =
     um_get 0 deg v + int (sum_list (map (\<lambda>(_, vs). count_list vs v) es))"
  by (induction es arbitrary: deg) (auto simp: count_edges_get)

lemma count_all_keys:
  "um_keys (fold (\<lambda>(_, vs). fold count_edge vs) es deg) = um_keys deg \<union> set (targets es)"
  by (induction es arbitrary: deg) (auto simp: count_edges_keys targets_def)

lemma count_all_ok: "um_ok deg \<Longrightarrow> um_ok (fold (\<lambda>(_, vs). fold count_edge vs) es deg)"
  by (induction es arbitrary: deg) (auto simp: count_edges_ok)

lemma zeros_get: "um_get 0 (fold (\<lambda>(i, _) deg. AList.update i 0 deg) es deg) v =
    (if v \<in> um_keys es then 0 else um_get (0::int) deg v)"
  by (induction es arbitrary: deg) (auto simp: umap_simps)

lemma zeros_keys:
  "um_keys (fold (\<lambda>(i, _) deg. AList.update i (0::int) deg) es deg) = um_keys es \<union> um_keys deg"
  by (induction es arbitrary: deg) (auto simp: umap_simps)

lemma zeros_ok: "um_ok deg \<Longrightarrow> um_ok (fold (\<lambda>(i, _) deg. AList.update i (0::int) deg) es deg)"
  by (induction es arbitrary: deg) auto

text \<open>The nodes Kahn's algorithm knows: the tasks and the targets of edges.\<close>

definition kahn_nodes :: "WorkloadDAG \<Rightarrow> TaskId set" where
  "kahn_nodes d = task_ids d \<union> set (targets (adj_list d))"

lemma in_degree_init_get:
  assumes "order_ok ord" "dag_inv d"
  shows "um_get 0 (in_degree_init ord d) v = int (indeg (adj_list d) {} v)"
proof -
  have "sum_list (map (\<lambda>(_, vs). count_list vs v) (traverse ord (adj_list d)))
      = indeg (adj_list d) {} v"
    using sum_list_traverse [OF assms(1) dag_invD(2) [OF assms(2)]] by (simp add: indeg_def)
  then show ?thesis
    by (simp add: in_degree_init_def count_all_get zeros_get)
qed

lemma targets_traverse:
  assumes "order_ok ord" "um_ok adj"
  shows "set (targets (traverse ord adj)) = set (targets adj)"
  using set_traverse [OF assms] by (simp add: targets_def)

lemma in_degree_init_keys:
  assumes "order_ok ord" "dag_inv d"
  shows "um_keys (in_degree_init ord d) = kahn_nodes d"
  using assms dag_invD(1,2) [OF assms(2)]
  by (simp add: in_degree_init_def count_all_keys zeros_keys kahn_nodes_def targets_traverse
      set_traverse)

lemma in_degree_init_ok: "um_ok (in_degree_init ord d)"
  by (simp add: in_degree_init_def count_all_ok zeros_ok)

section \<open>One round of the loop\<close>

lemma kahn_relax_spec:
  assumes "\<And>v. int (count_list ns v) \<le> um_get 0 deg v"
  shows "\<exists>deg' new. kahn_relax ns deg q = (deg', q @ new) \<and> distinct new \<and>
      set new = {v \<in> set ns. um_get 0 deg v = int (count_list ns v)} \<and>
      (\<forall>v. um_get 0 deg' v = um_get 0 deg v - int (count_list ns v)) \<and>
      um_keys deg' = um_keys deg \<union> set ns"
  using assms
proof (induction ns arbitrary: deg q)
  case Nil
  show ?case by simp
next
  case (Cons n ns)
  let ?c = "um_get 0 deg n - 1"
  let ?deg = "AList.update n ?c deg"
  let ?q = "if ?c = 0 then q @ [n] else q"
  have ge: "int (count_list ns v) \<le> um_get 0 ?deg v" for v
    using Cons.prems [of v] by (auto simp: umap_simps split: if_splits)
  then obtain deg' new where r: "kahn_relax ns ?deg ?q = (deg', ?q @ new)" "distinct new"
      "set new = {v \<in> set ns. um_get 0 ?deg v = int (count_list ns v)}"
      "\<And>v. um_get 0 deg' v = um_get 0 ?deg v - int (count_list ns v)"
      "um_keys deg' = um_keys ?deg \<union> set ns"
    using Cons.IH [of ?deg ?q] by blast
  have get': "um_get 0 deg' v = um_get 0 deg v - int (count_list (n # ns) v)" for v
    using r(4) [of v] by (simp add: umap_simps)
  have keys': "um_keys deg' = um_keys deg \<union> set (n # ns)"
    using r(5) by (auto simp: umap_simps)
  show ?case
  proof (cases "?c = 0")
    case True
    then have one: "um_get 0 deg n = 1" by simp
    with ge [of n] have n: "count_list ns n = 0" by (simp add: umap_simps)
    then have n_notin: "n \<notin> set ns" by (simp add: count_list_0_iff)
    have mem: "v \<in> set new \<longleftrightarrow> v \<in> set ns \<and> um_get 0 deg v = int (count_list ns v)" for v
      unfolding r(3) using n_notin by (cases "v = n") (simp_all add: umap_simps)
    have "distinct (n # new)" using r(2) mem n_notin by simp
    moreover have "v \<in> set (n # new) \<longleftrightarrow>
        v \<in> set (n # ns) \<and> um_get 0 deg v = int (count_list (n # ns) v)" for v
      using mem [of v] one n n_notin by (cases "v = n") simp_all
    then have "set (n # new) = {v \<in> set (n # ns). um_get 0 deg v = int (count_list (n # ns) v)}"
      by blast
    moreover have "kahn_relax (n # ns) deg q = (deg', q @ n # new)"
      using True r(1) by (simp add: Let_def)
    ultimately show ?thesis using get' keys' by blast
  next
    case False
    have n_in: "n \<in> set ns" if "um_get 0 deg n = int (count_list (n # ns) n)"
    proof (rule ccontr)
      assume "n \<notin> set ns"
      then have "count_list ns n = 0" by (simp add: count_list_0_iff)
      with that False show False by simp
    qed
    have "v \<in> set new \<longleftrightarrow> v \<in> set (n # ns) \<and> um_get 0 deg v = int (count_list (n # ns) v)" for v
    proof (cases "v = n")
      case True
      have "um_get 0 deg n - 1 = int (count_list ns n) \<longleftrightarrow>
          um_get 0 deg n = int (count_list (n # ns) n)" by auto
      then have "n \<in> set new \<longleftrightarrow> n \<in> set ns \<and> um_get 0 deg n = int (count_list (n # ns) n)"
        unfolding r(3) by (simp add: umap_simps)
      with n_in show ?thesis unfolding True by (blast intro: list.set_intros)
    next
      case False
      then show ?thesis unfolding r(3) by (simp add: umap_simps)
    qed
    then have "set new = {v \<in> set (n # ns). um_get 0 deg v = int (count_list (n # ns) v)}"
      by blast
    moreover have "kahn_relax (n # ns) deg q = (deg', q @ new)"
      using False r(1) by (simp add: Let_def)
    ultimately show ?thesis using r(2) get' keys' by blast
  qed
qed

section \<open>The loop invariant\<close>

text \<open>Every predecessor of an element stands before it.\<close>

definition topo_sorted :: "(TaskId, TaskId list) umap \<Rightarrow> TaskId list \<Rightarrow> bool" where
  "topo_sorted adj xs \<longleftrightarrow>
     (\<forall>i < length xs. \<forall>u. xs ! i \<in> set (um_get [] adj u) \<longrightarrow> u \<in> set (take i xs))"

lemma topo_sorted_snoc:
  "topo_sorted adj (xs @ [x]) \<longleftrightarrow>
     topo_sorted adj xs \<and> (\<forall>u. x \<in> set (um_get [] adj u) \<longrightarrow> u \<in> set xs)"
  by (auto simp: topo_sorted_def nth_append less_Suc_eq)

text \<open>
  \<open>kahn_inv adj V deg q order\<close>: what holds between two rounds. The counters count the edges from
  nodes that are not yet in the order (so none of them is ever negative), and the nodes in the
  order or in the queue are exactly those of \<open>V\<close> without such an edge.
\<close>

definition kahn_inv ::
  "(TaskId, TaskId list) umap \<Rightarrow> TaskId set \<Rightarrow> degrees \<Rightarrow> TaskId list \<Rightarrow> TaskId list \<Rightarrow> bool" where
  "kahn_inv adj V deg q order \<longleftrightarrow>
     um_ok adj \<and> set (targets adj) \<subseteq> V \<and> distinct (order @ q) \<and> topo_sorted adj order \<and>
     (\<forall>v. um_get 0 deg v = int (indeg adj (set order) v)) \<and> um_keys deg = V \<and>
     (\<forall>v. v \<in> set order \<or> v \<in> set q \<longleftrightarrow> v \<in> V \<and> indeg adj (set order) v = 0)"

lemma get_in_targets: "v \<in> set (um_get [] adj u) \<Longrightarrow> v \<in> set (targets adj)"
  by (cases "map_of adj u") (force simp: targets_def um_get_def dest: map_of_SomeD)+

lemma kahn_inv_step:
  assumes inv: "kahn_inv adj V deg (c # q) order"
    and relax: "kahn_relax (um_get [] adj c) deg q = (deg', q')"
  shows "kahn_inv adj V deg' q' (order @ [c])"
proof -
  let ?ns = "um_get [] adj c" and ?P = "set order"
  note ok = inv [unfolded kahn_inv_def]
  have c: "c \<notin> ?P" "c \<in> V" "indeg adj ?P c = 0" using ok by auto
  have ins: "indeg adj (insert c ?P) v + count_list ?ns v = indeg adj ?P v" for v
    using ok c(1) by (intro indeg_insert) auto
  have ge: "int (count_list ?ns v) \<le> um_get 0 deg v" for v
    using ok ins [of v] by simp
  obtain new where q': "q' = q @ new" and new: "distinct new"
      "set new = {v \<in> set ?ns. um_get 0 deg v = int (count_list ?ns v)}"
    and get': "\<And>v. um_get 0 deg' v = um_get 0 deg v - int (count_list ?ns v)"
    and keys': "um_keys deg' = um_keys deg \<union> set ?ns"
    using kahn_relax_spec [of ?ns deg q, OF ge] relax by auto
  have new_iff: "v \<in> set new \<longleftrightarrow> indeg adj (insert c ?P) v = 0 \<and> indeg adj ?P v \<noteq> 0" for v
    using ins [of v] ok new(2) by (auto simp: count_list_0_iff)
  have newV: "set new \<subseteq> V"
    using new(2) ok get_in_targets by fastforce
  have sorted: "topo_sorted adj (order @ [c])"
    using ok c(3) by (simp add: topo_sorted_snoc indeg_eq_0_iff)
  have deg: "um_get 0 deg' v = int (indeg adj (insert c ?P) v)" for v
    using get' [of v] ok ins [of v] by simp
  have mem: "v \<in> insert c ?P \<or> v \<in> set q' \<longleftrightarrow> v \<in> V \<and> indeg adj (insert c ?P) v = 0" for v
  proof -
    have "v \<in> insert c ?P \<or> v \<in> set q \<longleftrightarrow> v \<in> V \<and> indeg adj ?P v = 0" using ok by auto
    moreover have "indeg adj ?P v = 0 \<Longrightarrow> indeg adj (insert c ?P) v = 0" using ins [of v] by simp
    ultimately show ?thesis using new_iff [of v] newV q' by auto
  qed
  have zero: "indeg adj ?P v = 0" if "v \<in> set (order @ c # q)" for v
    using that ok by auto
  have "set new \<inter> set (order @ c # q) = {}"
    using new_iff zero by blast
  then have "distinct ((order @ [c]) @ q')"
    using ok new(1) q' by auto
  moreover have "um_keys deg' = V"
    using keys' ok get_in_targets by fastforce
  ultimately show ?thesis
    using ok sorted deg mem by (simp add: kahn_inv_def)
qed

lemma kahn_step_get:
  "(case map_of adj c of None \<Rightarrow> (deg, q) | Some ns \<Rightarrow> kahn_relax ns deg q) =
     kahn_relax (um_get [] adj c) deg q"
  by (simp add: um_get_def split: option.splits)

lemma kahn_loop_inv:
  "kahn_inv adj V deg q order \<Longrightarrow> \<exists>deg'. kahn_inv adj V deg' [] (kahn_loop adj deg q order)"
proof (induction adj deg q order rule: kahn_loop.induct)
  case (1 adj deg order)
  then show ?case by auto
next
  case (2 adj deg c q order)
  obtain deg' q' where relax: "kahn_relax (um_get [] adj c) deg q = (deg', q')" by force
  with "2.prems" have "kahn_inv adj V deg' q' (order @ [c])" by (rule kahn_inv_step)
  with 2 relax show ?case by (simp add: kahn_step_get)
qed

lemma kahn_inv_init:
  assumes "order_ok ord" "dag_inv d"
  shows "kahn_inv (adj_list d) (kahn_nodes d) (in_degree_init ord d)
    (map fst (filter (\<lambda>(_, c). c = 0) (traverse ord (in_degree_init ord d)))) []"
proof -
  let ?deg = "in_degree_init ord d"
  let ?q = "map fst (filter (\<lambda>(_, c). c = 0) (traverse ord ?deg))"
  have ok: "um_ok ?deg" by (rule in_degree_init_ok)
  have "distinct (map fst (traverse ord ?deg))" using assms(1) ok by simp
  then have "distinct ?q" by (rule distinct_map_filter)
  moreover have "v \<in> set ?q \<longleftrightarrow> v \<in> kahn_nodes d \<and> indeg (adj_list d) {} v = 0" for v
  proof -
    have "v \<in> set ?q \<longleftrightarrow> (v, 0) \<in> set ?deg"
      using set_traverse [OF assms(1) ok] by force
    also have "\<dots> \<longleftrightarrow> v \<in> um_keys ?deg \<and> um_get 0 ?deg v = 0"
      using map_of_in_set [OF ok, of v 0] by (auto simp: um_get_def in_um_keys_iff split: option.splits)
    finally show ?thesis
      using assms by (simp add: in_degree_init_get in_degree_init_keys)
  qed
  ultimately show ?thesis
    using assms dag_invD(2) [OF assms(2)]
    by (simp add: kahn_inv_def in_degree_init_get in_degree_init_keys kahn_nodes_def topo_sorted_def)
qed

text \<open>What the run returns, for any graph, cyclic or not.\<close>

lemma topological_order_spec:
  assumes "order_ok ord" "dag_inv d"
  defines "topo \<equiv> topological_order ord d"
  shows "distinct topo" "topo_sorted (adj_list d) topo"
    and "\<And>v. v \<in> set topo \<longleftrightarrow> v \<in> kahn_nodes d \<and> (\<forall>u. (u, v) \<in> edges d \<longrightarrow> u \<in> set topo)"
proof -
  obtain deg' where inv: "kahn_inv (adj_list d) (kahn_nodes d) deg' [] topo"
    using kahn_loop_inv [OF kahn_inv_init [OF assms(1,2)]]
    by (auto simp: topo_def topological_order_def Let_def)
  then show "distinct topo" "topo_sorted (adj_list d) topo"
    by (simp_all add: kahn_inv_def)
  show "v \<in> set topo \<longleftrightarrow> v \<in> kahn_nodes d \<and> (\<forall>u. (u, v) \<in> edges d \<longrightarrow> u \<in> set topo)" for v
    using inv by (auto simp: kahn_inv_def indeg_eq_0_iff edges_iff dependents_get)
qed

section \<open>Correctness\<close>

lemma closed_dag_nodes: "closed_dag d \<Longrightarrow> dag_inv d \<Longrightarrow> kahn_nodes d = task_ids d"
  by (force simp: closed_dag_def kahn_nodes_def edges_def dependents_def targets_def
      dest: dag_invD(2))

lemma topological_order_complete_set:
  assumes "order_ok ord" "dag_inv d" "closed_dag d" "acyclic (edges d)"
  shows "set (topological_order ord d) = task_ids d"
proof -
  have nodes: "kahn_nodes d = task_ids d" using assms(2,3) by (rule closed_dag_nodes [rotated])
  have "wf (edges d)" using finite_edges assms(4) by (rule finite_acyclic_wf)
  then have "v \<in> task_ids d \<longrightarrow> v \<in> set (topological_order ord d)" for v
  proof (induction v)
    case (less v)
    then show ?case
      using topological_order_spec(3) [OF assms(1,2), of v] nodes assms(3)
      by (auto simp: closed_dag_def)
  qed
  moreover have "set (topological_order ord d) \<subseteq> task_ids d"
    using topological_order_spec(3) [OF assms(1,2)] nodes by auto
  ultimately show ?thesis by auto
qed

lemma topo_sorted_acyclic:
  assumes "topo_sorted (adj_list d) xs" "distinct xs" "edges d \<subseteq> set xs \<times> set xs"
  shows "acyclic (edges d)"
proof -
  define pos where "pos v = (LEAST i. i < length xs \<and> xs ! i = v)" for v
  have pos: "pos v < length xs \<and> xs ! pos v = v" if "v \<in> set xs" for v
    unfolding pos_def by (rule LeastI_ex) (use that in \<open>simp add: in_set_conv_nth\<close>)
  have "pos u < pos v" if e: "(u, v) \<in> edges d" for u v
  proof -
    from e assms(3) have uv: "u \<in> set xs" "v \<in> set xs" by auto
    have "u \<in> set (take (pos v) xs)"
      using assms(1) pos [OF uv(2)] e by (auto simp: topo_sorted_def edges_iff dependents_get)
    then obtain i where "i < pos v" "xs ! i = u" "i < length xs"
      using pos [OF uv(2)] by (auto simp: in_set_conv_nth)
    then show ?thesis
      using pos [OF uv(1)] assms(2) by (auto simp: nth_eq_iff_index_eq)
  qed
  then have "edges d \<subseteq> measure pos" by auto
  then show ?thesis by (rule acyclic_subset [rotated]) (rule wf_acyclic, rule wf_measure)
qed

lemma length_topo_eq_count_iff:
  assumes "order_ok ord" "dag_inv d" "closed_dag d"
  shows "length (topological_order ord d) = task_count d \<longleftrightarrow> acyclic (edges d)"
proof
  let ?topo = "topological_order ord d"
  have card: "card (task_ids d) = task_count d"
    using dag_invD(1) [OF assms(2)] distinct_card [of "map fst (tasks d)"]
    by (simp add: task_count_def)
  have dist: "distinct ?topo" using assms(1,2) by (rule topological_order_spec)
  {
    assume "acyclic (edges d)"
    with assms have "set ?topo = task_ids d" by (rule topological_order_complete_set)
    then show "length ?topo = task_count d" using dist card distinct_card by fastforce
  next
    assume len: "length ?topo = task_count d"
    have "set ?topo \<subseteq> task_ids d"
      using topological_order_spec(3) [OF assms(1,2)] closed_dag_nodes [OF assms(3,2)] by auto
    moreover have "card (set ?topo) = card (task_ids d)"
      using len dist card distinct_card by fastforce
    ultimately have "set ?topo = task_ids d" by (intro card_subset_eq) auto
    then show "acyclic (edges d)"
      using topo_sorted_acyclic [OF topological_order_spec(2) [OF assms(1,2)] dist] assms(3)
      by (simp add: closed_dag_def)
  }
qed

section \<open>Properties of the order\<close>

lemma acyclic_if_complete:
  "order_ok ord \<Longrightarrow> dag_inv d \<Longrightarrow> closed_dag d \<Longrightarrow>
   length (topological_order ord d) = task_count d \<Longrightarrow> acyclic (edges d)"
  by (simp add: length_topo_eq_count_iff)

lemma sample_dag_order:
  "topological_order (\<lambda>ks. ks) sample_dag = [''a'', ''b'', ''c'', ''e'']" "task_count sample_dag = 4"
  by code_simp+

lemma sample_dag_acyclic: "acyclic (edges sample_dag)"
  by (rule acyclic_if_complete [OF order_ok_id sample_dag_ok]) (simp add: sample_dag_order)

text \<open>
  C6. Kahn's order lists no task twice, and puts every task after all the tasks it depends on,
  whatever order the hash maps are traversed in; on a cyclic graph this holds of the part listed.
\<close>

theorem topological_order_sorted:
  assumes "order_ok ord" "dag_inv d"
  shows "distinct (topological_order ord d) \<and>
    (\<forall>i < length (topological_order ord d).
       set (dependencies d (topological_order ord d ! i)) \<subseteq> set (take i (topological_order ord d)))"
  using topological_order_spec(1,2) [OF assms]
  by (auto simp: topo_sorted_def simp flip: dependents_get dependents_iff_dependencies [OF assms(2)])

theorem topological_order_sorted_witness:
  "distinct (topological_order rev sample_dag) \<and>
   set (dependencies sample_dag (topological_order rev sample_dag ! 3))
     \<subseteq> set (take 3 (topological_order rev sample_dag))"
proof -
  have "length (topological_order rev sample_dag) = 4" by code_simp
  then show ?thesis using topological_order_sorted [OF order_ok_rev sample_dag_ok(1)] by simp
qed

text \<open>
  C7. On a graph whose edges join tasks, the order has as many entries as there are tasks exactly
  when the graph is acyclic, and then it lists every task. This is the test with which
  \<^verbatim>\<open>critical_path_cost\<close> and \<^verbatim>\<open>peak_memory_estimate\<close> recognise a cyclic graph.
\<close>

theorem topological_order_complete:
  assumes "order_ok ord" "dag_inv d" "closed_dag d"
  shows "(length (topological_order ord d) = task_count d) = acyclic (edges d) \<and>
    (acyclic (edges d) \<longrightarrow> set (topological_order ord d) = task_ids d)"
  using assms by (simp_all add: length_topo_eq_count_iff topological_order_complete_set)

theorem topological_order_complete_witness:
  "(length (topological_order rev sample_dag) = task_count sample_dag) = acyclic (edges sample_dag)
   \<and> set (topological_order rev sample_dag) = task_ids sample_dag"
  using topological_order_complete [OF order_ok_rev sample_dag_ok] sample_dag_acyclic by simp

text \<open>
  A dependency on an id that is no task and that nothing points to is never resolved: the order
  leaves out the dependent task and everything that depends on it.
\<close>

theorem dangling_dependency_dropped:
  assumes "order_ok ord" "dag_inv d" "u \<notin> task_ids d" "dependencies d u = []"
    and "(u, v) \<in> edges d" "(v, w) \<in> (edges d)\<^sup>*"
  shows "w \<notin> set (topological_order ord d)"
proof -
  have "u \<notin> kahn_nodes d"
  proof
    assume "u \<in> kahn_nodes d"
    with assms(3) obtain x where "u \<in> set (dependents d x)"
      using dag_invD(2) [OF assms(2)] by (force simp: kahn_nodes_def targets_def dependents_def)
    then show False using assms(2,4) by (simp add: dependents_iff_dependencies)
  qed
  then have "v \<notin> set (topological_order ord d)"
    using topological_order_spec(3) [OF assms(1,2)] assms(5) by blast
  with assms(6) show ?thesis
    by (induction rule: rtrancl_induct) (use topological_order_spec(3) [OF assms(1,2)] in blast)+
qed

theorem dangling_dependency_dropped_witness:
  "''e'' \<notin> set (topological_order (\<lambda>ks. ks) (build_dag [sample_task ''b'' 1 1, sample_task ''e'' 1 1]
     [(''x'', ''b''), (''b'', ''e'')])) \<and>
   is_valid (\<lambda>ks. ks) (build_dag [sample_task ''b'' 1 1, sample_task ''e'' 1 1]
     [(''x'', ''b''), (''b'', ''e'')])"
proof
  let ?d = "build_dag [sample_task ''b'' 1 1, sample_task ''e'' 1 1] [(''x'', ''b''), (''b'', ''e'')]"
  have "dependencies ?d ''x'' = []" by code_simp
  moreover have "(''x'', ''b'') \<in> edges ?d" "(''b'', ''e'') \<in> (edges ?d)\<^sup>*"
    "''x'' \<notin> task_ids ?d"
    by (auto simp: build_dag_edges build_dag_task_ids sample_task_def)
  ultimately show "''e'' \<notin> set (topological_order (\<lambda>ks. ks) ?d)"
    using dangling_dependency_dropped [OF order_ok_id build_dag_inv] by blast
  show "is_valid (\<lambda>ks. ks) ?d" by code_simp
qed

end
