(* ===== verification/Dag_Cycle.thy ===== *)
theory Dag_Cycle
  imports Dag_Order
begin

text \<open>
  Three-colour depth-first search (\<^verbatim>\<open>WorkloadDAG::has_cycle\<close>): it answers true exactly when a cycle
  is reachable from a task, so on a closed graph it decides acyclicity, and it agrees with the
  length test on Kahn's order.
\<close>

section \<open>The search invariant\<close>

definition adj_rel :: "(TaskId, TaskId list) umap \<Rightarrow> (TaskId \<times> TaskId) set" where
  "adj_rel adj = {(u, v). v \<in> set (um_get [] adj u)}"

text \<open>
  \<open>frames_ok adj color child stack\<close>: in every frame the neighbours before the index are finished,
  except that the last one read is the node of the frame above (\<open>child\<close>).
\<close>

fun frames_ok ::
  "(TaskId, TaskId list) umap \<Rightarrow> colors \<Rightarrow> TaskId option \<Rightarrow> (TaskId \<times> nat) list \<Rightarrow> bool" where
  "frames_ok adj color child [] = True"
| "frames_ok adj color child ((n, i) # st) =
     (let ns = um_get [] adj n
      in i \<le> length ns \<and>
         (case child of
            None \<Rightarrow> (\<forall>j < i. color_of color (ns ! j) = Black)
          | Some c \<Rightarrow> 0 < i \<and> ns ! (i - 1) = c \<and> (\<forall>j < i - 1. color_of color (ns ! j) = Black)) \<and>
         frames_ok adj color (Some n) st)"

definition black_rel :: "(TaskId, TaskId list) umap \<Rightarrow> colors \<Rightarrow> (TaskId \<times> TaskId) set" where
  "black_rel adj color = {(u, v). color_of color u = Black \<and> (u, v) \<in> adj_rel adj}"

definition dfs_inv ::
  "TaskId set \<Rightarrow> (TaskId, TaskId list) umap \<Rightarrow> colors \<Rightarrow> (TaskId \<times> nat) list \<Rightarrow> bool" where
  "dfs_inv S adj color st \<longleftrightarrow>
     distinct (map fst st) \<and> (\<forall>n. color_of color n = Gray \<longleftrightarrow> n \<in> um_keys st) \<and>
     frames_ok adj color None st \<and>
     (\<forall>(u, v) \<in> black_rel adj color. color_of color v = Black) \<and>
     acyclic (black_rel adj color) \<and> um_keys st \<subseteq> (adj_rel adj)\<^sup>* `` S"

lemma frames_ok_mono:
  assumes "\<And>n. color_of color n = Black \<Longrightarrow> color_of color' n = Black"
  shows "frames_ok adj color child st \<Longrightarrow> frames_ok adj color' child st"
  by (induction st arbitrary: child) (auto simp: Let_def assms split: option.splits)

lemma frames_ok_child_finished:
  assumes "frames_ok adj color (Some c) st" "color_of color c = Black"
  shows "frames_ok adj color None st"
proof (cases st)
  case (Cons f st')
  obtain n i where f: "f = (n, i)" by force
  let ?ns = "um_get [] adj n"
  have "color_of color (?ns ! j) = Black" if "j < i" for j
  proof (cases "j = i - 1")
    case True
    with assms Cons f show ?thesis by (simp add: Let_def)
  next
    case False
    with that have "j < i - 1" by simp
    with assms(1) Cons f show ?thesis by (simp add: Let_def)
  qed
  with assms(1) Cons f show ?thesis by (simp add: Let_def)
qed simp

lemma frames_ok_path:
  "frames_ok adj color (Some c) st \<Longrightarrow> n \<in> um_keys st \<Longrightarrow> (n, c) \<in> (adj_rel adj)\<^sup>+"
proof (induction st arbitrary: c)
  case (Cons f st)
  obtain m i where f: "f = (m, i)" by force
  let ?ns = "um_get [] adj m"
  from Cons.prems(1) f have i: "0 < i" "i \<le> length ?ns" "?ns ! (i - 1) = c"
    and rest: "frames_ok adj color (Some m) st" by (auto simp: Let_def)
  then have "c \<in> set ?ns" by (metis Suc_pred' Suc_le_lessD nth_mem)
  then have edge: "(m, c) \<in> adj_rel adj" by (simp add: adj_rel_def)
  show ?case
  proof (cases "n = m")
    case True
    with edge show ?thesis by auto
  next
    case False
    with Cons.prems(2) f have "n \<in> um_keys st" by simp
    with rest have "(n, m) \<in> (adj_rel adj)\<^sup>+" by (rule Cons.IH)
    with edge show ?thesis by (rule trancl_into_trancl [rotated])
  qed
qed simp

text \<open>Finishing a node whose successors are all finished keeps the finished part acyclic.\<close>

lemma acyclic_finish:
  assumes "acyclic A" "\<And>u v. (u, v) \<in> A \<Longrightarrow> u \<in> B \<and> v \<in> B" "n \<notin> B" "vs \<subseteq> B"
  shows "acyclic (A \<union> {n} \<times> vs)"
proof (rule acyclicI, safe)
  fix x
  let ?R = "A \<union> {n} \<times> vs"
  assume x: "(x, x) \<in> ?R\<^sup>+"
  have inB: "z \<in> B \<and> (y, z) \<in> A\<^sup>+" if "(y, z) \<in> ?R\<^sup>+" "y \<in> B" for y z
    using that
  proof (induction rule: trancl_induct)
    case (base z)
    with assms(2,3) show ?case by auto
  next
    case (step z w)
    with assms(2,3) show ?case by (auto intro: trancl_into_trancl)
  qed
  show False
  proof (cases "x \<in> B")
    case True
    with inB [OF x] assms(1) show ?thesis by (simp add: acyclic_def)
  next
    case False
    from x obtain y where y: "(x, y) \<in> ?R" "(y, x) \<in> ?R\<^sup>*" by (meson tranclD)
    from y(1) False assms(2,4) have "y \<in> B" by auto
    with y(2) inB [of y x] False show ?thesis by (metis rtranclD)
  qed
qed

lemma dfs_inv_finish:
  assumes inv: "dfs_inv S adj color ((node, idx) # st)" and idx: "length (um_get [] adj node) \<le> idx"
  shows "dfs_inv S adj (AList.update node Black color) st"
proof -
  let ?ns = "um_get [] adj node" and ?color = "AList.update node Black color"
  note i = inv [unfolded dfs_inv_def]
  have gray: "color_of color node = Gray" using i by simp
  have fin: "set ?ns \<subseteq> {v. color_of color v = Black}"
    using i idx by (auto simp: Let_def in_set_conv_nth)
  have rel: "black_rel adj ?color = black_rel adj color \<union> {node} \<times> set ?ns"
    using gray by (auto simp: black_rel_def adj_rel_def umap_simps split: if_splits)
  have closed: "\<forall>(u, v) \<in> black_rel adj ?color. color_of ?color v = Black"
    using i fin rel by (auto simp: umap_simps)
  have acyc: "acyclic (black_rel adj ?color)"
    unfolding rel
  proof (rule acyclic_finish [where B = "{v. color_of color v = Black}"])
    show "acyclic (black_rel adj color)" using i by blast
    show "node \<notin> {v. color_of color v = Black}" using gray by simp
    show "set ?ns \<subseteq> {v. color_of color v = Black}" by (rule fin)
    show "u \<in> {v. color_of color v = Black} \<and> v \<in> {v. color_of color v = Black}"
      if "(u, v) \<in> black_rel adj color" for u v
      using that i by (auto simp: black_rel_def)
  qed
  have "frames_ok adj ?color (Some node) st"
    using i by (auto simp: Let_def umap_simps intro: frames_ok_mono [rotated])
  then have "frames_ok adj ?color None st"
    by (rule frames_ok_child_finished) (simp add: umap_simps)
  moreover have "\<forall>n. color_of ?color n = Gray \<longleftrightarrow> n \<in> um_keys st"
    using i by (auto simp: umap_simps)
  ultimately show ?thesis
    using i closed acyc by (simp add: dfs_inv_def)
qed

lemma dfs_inv_push:
  assumes inv: "dfs_inv S adj color ((node, idx) # st)"
    and idx: "idx < length (um_get [] adj node)"
    and white: "color_of color (um_get [] adj node ! idx) = White"
  shows "dfs_inv S adj (AList.update (um_get [] adj node ! idx) Gray color)
    ((um_get [] adj node ! idx, 0) # (node, Suc idx) # st)"
proof -
  let ?nb = "um_get [] adj node ! idx"
  let ?color = "AList.update ?nb Gray color"
  note i = inv [unfolded dfs_inv_def]
  have black: "color_of ?color n = Black \<longleftrightarrow> color_of color n = Black" for n
    using white by (simp add: umap_simps)
  have rel: "black_rel adj ?color = black_rel adj color"
    by (simp add: black_rel_def black)
  have gray_iff: "color_of color n = Gray \<longleftrightarrow> n = node \<or> n \<in> um_keys st" for n
    using i by simp
  have fresh: "?nb \<notin> insert node (um_keys st)"
    using gray_iff [of ?nb] white by simp
  have edge: "(node, ?nb) \<in> adj_rel adj" using idx by (simp add: adj_rel_def)
  have "frames_ok adj ?color (Some node) st"
    using i black by (auto simp: Let_def intro: frames_ok_mono [rotated])
  then have "frames_ok adj ?color None ((?nb, 0) # (node, Suc idx) # st)"
    using i idx black by (simp add: Let_def)
  moreover have "\<forall>n. color_of ?color n = Gray \<longleftrightarrow> n \<in> um_keys ((?nb, 0) # (node, Suc idx) # st)"
    using gray_iff by (simp add: umap_simps)
  moreover have "node \<in> (adj_rel adj)\<^sup>* `` S" using i by simp
  then have "?nb \<in> (adj_rel adj)\<^sup>* `` S" using edge by (auto intro: rtrancl_into_rtrancl)
  ultimately show ?thesis
    using i fresh by (simp add: dfs_inv_def rel black)
qed

lemma dfs_inv_skip:
  assumes inv: "dfs_inv S adj color ((node, idx) # st)"
    and idx: "idx < length (um_get [] adj node)"
    and black: "color_of color (um_get [] adj node ! idx) = Black"
  shows "dfs_inv S adj color ((node, Suc idx) # st)"
  using assms by (auto simp: dfs_inv_def Let_def less_Suc_eq)

lemma dfs_inv_gray_cycle:
  assumes inv: "dfs_inv S adj color ((node, idx) # st)"
    and idx: "idx < length (um_get [] adj node)"
    and gray: "color_of color (um_get [] adj node ! idx) = Gray"
  shows "\<exists>n \<in> (adj_rel adj)\<^sup>* `` S. (n, n) \<in> (adj_rel adj)\<^sup>+"
proof -
  let ?nb = "um_get [] adj node ! idx"
  note i = inv [unfolded dfs_inv_def]
  have edge: "(node, ?nb) \<in> adj_rel adj" using idx by (simp add: adj_rel_def)
  have mem: "?nb = node \<or> ?nb \<in> um_keys st" using i gray by auto
  have "frames_ok adj color (Some node) st" using i by (simp add: Let_def)
  with mem have "?nb = node \<or> (?nb, node) \<in> (adj_rel adj)\<^sup>+" using frames_ok_path by blast
  then have "(?nb, ?nb) \<in> (adj_rel adj)\<^sup>+" using edge by (auto intro: trancl_into_trancl)
  moreover have "?nb \<in> (adj_rel adj)\<^sup>* `` S" using i mem by auto
  ultimately show ?thesis by blast
qed

section \<open>The search\<close>

declare dfs_loop.simps(2) [simp del]

lemma dfs_loop_Cons:
  fixes adj node
  defines "ns \<equiv> um_get [] adj node"
  shows "dfs_loop adj color ((node, idx) # st) =
      (if length ns \<le> idx then dfs_loop adj (AList.update node Black color) st
       else if color_of color (ns ! idx) = Gray then (True, color)
       else if color_of color (ns ! idx) = White
       then dfs_loop adj (AList.update (ns ! idx) Gray color) ((ns ! idx, 0) # (node, Suc idx) # st)
       else dfs_loop adj color ((node, Suc idx) # st))"
  by (cases "map_of adj node") (simp_all add: ns_def dfs_loop.simps(2) um_get_def Let_def)

text \<open>What a run from an invariant state answers.\<close>

definition dfs_post ::
  "TaskId set \<Rightarrow> (TaskId, TaskId list) umap \<Rightarrow> colors \<Rightarrow> bool \<times> colors \<Rightarrow> bool" where
  "dfs_post S adj color r \<longleftrightarrow>
     (if fst r then \<exists>n \<in> (adj_rel adj)\<^sup>* `` S. (n, n) \<in> (adj_rel adj)\<^sup>+
      else dfs_inv S adj (snd r) [] \<and>
        (\<forall>n. color_of color n \<noteq> White \<longrightarrow> color_of (snd r) n \<noteq> White))"

lemma dfs_post_weaken:
  assumes "dfs_post S adj (AList.update k c color) r" "c \<noteq> White"
  shows "dfs_post S adj color r"
  using assms by (auto simp: dfs_post_def umap_simps split: if_splits)

lemma dfs_loop_spec: "dfs_inv S adj color st \<Longrightarrow> dfs_post S adj color (dfs_loop adj color st)"
proof (induction adj color st rule: dfs_loop.induct)
  case (1 adj color)
  then show ?case by (simp add: dfs_post_def)
next
  case (2 adj color node idx st)
  let ?ns = "um_get [] adj node"
  consider (fin) "length ?ns \<le> idx"
    | (gray) "idx < length ?ns" "color_of color (?ns ! idx) = Gray"
    | (white) "idx < length ?ns" "color_of color (?ns ! idx) = White"
    | (black) "idx < length ?ns" "color_of color (?ns ! idx) = Black"
    by (metis Color.exhaust not_le)
  then show ?case
  proof cases
    case fin
    note inv = dfs_inv_finish [OF "2.prems" fin]
    have "dfs_post S adj (AList.update node Black color) (dfs_loop adj (AList.update node Black color) st)"
    proof (cases "map_of adj node")
      case None
      then show ?thesis using inv by (rule "2.IH"(1))
    next
      case (Some ns)
      with fin have "idx \<ge> length ns" by simp
      with Some show ?thesis using inv by (rule "2.IH"(2))
    qed
    then show ?thesis using fin by (subst dfs_loop_Cons) (simp add: dfs_post_weaken)
  next
    case gray
    with dfs_inv_gray_cycle [OF "2.prems"] show ?thesis by (subst dfs_loop_Cons) (simp add: dfs_post_def)
  next
    case white
    then obtain ns where ns: "map_of adj node = Some ns" by (cases "map_of adj node") auto
    then have "\<not> idx \<ge> length ns" "\<not> color_of color (ns ! idx) = Gray"
      "color_of color (ns ! idx) = White" using white by auto
    then have "dfs_post S adj (AList.update (?ns ! idx) Gray color)
        (dfs_loop adj (AList.update (?ns ! idx) Gray color) ((?ns ! idx, 0) # (node, Suc idx) # st))"
      using "2.IH"(3) [OF ns _ refl] dfs_inv_push [OF "2.prems" white] ns by simp
    then show ?thesis using white by (subst dfs_loop_Cons) (simp add: dfs_post_weaken)
  next
    case black
    then obtain ns where ns: "map_of adj node = Some ns" by (cases "map_of adj node") auto
    then have "\<not> idx \<ge> length ns" "\<not> color_of color (ns ! idx) = Gray"
      "\<not> color_of color (ns ! idx) = White" using black by auto
    then have "dfs_post S adj color (dfs_loop adj color ((node, Suc idx) # st))"
      using "2.IH"(4) [OF ns _ refl] dfs_inv_skip [OF "2.prems" black] by simp
    then show ?thesis using black by (subst dfs_loop_Cons) simp
  qed
qed

lemma dfs_inv_start:
  assumes "dfs_inv S adj color []" "color_of color s = White" "s \<in> S"
  shows "dfs_inv S adj (AList.update s Gray color) [(s, 0)]"
proof -
  have black: "color_of (AList.update s Gray color) n = Black \<longleftrightarrow> color_of color n = Black" for n
    using assms(2) by (simp add: umap_simps)
  then have rel: "black_rel adj (AList.update s Gray color) = black_rel adj color"
    by (simp add: black_rel_def)
  show ?thesis
    using assms unfolding dfs_inv_def rel by (simp add: black) (auto simp: umap_simps)
qed

text \<open>With the stack empty, no cycle is reachable from a finished node.\<close>

lemma finished_no_cycle:
  assumes inv: "dfs_inv S adj color []" and s: "color_of color s = Black" "(s, n) \<in> (adj_rel adj)\<^sup>*"
  shows "(n, n) \<notin> (adj_rel adj)\<^sup>+"
proof
  note i = inv [unfolded dfs_inv_def]
  have edge: "color_of color v = Black \<and> (u, v) \<in> black_rel adj color"
    if "color_of color u = Black" "(u, v) \<in> adj_rel adj" for u v
    using that i by (auto simp: black_rel_def)
  from s(2,1) have n: "color_of color n = Black"
    by (induction rule: rtrancl_induct) (auto dest: edge)
  have "color_of color m = Black \<and> (n, m) \<in> (black_rel adj color)\<^sup>+" if "(n, m) \<in> (adj_rel adj)\<^sup>+" for m
    using that
  proof (induction rule: trancl_induct)
    case (base y)
    with edge [OF n] show ?case by blast
  next
    case (step y z)
    with edge show ?case by (blast intro: trancl_into_trancl)
  qed
  moreover assume "(n, n) \<in> (adj_rel adj)\<^sup>+"
  ultimately show False using i by (auto simp: acyclic_def)
qed

text \<open>The outer loop over the tasks; the colour map is empty of grey nodes between two searches.\<close>

lemma dfs_inv_empty_no_gray: "dfs_inv S adj color [] \<Longrightarrow> color_of color n \<noteq> Gray"
  by (simp add: dfs_inv_def)

lemma has_cycle_starts_sound:
  "dfs_inv S adj color [] \<Longrightarrow> set starts \<subseteq> S \<Longrightarrow> has_cycle_starts adj color starts \<Longrightarrow>
   \<exists>n \<in> (adj_rel adj)\<^sup>* `` S. (n, n) \<in> (adj_rel adj)\<^sup>+"
proof (induction adj color starts rule: has_cycle_starts.induct)
  case (2 adj color s rest)
  show ?case
  proof (cases "color_of color s = White")
    case True
    obtain r c where r: "dfs_loop adj (AList.update s Gray color) [(s, 0)] = (r, c)" by force
    from dfs_loop_spec [OF dfs_inv_start [OF "2.prems"(1) True]] "2.prems"(2)
    have "dfs_post S adj (AList.update s Gray color) (r, c)" by (simp add: r)
    with True r "2.prems" "2.IH"(2) [of r c]
    show ?thesis by (cases r) (simp_all add: dfs_post_def)
  next
    case False
    with 2 show ?thesis by simp
  qed
qed simp

lemma has_cycle_starts_complete:
  "dfs_inv S adj color [] \<Longrightarrow> set starts \<subseteq> S \<Longrightarrow> \<not> has_cycle_starts adj color starts \<Longrightarrow>
   (s \<in> set starts \<or> color_of color s \<noteq> White) \<Longrightarrow> (s, n) \<in> (adj_rel adj)\<^sup>* \<Longrightarrow>
   (n, n) \<notin> (adj_rel adj)\<^sup>+"
proof (induction adj color starts rule: has_cycle_starts.induct)
  case (1 adj color)
  then have "color_of color s = Black"
    using dfs_inv_empty_no_gray [of S adj color s] by (cases "color_of color s") auto
  with 1 show ?case by (blast dest: finished_no_cycle)
next
  case (2 adj color u rest)
  show ?case
  proof (cases "color_of color u = White")
    case True
    obtain r c where r: "dfs_loop adj (AList.update u Gray color) [(u, 0)] = (r, c)" by force
    from dfs_loop_spec [OF dfs_inv_start [OF "2.prems"(1) True]] "2.prems"(2)
    have post: "dfs_post S adj (AList.update u Gray color) (r, c)" by (simp add: r)
    from True r "2.prems"(3) have nr: "\<not> r" "\<not> has_cycle_starts adj c rest" by (cases r; simp)+
    with post have inv: "dfs_inv S adj c []"
      and keep: "\<And>n. color_of (AList.update u Gray color) n \<noteq> White \<Longrightarrow> color_of c n \<noteq> White"
      by (simp_all add: dfs_post_def)
    have "s \<in> set rest \<or> color_of c s \<noteq> White"
      using "2.prems"(4) keep [of s] by (cases "s = u") (auto simp: umap_simps)
    with True nr r inv "2.prems" show ?thesis
      by (intro "2.IH"(2) [of r c]) simp_all
  next
    case False
    have "s \<in> set rest \<or> color_of color s \<noteq> White"
      using "2.prems"(4) False by auto
    with False "2.prems" show ?thesis by (intro "2.IH"(1)) simp_all
  qed
qed

lemma color_of_initial [simp]:
  "color_of (fold (\<lambda>(i, _) color. AList.update i White color) ts c) n =
    (if n \<in> um_keys ts then White else color_of c n)"
  by (induction ts arbitrary: c) (auto simp: umap_simps)

lemma dfs_inv_initial:
  assumes "\<And>n. color_of color n = White"
  shows "dfs_inv S adj color []"
  using assms by (simp add: dfs_inv_def black_rel_def acyclic_def)

section \<open>What \<open>has_cycle\<close> decides\<close>

lemma adj_rel_edges: "adj_rel (adj_list d) = edges d"
  by (simp add: adj_rel_def edges_def dependents_get)

lemma has_cycle_reachable:
  assumes ord: "order_ok ord"
  shows "has_cycle ord d \<longleftrightarrow> (\<exists>t \<in> task_ids d. \<exists>n. (t, n) \<in> (edges d)\<^sup>* \<and> (n, n) \<in> (edges d)\<^sup>+)"
proof -
  let ?c = "fold (\<lambda>(i, _) color. AList.update i White color) (traverse ord (tasks d)) []"
  let ?starts = "map fst (traverse ord (tasks d))"
  have inv: "dfs_inv (task_ids d) (adj_list d) ?c []"
    by (rule dfs_inv_initial) simp
  have starts: "set ?starts = task_ids d"
    using um_keys_traverse [OF ord, of "tasks d"] by (simp add: ord)
  show ?thesis
    unfolding has_cycle_def
    using has_cycle_starts_sound [OF inv, of ?starts]
      has_cycle_starts_complete [OF inv, of ?starts] starts
    unfolding adj_rel_edges by (auto simp del: set_map)
qed

lemma has_cycle_closed_iff:
  assumes "order_ok ord" "closed_dag d"
  shows "has_cycle ord d \<longleftrightarrow> \<not> acyclic (edges d)"
proof -
  have "n \<in> task_ids d" if "(n, n) \<in> (edges d)\<^sup>+" for n
    using that assms(2) unfolding closed_dag_def by (blast dest: tranclD)
  then show ?thesis
    unfolding has_cycle_reachable [OF assms(1)] acyclic_def by blast
qed

text \<open>
  C8. \<^verbatim>\<open>has_cycle\<close> answers true exactly when some task can reach a cycle of dependencies,
  whatever order the tasks are visited in. Edges through ids that are no tasks count.
\<close>

theorem has_cycle_iff:
  assumes "order_ok ord"
  shows "has_cycle ord d \<longleftrightarrow>
    (\<exists>t \<in> task_ids d. \<exists>n. (t, n) \<in> (edges d)\<^sup>* \<and> (n, n) \<in> (edges d)\<^sup>+)"
  using assms by (rule has_cycle_reachable)

theorem has_cycle_iff_witness:
  "\<exists>n. (''a'', n) \<in> {(''a'', ''b''), (''b'', ''c''), (''c'', ''b'')}\<^sup>* \<and>
     (n, n) \<in> {(''a'', ''b''), (''b'', ''c''), (''c'', ''b'')}\<^sup>+"
proof -
  let ?d = "build_dag [sample_task ''a'' 1 1] [(''a'', ''b''), (''b'', ''c''), (''c'', ''b'')]"
  have "has_cycle (\<lambda>ks. ks) ?d" by code_simp
  then show ?thesis
    unfolding has_cycle_iff [OF order_ok_id] build_dag_edges build_dag_task_ids
    by (simp add: sample_task_def)
qed

text \<open>
  On a graph whose edges join tasks, the two cycle tests of the class agree: \<^verbatim>\<open>is_valid\<close>
  accepts a non-empty graph exactly when Kahn's order lists all its tasks.
\<close>

theorem is_valid_iff_order_complete:
  assumes "order_ok ord" "dag_inv d" "closed_dag d"
  shows "is_valid ord d \<longleftrightarrow> 0 < task_count d \<and> length (topological_order ord d) = task_count d"
  using has_cycle_closed_iff [OF assms(1,3)] length_topo_eq_count_iff [OF assms]
  by (simp add: is_valid_def task_count_def)

theorem is_valid_iff_order_complete_witness:
  "is_valid rev sample_dag \<longleftrightarrow>
     0 < task_count sample_dag \<and> length (topological_order rev sample_dag) = task_count sample_dag"
  by (rule is_valid_iff_order_complete [OF order_ok_rev sample_dag_ok])

end
