(* ===== verification/Dag_Metrics.thy ===== *)
theory Dag_Metrics
  imports Dag_Cycle
begin

text \<open>
  The metrics of a workload graph (\<^verbatim>\<open>critical_path_cost\<close>, \<^verbatim>\<open>peak_memory_estimate\<close>,
  \<^verbatim>\<open>total_compute_cost\<close> of \<^verbatim>\<open>src/workload/dag.cpp\<close>): the critical path is the dearest chain of
  dependencies, the memory estimate is the largest sum over one level.
\<close>

section \<open>Operations\<close>

definition cost_of :: "Task \<Rightarrow> int" where
  "cost_of t = compute_cost (t_profile t)"

definition mem_of :: "Task \<Rightarrow> u64" where
  "mem_of t = memory_bytes (t_profile t)"

type_synonym distances = "(TaskId, int) umap"

definition relax_edge :: "WorkloadDAG \<Rightarrow> TaskId \<Rightarrow> TaskId \<Rightarrow> distances \<Rightarrow> distances" where
  "relax_edge d u v dst = (case map_of (tasks d) v of
       None \<Rightarrow> dst
     | Some vt \<Rightarrow>
         let candidate = um_get 0 dst u + cost_of vt
         in if candidate > um_get 0 dst v then AList.update v candidate dst else dst)"

definition source_dist :: "WorkloadDAG \<Rightarrow> TaskId \<Rightarrow> int \<Rightarrow> distances \<Rightarrow> distances" where
  "source_dist d u u_cost dst =
     (if (case map_of (reverse_adj d) u of None \<Rightarrow> True | Some preds \<Rightarrow> preds = [])
      then AList.update u (max (um_get 0 dst u) u_cost) dst else dst)"

definition critical_step :: "WorkloadDAG \<Rightarrow> TaskId \<Rightarrow> distances \<Rightarrow> distances" where
  "critical_step d u dst = (case map_of (tasks d) u of
       None \<Rightarrow> dst
     | Some t \<Rightarrow>
         let dst' = source_dist d u (cost_of t) dst
         in case map_of (adj_list d) u of
              None \<Rightarrow> dst'
            | Some vs \<Rightarrow> fold (relax_edge d u) vs dst')"

definition critical_path_cost :: "order \<Rightarrow> WorkloadDAG \<Rightarrow> Duration" where
  "critical_path_cost ord d =
     (if tasks d = [] then 0
      else let topo = topological_order ord d
       in if length topo \<noteq> length (tasks d) then 0
          else let dst0 = fold (\<lambda>(i, _) dst. AList.update i 0 dst) (traverse ord (tasks d)) [];
                   dst = fold (critical_step d) topo dst0
            in fold (\<lambda>(_, x) m. max m x) (traverse ord dst) 0)"

type_synonym levels = "(TaskId, nat) umap"

definition parent_level :: "levels \<Rightarrow> TaskId list \<Rightarrow> nat" where
  "parent_level level parents =
     fold (\<lambda>p m. case map_of level p of None \<Rightarrow> m | Some l \<Rightarrow> max m (l + 1)) parents 0"

definition level_step :: "WorkloadDAG \<Rightarrow> TaskId \<Rightarrow> levels \<Rightarrow> levels" where
  "level_step d i level =
     AList.update i (case map_of (reverse_adj d) i of
         None \<Rightarrow> 0 | Some parents \<Rightarrow> parent_level level parents) level"

definition task_levels :: "WorkloadDAG \<Rightarrow> TaskId list \<Rightarrow> levels" where
  "task_levels d topo = fold (level_step d) topo []"

definition add_level_memory :: "WorkloadDAG \<Rightarrow> TaskId \<times> nat \<Rightarrow> (nat, u64) umap \<Rightarrow> (nat, u64) umap" where
  "add_level_memory d = (\<lambda>(i, lvl) lm. case map_of (tasks d) i of
       None \<Rightarrow> lm | Some t \<Rightarrow> AList.update lvl (um_get 0 lm lvl + mem_of t) lm)"

text \<open>The second order is the one in which the map from levels to sums is traversed.\<close>

definition peak_memory_estimate :: "order \<Rightarrow> (nat list \<Rightarrow> nat list) \<Rightarrow> WorkloadDAG \<Rightarrow> u64" where
  "peak_memory_estimate ord lord d =
     (if tasks d = [] then 0
      else let topo = topological_order ord d
       in if length topo \<noteq> length (tasks d) then 0
          else let level = task_levels d topo;
                   level_memory = fold (add_level_memory d) (traverse ord level) []
            in fold (\<lambda>(_, mem) peak. max peak mem) (traverse lord level_memory) 0)"

definition total_compute_cost :: "order \<Rightarrow> WorkloadDAG \<Rightarrow> Duration" where
  "total_compute_cost ord d = fold (\<lambda>(_, t) total. total + cost_of t) (traverse ord (tasks d)) 0"

section \<open>The critical path\<close>

text \<open>
  \<open>chain d v c\<close>: some chain of dependent tasks that ends in \<open>v\<close> costs \<open>c\<close> in all.
\<close>

definition task_cost :: "WorkloadDAG \<Rightarrow> TaskId \<Rightarrow> int" where
  "task_cost d v = (case get_task d v of None \<Rightarrow> 0 | Some t \<Rightarrow> cost_of t)"

inductive chain :: "WorkloadDAG \<Rightarrow> TaskId \<Rightarrow> int \<Rightarrow> bool" for d where
  single: "v \<in> task_ids d \<Longrightarrow> chain d v (task_cost d v)"
| extend: "chain d u c \<Longrightarrow> (u, v) \<in> edges d \<Longrightarrow> v \<in> task_ids d \<Longrightarrow> chain d v (c + task_cost d v)"

inductive_cases chainE: "chain d v c"

definition costs_nonneg :: "WorkloadDAG \<Rightarrow> bool" where
  "costs_nonneg d = list_all (\<lambda>(_, t). 0 \<le> cost_of t) (tasks d)"

text \<open>What holds of the distances after the tasks in \<open>xs\<close> have been processed.\<close>

definition dist_inv :: "WorkloadDAG \<Rightarrow> TaskId list \<Rightarrow> distances \<Rightarrow> bool" where
  "dist_inv d xs dst \<longleftrightarrow>
     um_ok dst \<and> um_keys dst = task_ids d \<and>
     (\<forall>v \<in> task_ids d. um_get 0 dst v = 0 \<or> chain d v (um_get 0 dst v)) \<and>
     (\<forall>u \<in> set xs. dependencies d u = [] \<longrightarrow> task_cost d u \<le> um_get 0 dst u) \<and>
     (\<forall>u \<in> set xs. \<forall>v. (u, v) \<in> edges d \<longrightarrow> um_get 0 dst u + task_cost d v \<le> um_get 0 dst v) \<and>
     (\<forall>v \<in> task_ids d. 0 \<le> um_get 0 dst v)"

lemma task_cost_Some: "map_of (tasks d) v = Some t \<Longrightarrow> task_cost d v = cost_of t"
  by (simp add: task_cost_def get_task_def)

lemma task_cost_nonneg: "costs_nonneg d \<Longrightarrow> 0 \<le> task_cost d v"
  by (auto simp: task_cost_def get_task_def costs_nonneg_def list_all_iff split: option.splits
      dest!: map_of_SomeD)

lemma relax_edge_get:
  assumes "v \<in> task_ids d"
  shows "um_get 0 (relax_edge d u v dst) w =
    (if w = v then max (um_get 0 dst v) (um_get 0 dst u + task_cost d v) else um_get 0 dst w)"
  using assms by (auto simp: relax_edge_def Let_def umap_simps task_cost_Some in_um_keys_iff)

lemma relax_edge_keys:
  assumes "v \<in> task_ids d" "um_ok dst" "um_keys dst = task_ids d"
  shows "um_ok (relax_edge d u v dst)" "um_keys (relax_edge d u v dst) = task_ids d"
  using assms by (auto simp: relax_edge_def Let_def umap_simps split: option.splits)

lemma relax_edges_get:
  assumes "set vs \<subseteq> task_ids d" "u \<notin> set vs"
  shows "um_get 0 (fold (relax_edge d u) vs dst) w =
    (if w \<in> set vs then max (um_get 0 dst w) (um_get 0 dst u + task_cost d w) else um_get 0 dst w)"
  using assms
  by (induction vs arbitrary: dst) (auto simp: relax_edge_get)

lemma relax_edges_keys:
  assumes "set vs \<subseteq> task_ids d" "um_ok dst" "um_keys dst = task_ids d"
  shows "um_ok (fold (relax_edge d u) vs dst) \<and> um_keys (fold (relax_edge d u) vs dst) = task_ids d"
  using assms by (induction vs arbitrary: dst) (auto simp: relax_edge_keys)

lemma source_dist_get:
  "um_get 0 (source_dist d u c dst) w =
    (if w = u \<and> dependencies d u = [] then max (um_get 0 dst u) c else um_get 0 dst w)"
  by (auto simp: source_dist_def umap_simps dependencies_def split: option.splits)

lemma source_dist_keys:
  assumes "u \<in> task_ids d" "um_ok dst" "um_keys dst = task_ids d"
  shows "um_ok (source_dist d u c dst) \<and> um_keys (source_dist d u c dst) = task_ids d"
  using assms by (auto simp: source_dist_def umap_simps)

lemma critical_step_eq:
  assumes "u \<in> task_ids d"
  shows "critical_step d u dst = fold (relax_edge d u) (dependents d u) (source_dist d u (task_cost d u) dst)"
  using assms
  by (auto simp: critical_step_def in_um_keys_iff task_cost_Some dependents_def split: option.splits)

lemma critical_step_get:
  assumes "closed_dag d" "u \<in> task_ids d" "(u, u) \<notin> edges d"
  shows "um_get 0 (critical_step d u dst) w =
    (if (u, w) \<in> edges d
     then max (um_get 0 dst w) (um_get 0 (source_dist d u (task_cost d u) dst) u + task_cost d w)
     else um_get 0 (source_dist d u (task_cost d u) dst) w)"
proof -
  have "set (dependents d u) \<subseteq> task_ids d" "u \<notin> set (dependents d u)"
    using assms by (auto simp: closed_dag_def edges_def)
  then show ?thesis
    unfolding critical_step_eq [OF assms(2)]
    using assms(3) by (simp add: relax_edges_get source_dist_get edges_iff) 
qed

lemma critical_step_inv:
  assumes inv: "dist_inv d xs dst" and closed: "closed_dag d" and nonneg: "costs_nonneg d"
    and u: "u \<in> task_ids d" "u \<notin> set xs" "(u, u) \<notin> edges d"
    and preds: "\<And>x v. (x, v) \<in> edges d \<Longrightarrow> v \<in> set xs \<Longrightarrow> x \<in> set xs"
  shows "dist_inv d (xs @ [u]) (critical_step d u dst)"
proof -
  note i = inv [unfolded dist_inv_def]
  let ?s = "source_dist d u (task_cost d u) dst"
  let ?d = "critical_step d u dst"
  note get = critical_step_get [OF closed u(1,3), of dst]
  have tasks: "w \<in> task_ids d" if "(x, w) \<in> edges d" for x w
    using that closed by (auto simp: closed_dag_def)
  have mono: "um_get 0 dst w \<le> um_get 0 ?d w" for w
    by (simp add: get source_dist_get)
  have srcs: "um_get 0 ?s w = 0 \<or> chain d w (um_get 0 ?s w)" if "w \<in> task_ids d" for w
    using that i chain.single [OF u(1)] by (auto simp: source_dist_get max_def)
  have "um_get 0 ?d w = 0 \<or> chain d w (um_get 0 ?d w)" if w: "w \<in> task_ids d" for w
  proof (cases "(u, w) \<in> edges d")
    case True
    have "chain d w (um_get 0 ?s u + task_cost d w)"
      using srcs [OF u(1)] chain.single [OF w] chain.extend [OF _ True w] by auto
    with True w i show ?thesis by (auto simp: get max_def)
  next
    case False
    with srcs [OF w] show ?thesis by (simp add: get)
  qed
  moreover have "task_cost d x \<le> um_get 0 ?d x"
    if "x \<in> set (xs @ [u])" "dependencies d x = []" for x
  proof (cases "x = u")
    case True
    with that(2) u(3) show ?thesis by (simp add: get source_dist_get)
  next
    case False
    with that i have "task_cost d x \<le> um_get 0 dst x" by auto
    with mono [of x] show ?thesis by linarith
  qed
  moreover have "um_get 0 ?d x + task_cost d v \<le> um_get 0 ?d v"
    if "x \<in> set (xs @ [u])" "(x, v) \<in> edges d" for x v
  proof (cases "x = u")
    case True
    with that(2) u(3) show ?thesis by (simp add: get)
  next
    case False
    with that(1) have x: "x \<in> set xs" by simp
    with preds u(2) have "(u, x) \<notin> edges d" by blast
    with False have "um_get 0 ?d x = um_get 0 dst x" by (simp add: get source_dist_get)
    moreover have "um_get 0 dst x + task_cost d v \<le> um_get 0 dst v" using i x that(2) by blast
    ultimately show ?thesis using mono [of v] by linarith
  qed
  moreover have "0 \<le> um_get 0 ?d v" if "v \<in> task_ids d" for v
    using i that mono [of v] by (meson order_trans)
  moreover have "um_ok ?d \<and> um_keys ?d = task_ids d"
    unfolding critical_step_eq [OF u(1)]
    using i tasks source_dist_keys [OF u(1)]
    by (intro relax_edges_keys) (auto simp: edges_iff)
  ultimately show ?thesis unfolding dist_inv_def by blast
qed

lemma critical_fold_inv:
  assumes "closed_dag d" "costs_nonneg d" "dist_inv d [] dst"
    and "set xs \<subseteq> task_ids d" "distinct xs" "topo_sorted (adj_list d) xs"
  shows "dist_inv d xs (fold (critical_step d) xs dst)"
  using assms(4-6)
proof (induction xs rule: rev_induct)
  case Nil
  with assms(3) show ?case by simp
next
  case (snoc u xs)
  then have inv: "dist_inv d xs (fold (critical_step d) xs dst)"
    by (simp add: topo_sorted_snoc)
  have "(u, u) \<notin> edges d" using snoc.prems by (auto simp: topo_sorted_snoc edges_iff dependents_get)
  moreover have "x \<in> set xs" if "(x, v) \<in> edges d" "v \<in> set xs" for x v
  proof -
    obtain i where "i < length xs" "xs ! i = v" using \<open>v \<in> set xs\<close> by (auto simp: in_set_conv_nth)
    with snoc.prems(3) [unfolded topo_sorted_snoc, THEN conjunct1] that(1)
    have "x \<in> set (take i xs)" by (auto simp: topo_sorted_def edges_iff dependents_get)
    then show ?thesis by (rule in_set_takeD)
  qed
  ultimately show ?case
    using critical_step_inv [OF inv assms(1,2), of u] snoc.prems by simp
qed

lemma chain_le_dist:
  assumes inv: "dist_inv d xs dst" and all: "set xs = task_ids d" and d: "dag_inv d" "closed_dag d"
  shows "chain d v c \<Longrightarrow> c \<le> um_get 0 dst v"
proof (induction rule: chain.induct)
  case (single v)
  note i = inv [unfolded dist_inv_def]
  show ?case
  proof (cases "dependencies d v")
    case Nil
    with i single all show ?thesis by auto
  next
    case (Cons p ps)
    then have e: "(p, v) \<in> edges d" using edges_iff' [OF d(1)] by simp
    with d(2) have "p \<in> task_ids d" by (auto simp: closed_dag_def)
    with i all e have "0 \<le> um_get 0 dst p" "um_get 0 dst p + task_cost d v \<le> um_get 0 dst v" by auto
    then show ?thesis by linarith
  qed
next
  case (extend u c v)
  from extend(2) d(2) have "u \<in> task_ids d" by (auto simp: closed_dag_def)
  with inv all extend have "um_get 0 dst u + task_cost d v \<le> um_get 0 dst v"
    by (auto simp: dist_inv_def)
  with extend.IH show ?case by linarith
qed

lemma fold_max_values:
  fixes m0 :: "'a :: linorder"
  shows "fold (\<lambda>(_, x) m. max m x) es m0 = Max (insert m0 (snd ` set es))"
proof (induction es arbitrary: m0)
  case (Cons e es)
  obtain k x where e: "e = (k, x)" by force
  have "Max (insert (max m0 x) A) = Max (insert m0 (insert x A))" if "finite A" for A
    using that by (cases "A = {}") (simp_all add: max.assoc)
  then show ?case using Cons by (simp add: e)
qed simp

lemma values_traverse:
  assumes "order_ok ord" "um_ok m"
  shows "snd ` set (traverse ord m) = um_get z m ` um_keys m"
proof -
  have "snd ` set m = um_get z m ` um_keys m"
  proof -
    have "snd e = um_get z m (fst e)" if "e \<in> set m" for e
      using that assms(2) by (simp add: um_get_def map_of_is_SomeI [of m "fst e" "snd e"])
    then have "snd ` set m = (\<lambda>e. um_get z m (fst e)) ` set m" by (rule image_cong [OF refl])
    then show ?thesis by (simp only: um_keys_def image_image)
  qed
  then show ?thesis by (simp add: set_traverse assms)
qed

lemma initial_dist:
  assumes "order_ok ord"
  shows "dist_inv d [] (fold (\<lambda>(i, _) dst. AList.update i 0 dst) (traverse ord (tasks d)) [])"
proof -
  have "um_get 0 (fold (\<lambda>(i, _) dst. AList.update i 0 dst) ts m) v =
      (if v \<in> um_keys ts then 0 else um_get 0 m v) \<and>
    um_keys (fold (\<lambda>(i, _) dst. AList.update i 0 dst) ts m) = um_keys ts \<union> um_keys m \<and>
    (um_ok m \<longrightarrow> um_ok (fold (\<lambda>(i, _) dst. AList.update i 0 dst) ts m))"
    for ts :: "(TaskId, Task) umap" and m :: distances and v
    by (induction ts arbitrary: m) (auto simp: umap_simps split: prod.splits)
  then show ?thesis using assms(1) by (simp add: dist_inv_def)
qed

lemma critical_path_dist:
  assumes ord: "order_ok ord" and d: "dag_inv d" "closed_dag d" "acyclic (edges d)"
    and nonneg: "costs_nonneg d" and nonempty: "0 < task_count d"
  obtains dst where "dist_inv d (topological_order ord d) dst"
    "critical_path_cost ord d = Max (insert 0 (um_get 0 dst ` task_ids d))"
proof -
  let ?topo = "topological_order ord d"
  let ?dst = "fold (critical_step d) ?topo
    (fold (\<lambda>(i, _) dst. AList.update i 0 dst) (traverse ord (tasks d)) [])"
  have inv: "dist_inv d ?topo ?dst"
    using topological_order_spec(1,2) [OF ord d(1)] topological_order_complete_set [OF ord d]
    by (intro critical_fold_inv initial_dist ord d nonneg) auto
  have "critical_path_cost ord d = Max (insert 0 (um_get 0 ?dst ` task_ids d))"
    using nonempty length_topo_eq_count_iff [OF ord d(1,2)] d(3) inv
      values_traverse [OF ord, of ?dst 0]
    by (simp add: critical_path_cost_def task_count_def fold_max_values dist_inv_def)
  with inv that show thesis by blast
qed

lemma longest_chain:
  assumes "order_ok ord" "dag_inv d" "closed_dag d" "acyclic (edges d)" "costs_nonneg d"
    and "0 < task_count d"
  shows "(\<exists>v. chain d v (critical_path_cost ord d)) \<and>
    (\<forall>v c. chain d v c \<longrightarrow> c \<le> critical_path_cost ord d)"
proof -
  obtain dst where inv: "dist_inv d (topological_order ord d) dst"
    and cost: "critical_path_cost ord d = Max (insert 0 (um_get 0 dst ` task_ids d))"
    using assms by (rule critical_path_dist)
  let ?C = "critical_path_cost ord d"
  have all: "set (topological_order ord d) = task_ids d"
    using assms(1-4) by (rule topological_order_complete_set)
  have ub: "c \<le> ?C" if "chain d v c" for v c
  proof -
    from that have "v \<in> task_ids d" by (cases rule: chain.cases) auto
    then have "um_get 0 dst v \<le> ?C" unfolding cost by (intro Max_ge) auto
    with chain_le_dist [OF inv all assms(2,3) that] show ?thesis by linarith
  qed
  from assms(6) have "hd (map fst (tasks d)) \<in> set (map fst (tasks d))"
    by (intro hd_in_set) (simp add: task_count_def)
  then obtain t where t: "t \<in> task_ids d" by auto
  have "?C \<in> insert 0 (um_get 0 dst ` task_ids d)" unfolding cost by (rule Max_in) auto
  then consider "?C = 0" | v where "v \<in> task_ids d" "?C = um_get 0 dst v" "?C \<noteq> 0" by blast
  then have "\<exists>v. chain d v ?C"
  proof cases
    case 1
    with ub [OF chain.single [OF t]] task_cost_nonneg [OF assms(5), of t]
    have "task_cost d t = ?C" by simp
    with chain.single [OF t] show ?thesis by metis
  next
    case 2
    with inv show ?thesis by (metis dist_inv_def)
  qed
  with ub show ?thesis by blast
qed

text \<open>
  C9. On an acyclic graph with non-negative costs \<^verbatim>\<open>critical_path_cost\<close> is the cost of the dearest
  chain of dependent tasks: some chain has that cost and none has more, whatever order the hash
  maps are traversed in.
\<close>

theorem critical_path_cost_longest:
  assumes "order_ok ord" "dag_inv d" "closed_dag d" "acyclic (edges d)" "costs_nonneg d"
    and "0 < task_count d"
  shows "(\<exists>v. chain d v (critical_path_cost ord d)) \<and>
    (\<forall>v c. chain d v c \<longrightarrow> c \<le> critical_path_cost ord d)"
  using assms by (rule longest_chain)

lemma sample_dag_costs: "costs_nonneg sample_dag" "0 < task_count sample_dag"
  by code_simp+

theorem critical_path_cost_longest_witness:
  "(\<exists>v. chain sample_dag v 26) \<and> \<not> chain sample_dag ''e'' 27"
proof -
  have "critical_path_cost rev sample_dag = 26" by code_simp
  with critical_path_cost_longest
    [OF order_ok_rev sample_dag_ok sample_dag_acyclic sample_dag_costs]
  show ?thesis by fastforce
qed

section \<open>The total cost\<close>

lemma total_compute_cost_sum:
  assumes "order_ok ord" "dag_inv d"
  shows "total_compute_cost ord d = (\<Sum>v \<in> task_ids d. task_cost d v)"
proof -
  have ok: "um_ok (tasks d)" using assms(2) by (rule dag_invD)
  have fold: "fold (\<lambda>(_, t) total. total + cost_of t) ts z = z + sum_list (map (\<lambda>(_, t). cost_of t) ts)"
    for ts :: "(TaskId, Task) umap" and z
    by (induction ts arbitrary: z) auto
  have "total_compute_cost ord d = sum_list (map (\<lambda>(_, t). cost_of t) (tasks d))"
    by (simp add: total_compute_cost_def fold sum_list_traverse [OF assms(1) ok])
  also have "map (\<lambda>(_, t). cost_of t) (tasks d) = map (task_cost d) (map fst (tasks d))"
    using ok by (auto simp: task_cost_def get_task_def)
  also have "sum_list \<dots> = (\<Sum>v \<in> task_ids d. task_cost d v)"
    using ok by (simp only: sum_list_distinct_conv_sum_set set_map um_keys_def)
  finally show ?thesis .
qed

lemma chain_le_ancestors:
  assumes "acyclic (edges d)" "closed_dag d" "costs_nonneg d"
  shows "chain d v c \<Longrightarrow> c \<le> (\<Sum>u \<in> {u. (u, v) \<in> (edges d)\<^sup>*} \<inter> task_ids d. task_cost d u)"
proof (induction rule: chain.induct)
  case (single v)
  have "sum (task_cost d) {v} \<le> sum (task_cost d) ({u. (u, v) \<in> (edges d)\<^sup>*} \<inter> task_ids d)"
    using single by (intro sum_mono2) (auto simp: task_cost_nonneg assms)
  then show ?case by simp
next
  case (extend u c v)
  let ?anc = "\<lambda>v. {u. (u, v) \<in> (edges d)\<^sup>*} \<inter> task_ids d"
  have "v \<notin> ?anc u"
  proof
    assume "v \<in> ?anc u"
    with extend(2) have "(v, v) \<in> (edges d)\<^sup>+" by (auto intro: rtrancl_into_trancl1)
    with assms(1) show False by (simp add: acyclic_def)
  qed
  then have "sum (task_cost d) (insert v (?anc u)) = task_cost d v + sum (task_cost d) (?anc u)"
    by (intro sum.insert) auto
  moreover have "sum (task_cost d) (insert v (?anc u)) \<le> sum (task_cost d) (?anc v)"
    using extend by (intro sum_mono2) (auto simp: task_cost_nonneg assms intro: rtrancl_into_rtrancl)
  ultimately show ?case using extend.IH by linarith
qed

lemma critical_le_total:
  assumes "order_ok ord" "dag_inv d" "closed_dag d" "acyclic (edges d)" "costs_nonneg d"
  shows "0 \<le> critical_path_cost ord d \<and> critical_path_cost ord d \<le> total_compute_cost ord d"
proof (cases "task_count d = 0")
  case True
  then show ?thesis
    by (simp add: task_count_def critical_path_cost_def total_compute_cost_sum assms)
next
  case False
  then have "0 < task_count d" by simp
  then obtain dst where inv: "dist_inv d (topological_order ord d) dst"
    and cost: "critical_path_cost ord d = Max (insert 0 (um_get 0 dst ` task_ids d))"
    using critical_path_dist [OF assms] by blast
  have "x \<le> total_compute_cost ord d" if x: "x \<in> insert 0 (um_get 0 dst ` task_ids d)" for x
  proof -
    have zero: "0 \<le> total_compute_cost ord d"
      by (simp add: total_compute_cost_sum assms task_cost_nonneg sum_nonneg)
    from x consider "x = 0" | v where "chain d v x"
      using inv by (auto simp: dist_inv_def)
    then show ?thesis
    proof cases
      case 2
      from chain_le_ancestors [OF assms(4,3,5) this]
      show ?thesis
        unfolding total_compute_cost_sum [OF assms(1,2)]
        by (rule order_trans) (intro sum_mono2, auto simp: task_cost_nonneg assms)
    qed (simp add: zero)
  qed
  then show ?thesis unfolding cost by simp
qed

text \<open>
  The critical path never costs more than all tasks together, so the makespan bound it gives is
  at most the sequential one.
\<close>

theorem critical_path_le_total:
  assumes "order_ok ord" "dag_inv d" "closed_dag d" "acyclic (edges d)" "costs_nonneg d"
  shows "0 \<le> critical_path_cost ord d \<and> critical_path_cost ord d \<le> total_compute_cost ord d"
  using assms by (rule critical_le_total)

theorem critical_path_le_total_witness:
  "0 \<le> critical_path_cost rev sample_dag \<and>
   critical_path_cost rev sample_dag \<le> total_compute_cost rev sample_dag"
  by (rule critical_path_le_total [OF order_ok_rev sample_dag_ok sample_dag_acyclic sample_dag_costs(1)])

section \<open>Levels and the memory estimate\<close>

definition task_mem :: "WorkloadDAG \<Rightarrow> TaskId \<Rightarrow> u64" where
  "task_mem d v = (case get_task d v of None \<Rightarrow> 0 | Some t \<Rightarrow> mem_of t)"

text \<open>
  The level of a task: zero without dependencies, else one more than the highest level among them.
\<close>

definition is_level :: "WorkloadDAG \<Rightarrow> (TaskId \<Rightarrow> nat) \<Rightarrow> bool" where
  "is_level d lv \<longleftrightarrow> (\<forall>v \<in> task_ids d. lv v = Max (insert 0 ((\<lambda>p. Suc (lv p)) ` set (dependencies d v))))"

definition level_sum :: "WorkloadDAG \<Rightarrow> (TaskId \<Rightarrow> nat) \<Rightarrow> nat \<Rightarrow> nat" where
  "level_sum d lv l = (\<Sum>v \<in> {v \<in> task_ids d. lv v = l}. unat (task_mem d v))"

lemma parent_level_Max:
  assumes "set ps \<subseteq> um_keys level"
  shows "parent_level level ps = Max (insert 0 ((\<lambda>p. Suc (um_get 0 level p)) ` set ps))"
proof -
  have "fold (\<lambda>p m. case map_of level p of None \<Rightarrow> m | Some l \<Rightarrow> max m (l + 1)) ps z =
      Max (insert z ((\<lambda>p. Suc (um_get 0 level p)) ` set ps))" for z
    using assms
  proof (induction ps arbitrary: z)
    case (Cons p ps)
    then obtain l where "map_of level p = Some l" by (auto simp: in_um_keys_iff)
    moreover have "Max (insert (max z x) A) = Max (insert z (insert x A))" if "finite A" for A and x :: nat
      using that by (cases "A = {}") (simp_all add: max.assoc)
    ultimately show ?case using Cons by simp
  qed simp
  then show ?thesis by (simp add: parent_level_def)
qed

lemma level_step_eq:
  "level_step d i level = AList.update i (parent_level level (dependencies d i)) level"
  by (simp add: level_step_def dependencies_def parent_level_def split: option.splits)

lemma task_levels_spec:
  assumes d: "dag_inv d" and xs: "distinct xs" "topo_sorted (adj_list d) xs"
  shows "um_ok (task_levels d xs) \<and> um_keys (task_levels d xs) = set xs \<and>
    (\<forall>v \<in> set xs. um_get 0 (task_levels d xs) v =
       Max (insert 0 ((\<lambda>p. Suc (um_get 0 (task_levels d xs) p)) ` set (dependencies d v))))"
  using xs
proof (induction xs rule: rev_induct)
  case Nil
  show ?case by (simp add: task_levels_def)
next
  case (snoc u xs)
  let ?m = "task_levels d xs" and ?m' = "task_levels d (xs @ [u])"
  from snoc have IH: "um_ok ?m" "um_keys ?m = set xs"
    "\<And>v. v \<in> set xs \<Longrightarrow> um_get 0 ?m v = Max (insert 0 ((\<lambda>p. Suc (um_get 0 ?m p)) ` set (dependencies d v)))"
    and sorted: "topo_sorted (adj_list d) xs" "u \<notin> set xs"
    by (auto simp: topo_sorted_snoc)
  have m': "?m' = AList.update u (parent_level ?m (dependencies d u)) ?m"
    by (simp add: task_levels_def level_step_eq)
  have deps_u: "set (dependencies d u) \<subseteq> set xs"
    using snoc.prems(2) by (auto simp: topo_sorted_snoc simp flip: dependents_get
        dependents_iff_dependencies [OF d])
  have deps: "set (dependencies d v) \<subseteq> set xs" if v: "v \<in> set xs" for v
  proof
    fix p
    assume p: "p \<in> set (dependencies d v)"
    obtain i where "i < length xs" "xs ! i = v" using v by (auto simp: in_set_conv_nth)
    with sorted(1) p have "p \<in> set (take i xs)"
      by (auto simp: topo_sorted_def simp flip: dependents_get dependents_iff_dependencies [OF d])
    then show "p \<in> set xs" by (rule in_set_takeD)
  qed
  have same: "(\<lambda>p. Suc (um_get 0 ?m' p)) ` A = (\<lambda>p. Suc (um_get 0 ?m p)) ` A" if "A \<subseteq> set xs" for A
    using that sorted(2) by (intro image_cong) (auto simp: m' umap_simps)
  have "um_get 0 ?m' v = Max (insert 0 ((\<lambda>p. Suc (um_get 0 ?m' p)) ` set (dependencies d v)))"
    if "v \<in> set (xs @ [u])" for v
  proof (cases "v = u")
    case True
    with deps_u IH(2) show ?thesis
      by (simp only: same [OF deps_u]) (simp add: m' umap_simps parent_level_Max)
  next
    case False
    with that have v: "v \<in> set xs" by simp
    with False IH(3) [OF v] show ?thesis
      by (simp only: same [OF deps [OF v]]) (simp add: m' umap_simps)
  qed
  then show ?case using IH(1,2) by (auto simp: m' umap_simps)
qed

lemma closed_dependencies:
  "dag_inv d \<Longrightarrow> closed_dag d \<Longrightarrow> p \<in> set (dependencies d v) \<Longrightarrow> p \<in> task_ids d"
  by (auto simp: closed_dag_def simp flip: edges_iff')

lemma is_level_unique:
  assumes "dag_inv d" "closed_dag d" "acyclic (edges d)" "is_level d lv" "is_level d lv'"
  shows "v \<in> task_ids d \<Longrightarrow> lv v = lv' v"
proof -
  have "wf (edges d)" using finite_edges assms(3) by (rule finite_acyclic_wf)
  then have "v \<in> task_ids d \<longrightarrow> lv v = lv' v"
  proof (induction v)
    case (less v)
    have "(\<lambda>p. Suc (lv p)) ` set (dependencies d v) = (\<lambda>p. Suc (lv' p)) ` set (dependencies d v)"
      using less closed_dependencies [OF assms(1,2)]
      by (intro image_cong) (auto simp: edges_iff' [OF assms(1)])
    then show ?case using assms(4,5) by (auto simp: is_level_def)
  qed
  then show "v \<in> task_ids d \<Longrightarrow> lv v = lv' v" by blast
qed

lemma level_memory_spec:
  assumes "\<forall>(i, l) \<in> set es. i \<in> task_ids d" "um_ok lm"
  defines "lm' \<equiv> fold (add_level_memory d) es lm"
  shows "um_get 0 lm' l = um_get 0 lm l + sum_list (map (\<lambda>(i, k). if k = l then task_mem d i else 0) es)"
    and "um_keys lm' = um_keys lm \<union> snd ` set es" and "um_ok lm'"
proof -
  have "um_get 0 (fold (add_level_memory d) es lm) l =
        um_get 0 lm l + sum_list (map (\<lambda>(i, k). if k = l then task_mem d i else 0) es) \<and>
      um_keys (fold (add_level_memory d) es lm) = um_keys lm \<union> snd ` set es \<and>
      um_ok (fold (add_level_memory d) es lm)"
    using assms(1,2)
  proof (induction es arbitrary: lm)
    case (Cons e es)
    obtain i k where e: "e = (i, k)" by force
    with Cons.prems obtain t where t: "map_of (tasks d) i = Some t" by (auto simp: in_um_keys_iff)
    then have "add_level_memory d e lm = AList.update k (um_get 0 lm k + task_mem d i) lm"
      by (simp add: add_level_memory_def e task_mem_def get_task_def)
    with Cons e show ?case by (simp add: umap_simps)
  qed simp
  then show "um_get 0 lm' l = um_get 0 lm l + sum_list (map (\<lambda>(i, k). if k = l then task_mem d i else 0) es)"
    "um_keys lm' = um_keys lm \<union> snd ` set es" "um_ok lm'" by (simp_all add: lm'_def)
qed

lemma unat_sum_list_word:
  "sum_list (map unat xs) < 2 ^ 64 \<Longrightarrow> unat (sum_list xs :: u64) = sum_list (map unat xs)"
  by (induction xs) (simp_all add: unat_word_ariths)

text \<open>The memory of all tasks together, without wrap-around.\<close>

definition total_memory :: "WorkloadDAG \<Rightarrow> nat" where
  "total_memory d = sum_list (map unat (map (\<lambda>(_, t). mem_of t) (tasks d)))"

lemma total_memory_sum:
  assumes "dag_inv d"
  shows "total_memory d = (\<Sum>v \<in> task_ids d. unat (task_mem d v))"
proof -
  have ok: "um_ok (tasks d)" using assms by (rule dag_invD)
  have "map unat (map (\<lambda>(_, t). mem_of t) (tasks d)) = map (\<lambda>v. unat (task_mem d v)) (map fst (tasks d))"
    using ok by (auto simp: task_mem_def get_task_def)
  then show ?thesis
    using ok by (simp only: total_memory_def sum_list_distinct_conv_sum_set set_map um_keys_def)
qed

lemma level_sum_entries:
  assumes "order_ok ord" "um_ok level" "um_keys level = task_ids d" "dag_inv d" "total_memory d < 2 ^ 64"
  shows "unat (sum_list (map (\<lambda>(i, k). if k = l then task_mem d i else 0) (traverse ord level)))
    = level_sum d (um_get 0 level) l"
proof -
  let ?ks = "ord (map fst level)"
  let ?f = "\<lambda>i. if um_get 0 level i = l then task_mem d i else 0"
  have ks: "distinct ?ks" "set ?ks = task_ids d" using assms(1-3) by simp_all
  have "the (map_of level i) = um_get 0 level i" if "i \<in> task_ids d" for i
    using that by (auto simp: in_um_keys_iff simp flip: assms(3))
  then have list: "map (\<lambda>(i, k). if k = l then task_mem d i else 0) (traverse ord level) = map ?f ?ks"
    using ks(2) by (auto simp: traverse_def)
  have sum: "sum_list (map unat (map ?f ?ks)) = level_sum d (um_get 0 level) l"
  proof -
    have "sum_list (map unat (map ?f ?ks)) = (\<Sum>i \<in> task_ids d. unat (?f i))"
      using ks by (simp add: sum_list_distinct_conv_sum_set comp_def)
    also have "\<dots> = (\<Sum>i \<in> task_ids d. if um_get 0 level i = l then unat (task_mem d i) else 0)"
      by (intro sum.cong) auto
    also have "\<dots> = level_sum d (um_get 0 level) l"
      by (simp add: level_sum_def sum.If_cases Int_def conj_commute)
    finally show ?thesis .
  qed
  have "level_sum d (um_get 0 level) l \<le> total_memory d"
    unfolding level_sum_def total_memory_sum [OF assms(4)] by (intro sum_mono2) auto
  with sum assms(5) show ?thesis unfolding list by (subst unat_sum_list_word) simp_all
qed

text \<open>
  C10. When the memory of all tasks fits in 64 bits, \<^verbatim>\<open>peak_memory_estimate\<close> of an acyclic graph is
  the largest sum of memory over one level, the level of a task being zero without dependencies and
  one more than its highest dependency otherwise; it does not depend on any traversal order.
\<close>

theorem peak_memory_estimate_levels:
  assumes "order_ok ord" "order_ok lord" "dag_inv d" "closed_dag d" "acyclic (edges d)"
    and "0 < task_count d" "total_memory d < 2 ^ 64" and lv: "is_level d lv"
  shows "unat (peak_memory_estimate ord lord d) = Max (level_sum d lv ` lv ` task_ids d)"
proof -
  let ?topo = "topological_order ord d"
  let ?m = "task_levels d ?topo"
  let ?lm = "fold (add_level_memory d) (traverse ord ?m) []"
  have all: "set ?topo = task_ids d" using assms(1,3-5) by (rule topological_order_complete_set)
  have m: "um_ok ?m" "um_keys ?m = task_ids d" "is_level d (um_get 0 ?m)"
    using task_levels_spec [OF assms(3) topological_order_spec(1,2) [OF assms(1,3)]] all
    by (auto simp: is_level_def)
  have same: "um_get 0 ?m v = lv v" if "v \<in> task_ids d" for v
    using is_level_unique [OF assms(3-5) m(3) lv that] .
  have "\<forall>(i, l) \<in> set (traverse ord ?m). i \<in> task_ids d"
    using m(2) by (auto simp: traverse_def assms(1))
  note lm = level_memory_spec [OF this, of "[]", simplified]
  have "snd ` set (traverse ord ?m) = lv ` task_ids d"
    unfolding values_traverse [OF assms(1) m(1), of 0] m(2) using same by (rule image_cong [OF refl])
  then have keys: "um_keys ?lm = lv ` task_ids d" using lm(2) by simp
  have sums: "unat (um_get 0 ?lm l) = level_sum d lv l" for l
  proof -
    have "level_sum d (um_get 0 ?m) l = level_sum d lv l"
      unfolding level_sum_def using same by (intro sum.cong) auto
    then show ?thesis
      using level_sum_entries [OF assms(1) m(1,2) assms(3,7)] by (simp add: lm(1))
  qed
  have "length ?topo = length (tasks d)" "tasks d \<noteq> []"
    using length_topo_eq_count_iff [OF assms(1,3,4)] assms(5,6) by (auto simp: task_count_def)
  then have "peak_memory_estimate ord lord d = Max (insert 0 (um_get 0 ?lm ` lv ` task_ids d))"
    using values_traverse [OF assms(2) lm(3), of 0] keys
    by (simp add: peak_memory_estimate_def fold_max_values)
  also have "unat \<dots> = Max (unat ` insert 0 (um_get 0 ?lm ` lv ` task_ids d))"
    by (intro mono_Max_commute) (auto intro!: monoI simp: word_le_nat_alt)
  also have "unat ` insert 0 (um_get 0 ?lm ` lv ` task_ids d) = insert 0 (level_sum d lv ` lv ` task_ids d)"
    by (simp add: image_image sums)
  also have "Max \<dots> = Max (level_sum d lv ` lv ` task_ids d)"
    using \<open>tasks d \<noteq> []\<close> by (cases "tasks d") (simp_all, auto)
  finally show ?thesis .
qed

definition sample_level :: "TaskId \<Rightarrow> nat" where
  "sample_level v = (if v = ''a'' then 0 else if v = ''e'' then 2 else 1)"

lemma sample_dag_ids: "task_ids sample_dag = {''a'', ''b'', ''c'', ''e''}"
  by (simp add: sample_dag_def build_dag_task_ids sample_task_def)

lemma sample_dag_level: "is_level sample_dag sample_level"
proof -
  have "dependencies sample_dag ''a'' = []" "dependencies sample_dag ''b'' = [''a'']"
    "dependencies sample_dag ''c'' = [''a'']" "dependencies sample_dag ''e'' = [''b'', ''c'']"
    by code_simp+
  then show ?thesis by (simp add: is_level_def sample_dag_ids sample_level_def)
qed

theorem peak_memory_estimate_levels_witness:
  "unat (peak_memory_estimate rev rev sample_dag) =
     Max (level_sum sample_dag sample_level ` sample_level ` task_ids sample_dag) \<and>
   peak_memory_estimate rev rev sample_dag = 70"
proof
  have "map (\<lambda>(_, t). mem_of t) (tasks sample_dag) = [10, 30, 40, 5]" by code_simp
  then have "total_memory sample_dag < 2 ^ 64" by (simp only: total_memory_def) simp
  then show "unat (peak_memory_estimate rev rev sample_dag) =
      Max (level_sum sample_dag sample_level ` sample_level ` task_ids sample_dag)"
    by (intro peak_memory_estimate_levels order_ok_rev sample_dag_ok sample_dag_acyclic
        sample_dag_costs sample_dag_level)
  show "peak_memory_estimate rev rev sample_dag = 70" by code_simp
qed

text \<open>
  The estimate is not the upper bound its comment promises: in a valid graph where \<open>b\<close> waits
  for \<open>a\<close> and \<open>c\<close> for nothing, both \<open>b\<close> and \<open>c\<close> are ready once \<open>a\<close> has completed and together
  need twice the estimate.
\<close>

theorem peak_memory_estimate_exceeded:
  "let d = build_dag [sample_task ''a'' 1 0, sample_task ''b'' 1 10, sample_task ''c'' 1 10]
             [(''a'', ''b'')];
       d' = mark_completed ''a'' d
   in is_valid (\<lambda>ks. ks) d \<and> ready_tasks (\<lambda>ks. ks) d' = [''b'', ''c''] \<and>
      peak_memory_estimate (\<lambda>ks. ks) (\<lambda>ls. ls) d = 10 \<and>
      task_mem d ''b'' + task_mem d ''c'' = 20"
  by code_simp

end
