(* ===== verification/Dag_Ready.thy ===== *)
theory Dag_Ready
  imports Dag_Cycle
begin

text \<open>
  Ready-task queries (\<^verbatim>\<open>WorkloadDAG::ready_tasks\<close>): which tasks are listed, and that an executor
  which keeps completing ready tasks of an acyclic graph completes them all.
\<close>

definition state_of :: "WorkloadDAG \<Rightarrow> TaskId \<Rightarrow> TaskState option" where
  "state_of d v = map_option t_state (get_task d v)"

lemma state_of_None: "state_of d v = None \<longleftrightarrow> v \<notin> task_ids d"
  by (simp add: state_of_def get_task_def map_of_None_keys)

lemma deps_met_iff:
  "deps_met d v \<longleftrightarrow> (\<forall>p \<in> set (dependencies d v). p \<in> task_ids d \<longrightarrow> state_of d p = Some Completed)"
proof -
  have "(case map_of (tasks d) p of None \<Rightarrow> True | Some t \<Rightarrow> t_state t = Completed) \<longleftrightarrow>
      (p \<in> task_ids d \<longrightarrow> state_of d p = Some Completed)" for p
    by (cases "map_of (tasks d) p") (auto simp: state_of_def get_task_def in_um_keys_iff)
  then show ?thesis
    by (auto simp: deps_met_def dependencies_def list_all_iff split: option.split)
qed

lemma in_ready_tasks:
  assumes "order_ok ord" "dag_inv d"
  shows "v \<in> set (ready_tasks ord d) \<longleftrightarrow> state_of d v = Some Pending \<and> deps_met d v"
proof -
  have ok: "um_ok (tasks d)" using assms(2) by (rule dag_invD)
  have "v \<in> set (ready_tasks ord d) \<longleftrightarrow>
      (\<exists>t. (v, t) \<in> set (tasks d) \<and> t_state t = Pending \<and> deps_met d v)"
    by (force simp: ready_tasks_def set_traverse [OF assms(1) ok] simp del: fst_image_set)
  also have "\<dots> \<longleftrightarrow> state_of d v = Some Pending \<and> deps_met d v"
    by (auto simp: state_of_def get_task_def simp flip: map_of_in_set [OF ok])
  finally show ?thesis .
qed

text \<open>
  \<^verbatim>\<open>ready_tasks\<close> lists, once each, exactly the pending tasks all of whose dependencies that are
  tasks of the graph have completed.
\<close>

theorem ready_tasks_exact:
  assumes "order_ok ord" "dag_inv d"
  shows "distinct (ready_tasks ord d) \<and>
    (\<forall>v. v \<in> set (ready_tasks ord d) \<longleftrightarrow> state_of d v = Some Pending \<and>
       (\<forall>p \<in> set (dependencies d v). p \<in> task_ids d \<longrightarrow> state_of d p = Some Completed))"
proof -
  have "distinct (map fst (traverse ord (tasks d)))"
    using assms(1) dag_invD(1) [OF assms(2)] by simp
  then have "distinct (ready_tasks ord d)"
    unfolding ready_tasks_def by (rule distinct_map_filter)
  then show ?thesis using in_ready_tasks [OF assms] by (simp add: deps_met_iff)
qed

theorem ready_tasks_exact_witness:
  "distinct (ready_tasks rev (mark_completed ''a'' sample_dag)) \<and>
   state_of (mark_completed ''a'' sample_dag) ''c'' = Some Pending"
proof -
  have "''c'' \<in> set (ready_tasks rev (mark_completed ''a'' sample_dag))" by code_simp
  moreover have "dag_inv (mark_completed ''a'' sample_dag)"
    by (simp add: mark_completed_def dag_inv_set_state sample_dag_ok)
  ultimately show ?thesis using ready_tasks_exact [OF order_ok_rev] by blast
qed

section \<open>Completing ready tasks one by one\<close>

text \<open>One step of an executor: it completes some task that the query lists.\<close>

inductive exec_step :: "order \<Rightarrow> WorkloadDAG \<Rightarrow> WorkloadDAG \<Rightarrow> bool" for ord where
  "v \<in> set (ready_tasks ord d) \<Longrightarrow> exec_step ord d (mark_completed v d)"

inductive_cases exec_stepE: "exec_step ord d d'"

definition settled :: "WorkloadDAG \<Rightarrow> bool" where
  "settled d \<longleftrightarrow> (\<forall>v \<in> task_ids d. state_of d v \<in> {Some Pending, Some Completed})"

definition exec_inv :: "WorkloadDAG \<Rightarrow> bool" where
  "exec_inv d \<longleftrightarrow> dag_inv d \<and> acyclic (edges d) \<and> settled d"

lemma state_of_set_state:
  "state_of (set_state s i d) v = (if v = i \<and> i \<in> task_ids d then Some s else state_of d v)"
  by (cases "map_of (tasks d) i")
    (simp_all add: state_of_def get_task_def set_state_def umap_simps in_um_keys_iff)

lemma exec_step_inv: "exec_inv d \<Longrightarrow> exec_step ord d d' \<Longrightarrow> exec_inv d' \<and> task_ids d' = task_ids d"
  by (erule exec_stepE)
    (auto simp: exec_inv_def settled_def mark_completed_def dag_inv_set_state state_of_set_state)

lemma exec_steps_inv:
  "(exec_step ord)\<^sup>*\<^sup>* d d' \<Longrightarrow> exec_inv d \<Longrightarrow> exec_inv d' \<and> task_ids d' = task_ids d"
  by (induction rule: rtranclp_induct) (auto dest: exec_step_inv)

lemma exec_progress:
  assumes "order_ok ord" "exec_inv d" "v \<in> task_ids d" "state_of d v = Some Pending"
  shows "\<exists>d'. exec_step ord d d'"
proof -
  let ?P = "{v \<in> task_ids d. state_of d v = Some Pending}"
  have "wf (edges d)" using finite_edges assms(2) by (simp add: exec_inv_def finite_acyclic_wf)
  then obtain u where u: "u \<in> ?P" "\<And>p. (p, u) \<in> edges d \<Longrightarrow> p \<notin> ?P"
    using assms(3,4) by (auto elim: wfE_min [of _ v ?P])
  have inv: "dag_inv d" "settled d" using assms(2) by (auto simp: exec_inv_def)
  have "deps_met d u"
    using u(2) inv(2) by (auto simp: deps_met_iff edges_iff' [OF inv(1)] settled_def)
  then have "u \<in> set (ready_tasks ord d)"
    using u(1) in_ready_tasks [OF assms(1) inv(1)] by simp
  then show ?thesis by (blast intro: exec_step.intros)
qed

text \<open>
  C11. An executor that keeps completing ready tasks never gets stuck on an acyclic graph: each
  step completes one more task, and when no step is possible every task has completed.
\<close>

theorem ready_execution_completes:
  assumes "order_ok ord" "exec_inv d" "(exec_step ord)\<^sup>*\<^sup>* d d'"
  shows "((\<nexists>d''. exec_step ord d' d'') \<longleftrightarrow> (\<forall>v \<in> task_ids d. state_of d' v = Some Completed)) \<and>
    (\<forall>d''. exec_step ord d' d'' \<longrightarrow>
       {v. state_of d'' v = Some Pending} \<subset> {v. state_of d' v = Some Pending})"
proof -
  from exec_steps_inv [OF assms(3,2)] have inv: "exec_inv d'" "task_ids d' = task_ids d" by auto
  have "settled d'" "dag_inv d'" using inv(1) by (auto simp: exec_inv_def)
  have ready: "state_of d' v = Some Pending" if "v \<in> set (ready_tasks ord d')" for v
    using that in_ready_tasks [OF assms(1) \<open>dag_inv d'\<close>] by simp
  have "(\<nexists>d''. exec_step ord d' d'') \<longleftrightarrow> (\<forall>v \<in> task_ids d'. state_of d' v = Some Completed)"
  proof
    assume "\<nexists>d''. exec_step ord d' d''"
    with exec_progress [OF assms(1) inv(1)] \<open>settled d'\<close>
    show "\<forall>v \<in> task_ids d'. state_of d' v = Some Completed" by (auto simp: settled_def)
  next
    assume compl: "\<forall>v \<in> task_ids d'. state_of d' v = Some Completed"
    have "v \<in> task_ids d'" if "state_of d' v = Some Pending" for v
      using that state_of_None [of d' v] by auto
    with compl ready show "\<nexists>d''. exec_step ord d' d''" by (fastforce elim!: exec_stepE)
  qed
  moreover have "{v. state_of d'' v = Some Pending} \<subset> {v. state_of d' v = Some Pending}"
    if "exec_step ord d' d''" for d''
    using that
  proof (cases rule: exec_step.cases)
    case (1 v)
    have "v \<in> task_ids d'" using ready [OF 1(2)] state_of_None [of d' v] by auto
    with ready [OF 1(2)] show ?thesis
      by (auto simp: 1(1) mark_completed_def state_of_set_state split: if_splits)
  qed
  ultimately show ?thesis using inv(2) by auto
qed

lemma sample_dag_exec_inv: "exec_inv sample_dag"
proof -
  have "list_all (\<lambda>(v, _). state_of sample_dag v = Some Pending) (tasks sample_dag)" by code_simp
  then have "settled sample_dag"
    by (auto simp: settled_def list_all_iff in_um_keys_iff dest!: map_of_SomeD)
  then show ?thesis by (simp add: exec_inv_def sample_dag_ok sample_dag_acyclic)
qed

theorem ready_execution_completes_witness:
  "\<exists>d''. exec_step rev (mark_completed ''a'' sample_dag) d'' \<and>
     {v. state_of d'' v = Some Pending} \<subset>
       {v. state_of (mark_completed ''a'' sample_dag) v = Some Pending}"
proof -
  let ?d = "mark_completed ''a'' sample_dag"
  have "''a'' \<in> set (ready_tasks rev sample_dag)" by code_simp
  then have "(exec_step rev)\<^sup>*\<^sup>* sample_dag ?d" by (blast intro: exec_step.intros)
  note run = ready_execution_completes [OF order_ok_rev sample_dag_exec_inv this]
  have "state_of ?d ''b'' = Some Pending" "state_of sample_dag ''b'' = Some Pending" by code_simp+
  moreover from this(2) have "''b'' \<in> task_ids sample_dag"
    using state_of_None [of sample_dag "''b''"] by auto
  ultimately have "\<exists>d''. exec_step rev ?d d''" using run by fastforce
  then show ?thesis using run by blast
qed

end
