(* ===== verification/Decimal.thy ===== *)
theory Decimal
  imports Prelude
begin

text \<open>
  Decimal numerals as \<^verbatim>\<open>std::to_string\<close> prints them for unsigned values, with the inverse that shows
  that distinct numbers have distinct numerals.
\<close>

definition digit_char :: "nat \<Rightarrow> char" where
  "digit_char n = char_of (48 + n)"

fun dec_string :: "nat \<Rightarrow> string" where
  "dec_string n = (if n < 10 then [digit_char n] else dec_string (n div 10) @ [digit_char (n mod 10)])"

declare dec_string.simps [simp del]

definition dec_value :: "string \<Rightarrow> nat" where
  "dec_value cs = foldl (\<lambda>acc ch. acc * 10 + (of_char ch - 48)) 0 cs"

lemma of_char_digit: "n < 10 \<Longrightarrow> (of_char (digit_char n) :: nat) = 48 + n"
  by (simp add: digit_char_def)

lemma dec_value_dec_string: "dec_value (dec_string n) = n"
proof (induction n rule: dec_string.induct)
  case (1 n)
  show ?case
  proof (cases "n < 10")
    case True
    then show ?thesis by (simp add: dec_string.simps [of n] dec_value_def of_char_digit)
  next
    case False
    with 1 have "foldl (\<lambda>acc ch. acc * 10 + (of_char ch - 48)) 0 (dec_string (n div 10)) = n div 10"
      by (simp add: dec_value_def)
    with False show ?thesis by (simp add: dec_string.simps [of n] dec_value_def of_char_digit)
  qed
qed

lemma dec_string_inject [simp]: "dec_string m = dec_string n \<longleftrightarrow> m = n"
  by (metis dec_value_dec_string)

lemma dec_string_not_Nil [simp]: "dec_string n \<noteq> []"
  by (simp add: dec_string.simps [of n])

text \<open>A numeral holds digits only, so it never contains a separator.\<close>

lemma dec_string_digits: "set (dec_string n) \<subseteq> digit_char ` {..<10}"
proof (induction n rule: dec_string.induct)
  case (1 n)
  then show ?case by (cases "n < 10") (auto simp: dec_string.simps [of n])
qed

lemma underscore_not_digit: "CHR ''_'' \<notin> set (dec_string n)"
proof
  assume "CHR ''_'' \<in> set (dec_string n)"
  with dec_string_digits obtain k where "k < 10" "CHR ''_'' = digit_char k" by blast
  then have "(of_char CHR ''_'' :: nat) = 48 + k" using of_char_digit by metis
  with \<open>k < 10\<close> show False by simp
qed

text \<open>Two numerals joined by a separator determine both numbers.\<close>

lemma dec_pair_inject:
  "dec_string a @ CHR ''_'' # dec_string b = dec_string a' @ CHR ''_'' # dec_string b' \<longleftrightarrow> a = a' \<and> b = b'"
proof
  assume eq: "dec_string a @ CHR ''_'' # dec_string b = dec_string a' @ CHR ''_'' # dec_string b'"
  have "takeWhile (\<lambda>ch. ch \<noteq> CHR ''_'') (dec_string m @ CHR ''_'' # xs) = dec_string m" for m xs
    using underscore_not_digit [of m] by (subst takeWhile_append2) auto
  with eq have "dec_string a = dec_string a'" by metis
  with eq show "a = a' \<and> b = b'" by simp
qed simp

end
