(* ===== verification/Generator.thy ===== *)
theory Generator
  imports Decimal Dag_Metrics
begin

text \<open>
  The synthetic workload generators (\<^verbatim>\<open>src/workload/generator.cpp\<close>): every generated graph is closed
  and acyclic, because each edge runs from an earlier task to a later one in the order of creation.
\<close>

section \<open>Operations\<close>

definition gen_task :: "TaskId \<Rightarrow> string \<Rightarrow> TaskProfile \<Rightarrow> Task" where
  "gen_task i name profile =
     \<lparr>t_id = i, t_name = name, t_profile = profile, t_dependencies = [], t_state = Pending\<rparr>"

definition chain_id :: "nat \<Rightarrow> TaskId" where
  "chain_id i = ''chain_'' @ dec_string i"

definition chain_step :: "TaskProfile \<Rightarrow> nat \<Rightarrow> WorkloadDAG \<times> TaskId \<Rightarrow> WorkloadDAG \<times> TaskId" where
  "chain_step base i = (\<lambda>(d, prev_id).
     let (d', i') = add_task (gen_task (chain_id i) (''Chain Task '' @ dec_string i) base) d
     in (if i > 0 then add_dependency prev_id i' d' else d', i'))"

definition linear_chain :: "nat \<Rightarrow> TaskProfile \<Rightarrow> WorkloadDAG" where
  "linear_chain num_tasks base = fst (fold (chain_step base) [0..<num_tasks] (empty_dag, []))"

definition branch_step ::
  "(nat \<Rightarrow> TaskId) \<Rightarrow> (nat \<Rightarrow> string) \<Rightarrow> TaskId \<Rightarrow> TaskProfile \<Rightarrow> nat \<Rightarrow> WorkloadDAG \<times> TaskId list
     \<Rightarrow> WorkloadDAG \<times> TaskId list" where
  "branch_step bid bname hub base i = (\<lambda>(d, branch_ids).
     (add_dependency hub (bid i) (fst (add_task (gen_task (bid i) (bname i) base) d)), branch_ids @ [bid i]))"

definition fan_branch_id :: "nat \<Rightarrow> TaskId" where
  "fan_branch_id i = ''fan_branch_'' @ dec_string i"

definition fan_out_fan_in :: "nat \<Rightarrow> TaskProfile \<Rightarrow> WorkloadDAG" where
  "fan_out_fan_in width base =
     (let src_profile = base\<lparr>output_bytes := input_bytes base * of_nat width\<rparr>;
          d0 = fst (add_task (gen_task ''fan_src'' ''Fan-Out Source'' src_profile) empty_dag);
          (d1, branch_ids) = fold (branch_step fan_branch_id (\<lambda>i. ''Branch '' @ dec_string i) ''fan_src'' base)
            [0..<width] (d0, []);
          sink_profile = base\<lparr>input_bytes := output_bytes base * of_nat width\<rparr>;
          d2 = fst (add_task (gen_task ''fan_sink'' ''Fan-In Sink'' sink_profile) d1)
      in fold (\<lambda>branch_id. add_dependency branch_id ''fan_sink'') branch_ids d2)"

definition diamond_branch_id :: "nat \<Rightarrow> nat \<Rightarrow> TaskId" where
  "diamond_branch_id k w = ''diamond_'' @ dec_string k @ ''_'' @ dec_string w"

definition hub_id :: "nat \<Rightarrow> TaskId" where
  "hub_id k = ''hub_'' @ dec_string k"

definition merge_id :: "nat \<Rightarrow> TaskId" where
  "merge_id k = ''merge_'' @ dec_string k"

definition diamond_level :: "nat \<Rightarrow> TaskProfile \<Rightarrow> nat \<Rightarrow> WorkloadDAG \<times> TaskId \<Rightarrow> WorkloadDAG \<times> TaskId" where
  "diamond_level width base k = (\<lambda>(d, prev_hub).
     let d1 = fst (add_task (gen_task (hub_id k) (''Hub '' @ dec_string k) base) d);
         d2 = (if k > 0 then add_dependency prev_hub (hub_id k) d1 else d1);
         (d3, branch_ids) = fold (branch_step (diamond_branch_id k)
             (\<lambda>w. ''Diamond D'' @ dec_string k @ '' B'' @ dec_string w) (hub_id k) base) [0..<width] (d2, []);
         d4 = fst (add_task (gen_task (merge_id k) (''Merge '' @ dec_string k) base) d3)
     in (fold (\<lambda>bid. add_dependency bid (merge_id k)) branch_ids d4, merge_id k))"

definition diamond :: "nat \<Rightarrow> nat \<Rightarrow> TaskProfile \<Rightarrow> WorkloadDAG" where
  "diamond depth width base = fst (fold (diamond_level width base) [0..<depth] (empty_dag, []))"

definition attn_id :: "nat \<Rightarrow> TaskId" where
  "attn_id i = ''layer_'' @ dec_string i @ ''_attn''"

definition ffn_id :: "nat \<Rightarrow> TaskId" where
  "ffn_id i = ''layer_'' @ dec_string i @ ''_ffn''"

definition layer_step :: "u64 \<Rightarrow> u64 \<Rightarrow> nat \<Rightarrow> WorkloadDAG \<times> TaskId \<Rightarrow> WorkloadDAG \<times> TaskId" where
  "layer_step hidden_dim kv i = (\<lambda>(d, prev_id).
     let attn_memory = hidden_dim * hidden_dim * 4 + kv * (of_nat i + 1);
         d1 = fst (add_task (gen_task (attn_id i) (''Layer '' @ dec_string i @ '' Attention'')
           \<lparr>compute_cost = sint (hidden_dim * 2), memory_bytes = attn_memory,
            input_bytes = hidden_dim * 4, output_bytes = hidden_dim * 4\<rparr>) d);
         d2 = (if i > 0 then add_dependency prev_id (attn_id i) d1 else d1);
         ffn_memory = hidden_dim * hidden_dim * 4 * 4;
         d3 = fst (add_task (gen_task (ffn_id i) (''Layer '' @ dec_string i @ '' FFN'')
           \<lparr>compute_cost = sint (hidden_dim * 4), memory_bytes = ffn_memory,
            input_bytes = hidden_dim * 4, output_bytes = hidden_dim * 4\<rparr>) d2)
     in (add_dependency (attn_id i) (ffn_id i) d3, ffn_id i))"

definition transformer_layers :: "nat \<Rightarrow> u64 \<Rightarrow> u64 \<Rightarrow> WorkloadDAG" where
  "transformer_layers num_layers hidden_dim kv =
     fst (fold (layer_step hidden_dim kv) [0..<num_layers] (empty_dag, []))"

text \<open>
  The random engine and its distributions: each draw takes the engine's state and returns a value
  and the next state.
\<close>

record 'g GenRng =
  rand_duration :: "'g \<Rightarrow> int \<Rightarrow> int \<Rightarrow> int \<times> 'g"
  rand_uint64 :: "'g \<Rightarrow> u64 \<Rightarrow> u64 \<Rightarrow> u64 \<times> 'g"
  edge_dist :: "'g \<Rightarrow> f32 \<times> 'g"

definition rand_id :: "nat \<Rightarrow> TaskId" where
  "rand_id i = ''rand_'' @ dec_string i"

definition rand_profile :: "'g GenRng \<Rightarrow> TaskProfile \<Rightarrow> TaskProfile \<Rightarrow> 'g \<Rightarrow> TaskProfile \<times> 'g" where
  "rand_profile r lo hi g =
     (let (c, g1) = rand_duration r g (compute_cost lo) (compute_cost hi);
          (m, g2) = rand_uint64 r g1 (memory_bytes lo) (memory_bytes hi);
          (inp, g3) = rand_uint64 r g2 (input_bytes lo) (input_bytes hi);
          (out, g4) = rand_uint64 r g3 (output_bytes lo) (output_bytes hi)
      in (\<lparr>compute_cost = c, memory_bytes = m, input_bytes = inp, output_bytes = out\<rparr>, g4))"

definition rand_task_step ::
  "'g GenRng \<Rightarrow> TaskProfile \<Rightarrow> TaskProfile \<Rightarrow> nat \<Rightarrow> WorkloadDAG \<times> TaskId list \<times> 'g
     \<Rightarrow> WorkloadDAG \<times> TaskId list \<times> 'g" where
  "rand_task_step r lo hi i = (\<lambda>(d, ids, g).
     let (profile, g') = rand_profile r lo hi g
     in (fst (add_task (gen_task (rand_id i) (''Random Task '' @ dec_string i) profile) d), ids @ [rand_id i], g'))"

definition rand_edge_step ::
  "'g GenRng \<Rightarrow> f32 \<Rightarrow> TaskId list \<Rightarrow> nat \<times> nat \<Rightarrow> WorkloadDAG \<times> 'g \<Rightarrow> WorkloadDAG \<times> 'g" where
  "rand_edge_step r edge_probability ids = (\<lambda>(i, j) (d, g).
     let (x, g') = edge_dist r g
     in (if f32_less x edge_probability then add_dependency (ids ! i) (ids ! j) d else d, g'))"

definition random_dag ::
  "'g GenRng \<Rightarrow> nat \<Rightarrow> f32 \<Rightarrow> TaskProfile \<Rightarrow> TaskProfile \<Rightarrow> 'g \<Rightarrow> WorkloadDAG \<times> 'g" where
  "random_dag r num_tasks edge_probability lo hi g =
     (let (d, ids, g') = fold (rand_task_step r lo hi) [0..<num_tasks] (empty_dag, [], g)
      in fold (rand_edge_step r edge_probability ids)
           (concat (map (\<lambda>i. map (\<lambda>j. (i, j)) [i + 1..<num_tasks]) [0..<num_tasks])) (d, g'))"

section \<open>Graphs with forward edges\<close>

abbreviation ids :: "WorkloadDAG \<Rightarrow> TaskId list" where
  "ids d \<equiv> map fst (tasks d)"

definition forward :: "WorkloadDAG \<Rightarrow> bool" where
  "forward d \<longleftrightarrow> dag_inv d \<and> (\<forall>(u, v) \<in> edges d. u \<in> task_ids d \<and> v \<in> task_ids d \<and>
     position (ids d) u < position (ids d) v)"

lemma forward_valid:
  assumes "forward d"
  shows "dag_inv d" "closed_dag d" "acyclic (edges d)"
proof -
  show "dag_inv d" "closed_dag d" using assms by (auto simp: forward_def closed_dag_def)
  have "edges d \<subseteq> measure (position (ids d))" using assms by (auto simp: forward_def)
  then show "acyclic (edges d)" by (rule acyclic_subset [rotated]) (rule wf_acyclic, rule wf_measure)
qed

lemma forward_empty: "forward empty_dag"
  by (simp add: forward_def dag_inv_empty)

lemma ids_add_task:
  "ids (fst (add_task t d)) = (if t_id t \<in> task_ids d then ids d else ids d @ [t_id t])"
  by (cases "map_of (tasks d) (t_id t)") (simp_all add: add_task_def Let_def um_emplace_def in_um_keys_iff)

lemma forward_add_task: "forward d \<Longrightarrow> forward (fst (add_task t d))"
  by (auto simp: forward_def dag_inv_add_task ids_add_task position_append)

lemma forward_add_dependency:
  assumes "forward d" "u \<in> task_ids d" "v \<in> task_ids d" "position (ids d) u < position (ids d) v"
  shows "forward (add_dependency u v d)"
  using assms by (auto simp: forward_def dag_inv_add_dependency edges_add_dependency)

lemma forward_add_last:
  assumes "forward d" "ids d = xs @ [v]" "u \<in> set xs"
  shows "forward (add_dependency u v d)"
proof -
  have "distinct (ids d)" using assms(1) dag_invD(1) by (auto simp: forward_def)
  moreover have "task_ids d = set (ids d)" by simp
  ultimately show ?thesis
    using assms position_nth [of u xs]
    by (intro forward_add_dependency) (auto simp: position_append position_last)
qed

text \<open>A new task with one edge from an older one.\<close>

lemma forward_add_new:
  assumes "forward d" "t_id t \<notin> task_ids d" "u \<in> task_ids d"
  shows "forward (add_dependency u (t_id t) (fst (add_task t d)))"
    and "ids (add_dependency u (t_id t) (fst (add_task t d))) = ids d @ [t_id t]"
  using assms
  by (auto intro!: forward_add_last [where xs = "ids d"] simp: forward_add_task ids_add_task)

lemma forward_add_optional:
  assumes "forward d" "t_id t \<notin> task_ids d" "b \<Longrightarrow> u \<in> task_ids d"
  shows "forward (if b then add_dependency u (t_id t) (fst (add_task t d)) else fst (add_task t d))"
    and "ids (if b then add_dependency u (t_id t) (fst (add_task t d)) else fst (add_task t d)) = ids d @ [t_id t]"
  using assms forward_add_new [of d t u] by (cases b; simp add: forward_add_task ids_add_task)+

lemma forward_add_lasts:
  "forward d \<Longrightarrow> ids d = xs @ [v] \<Longrightarrow> set us \<subseteq> set xs \<Longrightarrow>
   forward (fold (\<lambda>u. add_dependency u v) us d) \<and> ids (fold (\<lambda>u. add_dependency u v) us d) = xs @ [v]"
proof (induction us arbitrary: d)
  case (Cons u us)
  then have "forward (add_dependency u v d)" by (intro forward_add_last) auto
  with Cons show ?case by simp
qed simp

lemma branches_forward:
  assumes "forward d" "hub \<in> task_ids d" "inj bid" "\<And>i. bid i \<notin> task_ids d"
  shows "forward (fst (fold (branch_step bid bname hub base) [0..<w] (d, []))) \<and>
    ids (fst (fold (branch_step bid bname hub base) [0..<w] (d, []))) = ids d @ map bid [0..<w] \<and>
    snd (fold (branch_step bid bname hub base) [0..<w] (d, [])) = map bid [0..<w]"
proof (induction w)
  case (Suc w)
  obtain d' bs where st: "fold (branch_step bid bname hub base) [0..<w] (d, []) = (d', bs)" by force
  with Suc have d': "forward d'" "ids d' = ids d @ map bid [0..<w]" "bs = map bid [0..<w]" by auto
  have tids: "task_ids d' = task_ids d \<union> bid ` {0..<w}"
    using arg_cong [OF d'(2), of set] by simp
  have "bid w \<notin> task_ids d'" using assms(3,4) by (auto simp: tids inj_eq)
  then have "forward (add_dependency hub (bid w) (fst (add_task (gen_task (bid w) (bname w) base) d')))"
    "ids (add_dependency hub (bid w) (fst (add_task (gen_task (bid w) (bname w) base) d'))) = ids d' @ [bid w]"
    using forward_add_new [OF d'(1), of "gen_task (bid w) (bname w) base" hub] assms(2) tids
    by (auto simp: gen_task_def)
  then show ?case using st d' by (simp add: branch_step_def [of bid bname hub base w])
qed (use assms in simp)

section \<open>Each generator\<close>

lemma gen_ids [simp]:
  "chain_id i = chain_id j \<longleftrightarrow> i = j" "fan_branch_id i = fan_branch_id j \<longleftrightarrow> i = j"
  "hub_id i = hub_id j \<longleftrightarrow> i = j" "merge_id i = merge_id j \<longleftrightarrow> i = j"
  "attn_id i = attn_id j \<longleftrightarrow> i = j" "ffn_id i = ffn_id j \<longleftrightarrow> i = j" "rand_id i = rand_id j \<longleftrightarrow> i = j"
  "diamond_branch_id i w = diamond_branch_id j v \<longleftrightarrow> i = j \<and> w = v"
  by (simp_all add: chain_id_def fan_branch_id_def hub_id_def merge_id_def attn_id_def ffn_id_def
      rand_id_def diamond_branch_id_def dec_pair_inject)

lemma gen_ids_distinct [simp]:
  "fan_branch_id i \<noteq> ''fan_src''" "fan_branch_id i \<noteq> ''fan_sink''"
  "hub_id i \<noteq> merge_id j" "merge_id j \<noteq> hub_id i" "hub_id i \<noteq> diamond_branch_id j v" "diamond_branch_id j v \<noteq> hub_id i"
  "merge_id i \<noteq> diamond_branch_id j v" "diamond_branch_id j v \<noteq> merge_id i"
  by (simp_all add: fan_branch_id_def hub_id_def merge_id_def diamond_branch_id_def)

lemma attn_not_ffn [simp]: "attn_id i \<noteq> ffn_id j" "ffn_id j \<noteq> attn_id i"
proof -
  have "last (attn_id i) = CHR ''n''" "last (butlast (attn_id i)) = CHR ''t''"
    "last (ffn_id j) = CHR ''n''" "last (butlast (ffn_id j)) = CHR ''f''"
    by (simp_all add: attn_id_def ffn_id_def butlast_append)
  then show "attn_id i \<noteq> ffn_id j" "ffn_id j \<noteq> attn_id i" by auto
qed

lemma t_id_gen_task [simp]: "t_id (gen_task i name profile) = i"
  by (simp add: gen_task_def)

lemma chain_step_eq:
  "chain_step base i (d, prev_id) =
     (let d' = fst (add_task (gen_task (chain_id i) (''Chain Task '' @ dec_string i) base) d)
      in (if i > 0 then add_dependency prev_id (chain_id i) d' else d', chain_id i))"
  by (simp add: chain_step_def add_task_def Let_def)

lemma linear_chain_run:
  "\<exists>d. fold (chain_step base) [0..<n] (empty_dag, []) = (d, if n = 0 then [] else chain_id (n - 1)) \<and>
     forward d \<and> ids d = map chain_id [0..<n]"
proof (induction n)
  case 0
  show ?case by (simp add: forward_empty) (simp add: empty_dag_def)
next
  case (Suc n)
  then obtain d where d: "fold (chain_step base) [0..<n] (empty_dag, []) = (d, if n = 0 then [] else chain_id (n - 1))"
    "forward d" "ids d = map chain_id [0..<n]" by blast
  let ?t = "gen_task (chain_id n) (''Chain Task '' @ dec_string n) base"
  have tids: "task_ids d = chain_id ` {0..<n}" using arg_cong [OF d(3), of set] by simp
  then have new: "t_id ?t \<notin> task_ids d" by auto
  show ?case
  proof (cases "n = 0")
    case True
    with d show ?thesis
      by (simp add: chain_step_eq Let_def forward_add_task ids_add_task del: upt_Suc)
        (simp add: upt_conv_Cons chain_step_eq Let_def forward_add_task forward_empty ids_add_task empty_dag_def)
  next
    case False
    then have "chain_id (n - 1) \<in> task_ids d" by (auto simp: tids)
    from forward_add_new [OF d(2) new this] d False show ?thesis
      by (simp add: chain_step_eq Let_def)
  qed
qed

lemma tids_of: "ids d = xs \<Longrightarrow> task_ids d = set xs"
  by auto

lemmas gen_ids_distinct_sym [simp] = gen_ids_distinct(1,2) [symmetric]

lemma fan_run:
  "forward (fan_out_fan_in w base) \<and>
   ids (fan_out_fan_in w base) = ''fan_src'' # map fan_branch_id [0..<w] @ [''fan_sink'']"
proof -
  let ?d0 = "fst (add_task (gen_task ''fan_src'' ''Fan-Out Source''
    (base\<lparr>output_bytes := input_bytes base * of_nat w\<rparr>)) empty_dag)"
  have d0: "forward ?d0" "ids ?d0 = [''fan_src'']"
    by (simp_all add: forward_add_task forward_empty ids_add_task) (simp_all add: empty_dag_def)
  obtain d1 bs where fold: "fold (branch_step fan_branch_id (\<lambda>i. ''Branch '' @ dec_string i) ''fan_src'' base)
      [0..<w] (?d0, []) = (d1, bs)" by force
  have d1: "forward d1" "ids d1 = ''fan_src'' # map fan_branch_id [0..<w]" "bs = map fan_branch_id [0..<w]"
    using branches_forward [OF d0(1), of "''fan_src''" fan_branch_id "\<lambda>i. ''Branch '' @ dec_string i" base w] tids_of [OF d0(2)] d0(2) fold
    by (auto simp: inj_def simp del: task_ids_add_task)
  let ?d2 = "fst (add_task (gen_task ''fan_sink'' ''Fan-In Sink''
    (base\<lparr>input_bytes := output_bytes base * of_nat w\<rparr>)) d1)"
  have "''fan_sink'' \<notin> task_ids d1" by (auto simp: tids_of [OF d1(2)])
  then have d2: "forward ?d2" "ids ?d2 = (''fan_src'' # map fan_branch_id [0..<w]) @ [''fan_sink'']"
    using d1 by (simp_all add: forward_add_task ids_add_task)
  have "fan_out_fan_in w base = fold (\<lambda>u. add_dependency u ''fan_sink'') bs ?d2"
    by (simp only: fan_out_fan_in_def Let_def fold prod.case)
  then show ?thesis using forward_add_lasts [OF d2, of bs] d1(3) by auto
qed

definition diamond_ids :: "nat \<Rightarrow> nat \<Rightarrow> TaskId list" where
  "diamond_ids w k = hub_id k # map (diamond_branch_id k) [0..<w] @ [merge_id k]"

lemma diamond_level_run:
  assumes d: "forward d" "\<And>j. j \<ge> k \<Longrightarrow> set (diamond_ids w j) \<inter> task_ids d = {}"
    and prev: "k > 0 \<Longrightarrow> prev \<in> task_ids d"
    and inj: "\<And>v. diamond_branch_id k v \<notin> task_ids d"
  obtains d' where "diamond_level w base k (d, prev) = (d', merge_id k)" "forward d'"
    "ids d' = ids d @ diamond_ids w k"
proof -
  let ?h = "gen_task (hub_id k) (''Hub '' @ dec_string k) base"
  have new: "hub_id k \<notin> task_ids d" "merge_id k \<notin> task_ids d" using d(2) [of k] by (auto simp: diamond_ids_def)
  define d2 where "d2 = (if k > 0 then add_dependency prev (hub_id k) (fst (add_task ?h d)) else fst (add_task ?h d))"
  have d2: "forward d2" "ids d2 = ids d @ [hub_id k]"
    using forward_add_optional [OF d(1), of ?h "k > 0" prev] new(1) prev
    unfolding d2_def t_id_gen_task by blast+
  obtain d3 bs where fold: "fold (branch_step (diamond_branch_id k)
      (\<lambda>v. ''Diamond D'' @ dec_string k @ '' B'' @ dec_string v) (hub_id k) base) [0..<w] (d2, []) = (d3, bs)" by force
  have "hub_id k \<in> task_ids d2" "\<And>v. diamond_branch_id k v \<notin> task_ids d2"
    using inj tids_of [OF d2(2)] by auto
  with branches_forward [OF d2(1), of "hub_id k" "diamond_branch_id k"
      "\<lambda>v. ''Diamond D'' @ dec_string k @ '' B'' @ dec_string v" base w]
  have d3: "forward d3" "ids d3 = ids d @ hub_id k # map (diamond_branch_id k) [0..<w]"
    "bs = map (diamond_branch_id k) [0..<w]"
    using d2(2) fold by (auto simp: inj_def)
  let ?d4 = "fst (add_task (gen_task (merge_id k) (''Merge '' @ dec_string k) base) d3)"
  have "merge_id k \<notin> task_ids d3" using new(2) tids_of [OF d3(2)] by auto
  then have d4: "forward ?d4" "ids ?d4 = (ids d @ hub_id k # map (diamond_branch_id k) [0..<w]) @ [merge_id k]"
    using d3 by (simp_all add: forward_add_task ids_add_task)
  show thesis
  proof (rule that)
    show "diamond_level w base k (d, prev) = (fold (\<lambda>u. add_dependency u (merge_id k)) bs ?d4, merge_id k)"
      by (simp only: diamond_level_def Let_def prod.case d2_def [symmetric] fold)
    show "forward (fold (\<lambda>u. add_dependency u (merge_id k)) bs ?d4)"
      "ids (fold (\<lambda>u. add_dependency u (merge_id k)) bs ?d4) = ids d @ diamond_ids w k"
      using forward_add_lasts [OF d4, of bs] d3(3) by (auto simp: diamond_ids_def)
  qed
qed

lemma diamond_run:
  "\<exists>d. fold (diamond_level w base) [0..<n] (empty_dag, []) = (d, if n = 0 then [] else merge_id (n - 1)) \<and>
     forward d \<and> ids d = concat (map (diamond_ids w) [0..<n])"
proof (induction n)
  case 0
  show ?case by (simp add: forward_empty) (simp add: empty_dag_def)
next
  case (Suc n)
  then obtain d where d: "fold (diamond_level w base) [0..<n] (empty_dag, []) = (d, if n = 0 then [] else merge_id (n - 1))"
    "forward d" "ids d = concat (map (diamond_ids w) [0..<n])" by blast
  have tids: "task_ids d = (\<Union>j \<in> {0..<n}. set (diamond_ids w j))"
    using tids_of [OF d(3)] by simp
  obtain d' where "diamond_level w base n (d, if n = 0 then [] else merge_id (n - 1)) = (d', merge_id n)"
    "forward d'" "ids d' = ids d @ diamond_ids w n"
  proof (rule diamond_level_run [OF d(2), where w = w and base = base and k = n
        and prev = "if n = 0 then [] else merge_id (n - 1)"])
    show "set (diamond_ids w j) \<inter> task_ids d = {}" if "n \<le> j" for j
      using that by (auto simp: tids diamond_ids_def)
    show "n > 0 \<Longrightarrow> (if n = 0 then [] else merge_id (n - 1)) \<in> task_ids d"
      by (auto simp: tids diamond_ids_def intro!: bexI [of _ "n - 1"])
    show "diamond_branch_id n v \<notin> task_ids d" for v by (auto simp: tids diamond_ids_def)
  qed
  with d show ?case by auto
qed

lemma transformer_run:
  "\<exists>d. fold (layer_step h kv) [0..<n] (empty_dag, []) = (d, if n = 0 then [] else ffn_id (n - 1)) \<and>
     forward d \<and> ids d = concat (map (\<lambda>i. [attn_id i, ffn_id i]) [0..<n])"
proof (induction n)
  case 0
  show ?case by (simp add: forward_empty) (simp add: empty_dag_def)
next
  case (Suc n)
  let ?prev = "if n = 0 then [] else ffn_id (n - 1)"
  from Suc obtain d where d: "fold (layer_step h kv) [0..<n] (empty_dag, []) = (d, ?prev)"
    "forward d" "ids d = concat (map (\<lambda>i. [attn_id i, ffn_id i]) [0..<n])" by blast
  have tids: "task_ids d = attn_id ` {0..<n} \<union> ffn_id ` {0..<n}" using tids_of [OF d(3)] by auto
  have new: "attn_id n \<notin> task_ids d" "ffn_id n \<notin> task_ids d" by (auto simp: tids)
  let ?a = "gen_task (attn_id n) (''Layer '' @ dec_string n @ '' Attention'')
    \<lparr>compute_cost = sint (h * 2), memory_bytes = h * h * 4 + kv * (of_nat n + 1), input_bytes = h * 4, output_bytes = h * 4\<rparr>"
  let ?f = "gen_task (ffn_id n) (''Layer '' @ dec_string n @ '' FFN'')
    \<lparr>compute_cost = sint (h * 4), memory_bytes = h * h * 4 * 4, input_bytes = h * 4, output_bytes = h * 4\<rparr>"
  define d2 where "d2 = (if n > 0 then add_dependency ?prev (attn_id n) (fst (add_task ?a d)) else fst (add_task ?a d))"
  have "n > 0 \<Longrightarrow> ?prev \<in> task_ids d" by (auto simp: tids)
  then have d2: "forward d2" "ids d2 = ids d @ [attn_id n]"
    using forward_add_optional [OF d(2), of ?a "n > 0" ?prev] new(1)
    unfolding d2_def t_id_gen_task by blast+
  have "attn_id n \<in> task_ids d2" "ffn_id n \<notin> task_ids d2" using new tids_of [OF d2(2)] by auto
  then have d4: "forward (add_dependency (attn_id n) (ffn_id n) (fst (add_task ?f d2)))"
    "ids (add_dependency (attn_id n) (ffn_id n) (fst (add_task ?f d2))) = ids d2 @ [ffn_id n]"
    using forward_add_new [OF d2(1), of ?f "attn_id n"] by auto
  have "layer_step h kv n (d, ?prev) = (add_dependency (attn_id n) (ffn_id n) (fst (add_task ?f d2)), ffn_id n)"
    by (simp only: layer_step_def Let_def prod.case d2_def [symmetric])
  with d(1) have "fold (layer_step h kv) [0..<Suc n] (empty_dag, []) =
      (add_dependency (attn_id n) (ffn_id n) (fst (add_task ?f d2)), ffn_id n)" by simp
  with d4 d2(2) d(3) show ?case by simp
qed

lemma random_tasks_run:
  "\<exists>d g'. fold (rand_task_step r lo hi) [0..<n] (empty_dag, [], g) = (d, map rand_id [0..<n], g') \<and>
     forward d \<and> ids d = map rand_id [0..<n]"
proof (induction n)
  case 0
  show ?case by (simp add: forward_empty) (simp add: empty_dag_def)
next
  case (Suc n)
  then obtain d g' where d: "fold (rand_task_step r lo hi) [0..<n] (empty_dag, [], g) = (d, map rand_id [0..<n], g')"
    "forward d" "ids d = map rand_id [0..<n]" by blast
  obtain p g2 where p: "rand_profile r lo hi g' = (p, g2)" by force
  have "rand_id n \<notin> task_ids d" using tids_of [OF d(3)] by auto
  then show ?case
    using d p by (simp add: rand_task_step_def [of r lo hi n] forward_add_task ids_add_task)
qed

lemma random_edges_run:
  assumes "forward d" "ids d = map rand_id [0..<n]" "\<And>i j. (i, j) \<in> set es \<Longrightarrow> i < j \<and> j < n"
  shows "forward (fst (fold (rand_edge_step r q (map rand_id [0..<n])) es (d, g))) \<and>
    ids (fst (fold (rand_edge_step r q (map rand_id [0..<n])) es (d, g))) = map rand_id [0..<n]"
  using assms
proof (induction es arbitrary: d g)
  case (Cons e es)
  obtain i j x g' where e: "e = (i, j)" "edge_dist r g = (x, g')" by force
  with Cons.prems(3) have ij: "i < j" "j < n" by auto
  let ?xs = "map rand_id [0..<n]"
  have "distinct ?xs" by (simp add: distinct_map inj_on_def)
  then have "position ?xs (rand_id i) = i" "position ?xs (rand_id j) = j"
    using position_index [of ?xs i] position_index [of ?xs j] ij by simp_all
  then have "forward (add_dependency (rand_id i) (rand_id j) d)"
    using ij Cons.prems(1,2) tids_of [OF Cons.prems(2)] by (intro forward_add_dependency) auto
  moreover have "rand_edge_step r q ?xs e (d, g) =
      (if f32_less x q then add_dependency (rand_id i) (rand_id j) d else d, g')"
    using e ij by (simp add: rand_edge_step_def)
  moreover have es: "i < j \<and> j < n" if "(i, j) \<in> set es" for i j
    using Cons.prems(3) that by (meson list.set_intros(2))
  ultimately show ?case
    using Cons.IH [OF _ _ es, of "add_dependency (rand_id i) (rand_id j) d" g'] Cons.IH [OF _ _ es, of d g'] Cons.prems
    by simp
qed simp

lemma random_run:
  "forward (fst (random_dag r n q lo hi g)) \<and> ids (fst (random_dag r n q lo hi g)) = map rand_id [0..<n]"
proof -
  obtain d g' where d: "fold (rand_task_step r lo hi) [0..<n] (empty_dag, [], g) = (d, map rand_id [0..<n], g')"
    "forward d" "ids d = map rand_id [0..<n]" using random_tasks_run [of r lo hi n g] by blast
  let ?es = "concat (map (\<lambda>i. map (\<lambda>j. (i, j)) [i + 1..<n]) [0..<n])"
  have "i < j \<and> j < n" if "(i, j) \<in> set ?es" for i j using that by auto
  from random_edges_run [OF d(2,3) this, of ?es] show ?thesis by (simp add: random_dag_def d(1))
qed

text \<open>All five at once.\<close>

lemma generators_forward:
  "forward (linear_chain n p)" "forward (fan_out_fan_in w p)" "forward (diamond n w p)"
  "forward (transformer_layers n h kv)" "forward (fst (random_dag r n q lo hi g))"
  using linear_chain_run [of p n] fan_run [of w p] diamond_run [of w p n] transformer_run [of h kv n]
    random_run [of r n q lo hi g]
  by (auto simp: linear_chain_def diamond_def transformer_layers_def)

lemma generators_ids:
  "ids (linear_chain n p) = map chain_id [0..<n]"
  "ids (fan_out_fan_in w p) = ''fan_src'' # map fan_branch_id [0..<w] @ [''fan_sink'']"
  "ids (diamond n w p) = concat (map (diamond_ids w) [0..<n])"
  "ids (transformer_layers n h kv) = concat (map (\<lambda>i. [attn_id i, ffn_id i]) [0..<n])"
  "ids (fst (random_dag r n q lo hi g)) = map rand_id [0..<n]"
  using linear_chain_run [of p n] fan_run [of w p] diamond_run [of w p n] transformer_run [of h kv n]
    random_run [of r n q lo hi g]
  by (auto simp: linear_chain_def diamond_def transformer_layers_def)

lemma task_count_ids: "task_count d = length (ids d)"
  by (simp add: task_count_def)

lemma generators_counts:
  "task_count (linear_chain n p) = n" "task_count (fan_out_fan_in w p) = w + 2"
  "task_count (diamond n w p) = n * (w + 2)" "task_count (transformer_layers n h kv) = 2 * n"
  "task_count (fst (random_dag r n q lo hi g)) = n"
proof -
  have const: "length (concat (map f [0..<n])) = n * k" if "\<And>i. length (f i) = k" for f :: "nat \<Rightarrow> 'b list" and k
    using that by (induction n) auto
  show "task_count (linear_chain n p) = n" "task_count (fan_out_fan_in w p) = w + 2"
    "task_count (diamond n w p) = n * (w + 2)" "task_count (transformer_layers n h kv) = 2 * n"
    "task_count (fst (random_dag r n q lo hi g)) = n"
    unfolding task_count_ids generators_ids
    using const [of "diamond_ids w" "w + 2"] const [of "\<lambda>i. [attn_id i, ffn_id i]" 2]
    by (simp_all add: diamond_ids_def)
qed

lemma forward_is_valid: "order_ok ord \<Longrightarrow> forward d \<Longrightarrow> 0 < task_count d \<Longrightarrow> is_valid ord d"
  using forward_valid(2,3) [of d] by (auto simp: is_valid_def has_cycle_closed_iff task_count_def)

section \<open>Properties\<close>

text \<open>
  C21. Every generator builds a graph of the documented number of tasks that passes \<^verbatim>\<open>is_valid\<close>, for
  every random engine and edge probability; none of its edges leaves the graph.
\<close>

theorem generators_valid:
  assumes "order_ok ord" "0 < n"
  shows "\<forall>(d, size) \<in> {(linear_chain n p, n), (fan_out_fan_in w p, w + 2), (diamond n w p, n * (w + 2)),
      (transformer_layers n h kv, 2 * n), (fst (random_dag r n q lo hi g), n)}.
    is_valid ord d \<and> closed_dag d \<and> task_count d = size"
  using assms generators_forward [THEN forward_valid(2)]
  by (auto simp: generators_counts generators_forward forward_is_valid)

definition sample_profile :: TaskProfile where
  "sample_profile = \<lparr>compute_cost = 3, memory_bytes = 8, input_bytes = 2, output_bytes = 2\<rparr>"

definition sample_rng :: "nat GenRng" where
  "sample_rng = \<lparr>rand_duration = (\<lambda>g lo hi. (lo, Suc g)), rand_uint64 = (\<lambda>g lo hi. (hi, Suc g)),
     edge_dist = (\<lambda>g. (Fin 0, Suc g))\<rparr>"

theorem generators_valid_witness:
  "is_valid rev (diamond 2 3 sample_profile) \<and> task_count (diamond 2 3 sample_profile) = 10 \<and>
   is_valid rev (fst (random_dag sample_rng 2 (Fin (1 / 2)) sample_profile sample_profile 0))"
  using generators_valid [OF order_ok_rev, of 2 sample_profile 3 0 0 sample_rng "Fin (1 / 2)"
      sample_profile sample_profile 0] by simp

text \<open>The profile a task was added with.\<close>

definition profile_of :: "WorkloadDAG \<Rightarrow> TaskId \<Rightarrow> TaskProfile option" where
  "profile_of d v = map_option t_profile (get_task d v)"

lemma profile_of_add_dependency [simp]: "profile_of (add_dependency u v d) w = profile_of d w"
  by (auto simp: profile_of_def get_task_def add_dependency_def umap_simps split: option.splits)

lemma profile_of_add_task [simp]:
  "profile_of (fst (add_task t d)) w = (if w = t_id t \<and> w \<notin> task_ids d then Some (t_profile t) else profile_of d w)"
  by (auto simp: profile_of_def get_task_def add_task_def Let_def umap_simps)

lemma task_cost_profile: "profile_of d v = Some p \<Longrightarrow> task_cost d v = compute_cost p"
  by (auto simp: profile_of_def task_cost_def cost_of_def)

lemma costs_nonneg_if:
  assumes "dag_inv d" "\<And>v. v \<in> task_ids d \<Longrightarrow> 0 \<le> task_cost d v"
  shows "costs_nonneg d"
proof -
  have "0 \<le> cost_of t" if t: "(v, t) \<in> set (tasks d)" for v t
  proof -
    have "map_of (tasks d) v = Some t" using t dag_invD(1) [OF assms(1)] by simp
    moreover from this have "v \<in> task_ids d" by (simp add: get_task_iff get_task_def)
    ultimately show ?thesis using assms(2) [of v] by (simp add: task_cost_def get_task_def)
  qed
  then show ?thesis by (auto simp: costs_nonneg_def list_all_iff)
qed

lemma linear_chain_detail:
  "\<exists>d prev. fold (chain_step base) [0..<n] (empty_dag, []) = (d, prev) \<and>
     (\<forall>i < n. profile_of d (chain_id i) = Some base) \<and>
     (\<forall>i. Suc i < n \<longrightarrow> (chain_id i, chain_id (Suc i)) \<in> edges d)"
proof (induction n)
  case (Suc n)
  then obtain d prev where d: "fold (chain_step base) [0..<n] (empty_dag, []) = (d, prev)"
    "\<And>i. i < n \<Longrightarrow> profile_of d (chain_id i) = Some base"
    "\<And>i. Suc i < n \<Longrightarrow> (chain_id i, chain_id (Suc i)) \<in> edges d" by blast
  obtain d' where d': "fold (chain_step base) [0..<n] (empty_dag, []) = (d', if n = 0 then [] else chain_id (n - 1))"
    "ids d' = map chain_id [0..<n]" using linear_chain_run [of base n] by blast
  with d(1) have prev: "prev = (if n = 0 then [] else chain_id (n - 1))" "ids d = map chain_id [0..<n]" by auto
  have "chain_id n \<notin> task_ids d" using tids_of [OF prev(2)] by auto
  then show ?case
    using d prev(1)
    by (auto simp: chain_step_eq Let_def edges_add_dependency gen_task_def less_Suc_eq)
qed simp

text \<open>
  The chain generator really builds a sequential workload: its critical path is the whole work,
  the number of tasks times the cost of one.
\<close>

theorem linear_chain_sequential:
  assumes "order_ok ord" "0 \<le> compute_cost p"
  shows "critical_path_cost ord (linear_chain n p) = int n * compute_cost p \<and>
    total_compute_cost ord (linear_chain n p) = int n * compute_cost p"
proof -
  let ?d = "linear_chain n p"
  note ok = forward_valid [OF generators_forward(1) [of n p]]
  have detail: "\<And>i. i < n \<Longrightarrow> profile_of ?d (chain_id i) = Some p"
    "\<And>i. Suc i < n \<Longrightarrow> (chain_id i, chain_id (Suc i)) \<in> edges ?d"
    using linear_chain_detail [of p n] by (auto simp: linear_chain_def)
  have cost: "task_cost ?d (chain_id i) = compute_cost p" if "i < n" for i
    using detail(1) [OF that] by (simp add: task_cost_profile)
  have tids: "task_ids ?d = chain_id ` {0..<n}" using tids_of [OF generators_ids(1)] by simp
  have nonneg: "costs_nonneg ?d" using cost assms(2) tids by (intro costs_nonneg_if [OF ok(1)]) auto
  have total: "total_compute_cost ord ?d = int n * compute_cost p"
  proof -
    have "total_compute_cost ord ?d = (\<Sum>i \<in> {0..<n}. task_cost ?d (chain_id i))"
      unfolding total_compute_cost_sum [OF assms(1) ok(1)] tids by (rule sum.reindex_cong [of chain_id]) (auto simp: inj_on_def)
    then show ?thesis by (simp add: cost)
  qed
  have chain: "chain ?d (chain_id i) (int (Suc i) * compute_cost p)" if "i < n" for i
    using that
  proof (induction i)
    case 0
    then show ?case using chain.single [of "chain_id 0" ?d] cost [of 0] tids by auto
  next
    case (Suc i)
    then show ?case
      using chain.extend [OF Suc.IH detail(2) [OF Suc.prems]] cost [OF Suc.prems] tids
      by (auto simp: algebra_simps)
  qed
  show ?thesis
  proof (cases n)
    case 0
    then show ?thesis using total by (simp add: critical_path_cost_def linear_chain_def empty_dag_def)
  next
    case (Suc m)
    then have "int n * compute_cost p \<le> critical_path_cost ord ?d"
      using longest_chain [OF assms(1) ok nonneg] chain [of m] by (auto simp: generators_counts)
    moreover have "critical_path_cost ord ?d \<le> total_compute_cost ord ?d"
      using critical_le_total [OF assms(1) ok nonneg] by simp
    ultimately show ?thesis using total by simp
  qed
qed

theorem linear_chain_sequential_witness:
  "critical_path_cost rev (linear_chain 4 sample_profile) = 12"
  using linear_chain_sequential [OF order_ok_rev, of sample_profile 4] by (simp add: sample_profile_def)

end
