(* ===== verification/Wire.thy ===== *)
theory Wire
  imports Float32
begin

text \<open>
  Byte-level encodings the network code shares: big-endian integers
  (\<^verbatim>\<open>htobe16\<close>, \<^verbatim>\<open>htobe32\<close>, \<^verbatim>\<open>htobe64\<close>, and \<^verbatim>\<open>encode_u32\<close> of \<^verbatim>\<open>src/network/transport.cpp\<close>), the IEEE-754 bit
  pattern of a \<^verbatim>\<open>float\<close>, and characters as bytes.
\<close>

section \<open>Big-endian integers\<close>

fun be_bytes :: "nat \<Rightarrow> nat \<Rightarrow> u8 list" where
  "be_bytes 0 n = []"
| "be_bytes (Suc k) n = be_bytes k (n div 256) @ [of_nat n]"

definition be_value :: "u8 list \<Rightarrow> nat" where
  "be_value bs = foldl (\<lambda>a b. a * 256 + unat b) 0 bs"

lemma length_be_bytes [simp]: "length (be_bytes k n) = k"
  by (induction k n rule: be_bytes.induct) simp_all

lemma be_value_bytes: "be_value (be_bytes k n) = n mod 256 ^ k"
proof (induction k n rule: be_bytes.induct)
  case (2 k n)
  have "be_value (be_bytes (Suc k) n) = (n div 256 mod 256 ^ k) * 256 + n mod 256"
    using 2 by (simp add: be_value_def unat_of_nat)
  also have "\<dots> = n mod 256 ^ Suc k" by (simp add: mod_mult2_eq mult.commute)
  finally show ?case .
qed (simp add: be_value_def)

definition htobe16 :: "u16 \<Rightarrow> u8 list" where "htobe16 x = be_bytes 2 (unat x)"
definition htobe32 :: "u32 \<Rightarrow> u8 list" where "htobe32 x = be_bytes 4 (unat x)"
definition htobe64 :: "u64 \<Rightarrow> u8 list" where "htobe64 x = be_bytes 8 (unat x)"
definition be16toh :: "u8 list \<Rightarrow> u16" where "be16toh bs = of_nat (be_value bs)"
definition be32toh :: "u8 list \<Rightarrow> u32" where "be32toh bs = of_nat (be_value bs)"
definition be64toh :: "u8 list \<Rightarrow> u64" where "be64toh bs = of_nat (be_value bs)"

lemma be_toh_htobe [simp]:
  "be16toh (htobe16 x) = x" "be32toh (htobe32 y) = y" "be64toh (htobe64 z) = z"
proof -
  have "unat x < 256 ^ 2" "unat y < 256 ^ 4" "unat z < 256 ^ 8"
    using unsigned_less [of x] unsigned_less [of y] unsigned_less [of z] by simp_all
  then show "be16toh (htobe16 x) = x" "be32toh (htobe32 y) = y" "be64toh (htobe64 z) = z"
    by (simp_all add: be16toh_def htobe16_def be32toh_def htobe32_def be64toh_def htobe64_def be_value_bytes)
qed

lemma length_htobe [simp]: "length (htobe16 x) = 2" "length (htobe32 y) = 4" "length (htobe64 z) = 8"
  by (simp_all add: htobe16_def htobe32_def htobe64_def)

section \<open>Bit patterns of floats\<close>

text \<open>The values binary32 can hold.\<close>

fun representable :: "f32 \<Rightarrow> bool" where
  "representable (Fin x) \<longleftrightarrow> x = 0 \<or>
     (let q = quantum \<bar>x\<bar>; m = \<lfloor>\<bar>x\<bar> / 2 powi q\<rfloor>
      in \<bar>x\<bar> = of_int m * 2 powi q \<and> 0 < m \<and> m < 2 ^ 24 \<and> q \<le> 104 \<and> (q = -149 \<or> 2 ^ 23 \<le> m))"
| "representable _ \<longleftrightarrow> True"

text \<open>\<^verbatim>\<open>memcpy\<close> between a \<^verbatim>\<open>float\<close> and a \<^verbatim>\<open>uint32_t\<close>: sign, biased exponent, fraction.\<close>

definition float_magnitude :: "rat \<Rightarrow> nat" where
  "float_magnitude a = (if a = 0 then 0
     else nat ((quantum a + 149) * 2 ^ 23 + \<lfloor>a / 2 powi quantum a\<rfloor>))"

fun float_to_bits :: "f32 \<Rightarrow> u32" where
  "float_to_bits NaN = of_nat (255 * 2 ^ 23 + 2 ^ 22)"
| "float_to_bits PInf = of_nat (255 * 2 ^ 23)"
| "float_to_bits NInf = of_nat (2 ^ 31 + 255 * 2 ^ 23)"
| "float_to_bits (Fin x) = of_nat ((if x < 0 then 2 ^ 31 else 0) + float_magnitude \<bar>x\<bar>)"

definition float_from_bits :: "u32 \<Rightarrow> f32" where
  "float_from_bits w =
     (let n = unat w; neg = 2 ^ 31 \<le> n; k = n mod 2 ^ 31; e = k div 2 ^ 23; f = k mod 2 ^ 23
      in if e = 255 then (if f \<noteq> 0 then NaN else if neg then NInf else PInf)
         else let a = (if e = 0 then of_nat f * 2 powi -149 else of_nat (2 ^ 23 + f) * 2 powi (int e - 150))
              in Fin (if neg then - a else a))"

lemma float_magnitude_split:
  assumes "representable (Fin a)" "0 < a"
  shows "float_magnitude a < 255 * 2 ^ 23"
    and "(if float_magnitude a div 2 ^ 23 = 0 then of_nat (float_magnitude a mod 2 ^ 23) * 2 powi -149
      else of_nat (2 ^ 23 + float_magnitude a mod 2 ^ 23) * 2 powi (int (float_magnitude a div 2 ^ 23) - 150)) = a"
proof -
  define q m where "q = quantum a" and "m = \<lfloor>a / 2 powi q\<rfloor>"
  have r: "a = of_int m * 2 powi q" "0 < m" "m < 2 ^ 24" "q \<le> 104" "q = -149 \<or> 2 ^ 23 \<le> m"
    using assms by (auto simp: Let_def q_def m_def)
  have q: "-149 \<le> q" by (simp add: q_def quantum_def)
  have fm: "float_magnitude a = nat ((q + 149) * 2 ^ 23 + m)" using assms(2) by (simp add: float_magnitude_def q_def m_def)
  show "float_magnitude a < 255 * 2 ^ 23"
  proof -
    have "(q + 149) * 2 ^ 23 \<le> 253 * 2 ^ 23" using r(4) by (intro mult_right_mono) simp_all
    then show ?thesis using r(3) unfolding fm by (simp add: nat_less_iff)
  qed
  show "(if float_magnitude a div 2 ^ 23 = 0 then of_nat (float_magnitude a mod 2 ^ 23) * 2 powi -149
      else of_nat (2 ^ 23 + float_magnitude a mod 2 ^ 23) * 2 powi (int (float_magnitude a div 2 ^ 23) - 150)) = a"
  proof (cases "m < 2 ^ 23")
    case True
    then have "q = -149" using r(5) by simp
    obtain n where n: "m = int n" using r(2) by (metis zero_less_imp_eq_int)
    have "float_magnitude a = n" "n < 2 ^ 23" using True \<open>q = -149\<close> n by (simp_all add: fm)
    moreover have "a = of_nat n * 2 powi -149" using r(1) n \<open>q = -149\<close> by simp
    ultimately show ?thesis by (simp only: div_less mod_less simp_thms if_True)
  next
    case False
    define d where "d = nat (m - 2 ^ 23)"
    have d: "m = 2 ^ 23 + int d" "d < 2 ^ 23" using False r(3) by (simp_all add: d_def nat_less_iff)
    have "float_magnitude a = nat (q + 150) * 2 ^ 23 + d"
      using q d(1) unfolding fm by (simp add: nat_add_distrib nat_mult_distrib)
    then have "float_magnitude a div 2 ^ 23 = nat (q + 150)" "float_magnitude a mod 2 ^ 23 = d" using d(2) by simp_all
    then show ?thesis using q d(1) r(1) by simp
  qed
qed

lemma float_from_to_bits [simp]:
  assumes "representable x"
  shows "float_from_bits (float_to_bits x) = x"
proof (cases x)
  case (Fin r)
  show ?thesis
  proof (cases "r = 0")
    case True
    then show ?thesis using Fin by (simp add: float_from_bits_def float_magnitude_def)
  next
    case False
    then have rep: "representable (Fin \<bar>r\<bar>)" "0 < \<bar>r\<bar>" using assms Fin by simp_all
    define n where "n = float_magnitude \<bar>r\<bar>"
    note sp = float_magnitude_split [OF rep, folded n_def]
    have e: "n div 2 ^ 23 < 255" using sp(1) by (simp add: div_less_iff_less_mult)
    have small: "n < 2 ^ 31" using sp(1) by simp
    have bits: "unat (float_to_bits x) = (if r < 0 then 2 ^ 31 else 0) + n"
    proof -
      have "(if r < 0 then 2 ^ 31 else 0) + n < 2 ^ LENGTH(32)" using small by simp
      then show ?thesis unfolding Fin float_to_bits.simps n_def by (simp only: unat_of_nat mod_less)
    qed
    have "unat (float_to_bits x) mod 2 ^ 31 = n" "2 ^ 31 \<le> unat (float_to_bits x) \<longleftrightarrow> r < 0"
      using small unfolding bits by simp_all
    then show ?thesis using sp(2) e False Fin unfolding float_from_bits_def Let_def by (auto simp: abs_if)
  qed
qed (simp_all add: float_from_bits_def Let_def unat_of_nat)

section \<open>Characters\<close>

definition char_byte :: "char \<Rightarrow> u8" where "char_byte c = of_nat (of_char c)"
definition byte_char :: "u8 \<Rightarrow> char" where "byte_char b = char_of (unat b)"

lemma byte_char_byte [simp]: "byte_char (char_byte c) = c"
  by (simp add: byte_char_def char_byte_def unat_of_nat)

lemma char_byte_zero_iff: "char_byte c = 0 \<longleftrightarrow> c = CHR 0x00"
proof
  assume "char_byte c = 0"
  then have "char_of (0 :: nat) = c" using byte_char_byte [of c] by (simp add: byte_char_def)
  moreover have "char_of (0 :: nat) = CHR 0x00" by (rule char_of_eq_iff [THEN iffD2]) simp
  ultimately show "c = CHR 0x00" by simp
qed (simp add: char_byte_def)

end
