(* ===== verification/Transport.thy ===== *)
theory Transport
  imports Wire Decimal Core_Types
begin

text \<open>
  The synchronous transport (\<^verbatim>\<open>src/network/transport.cpp\<close>): frames of a four-byte big-endian length and a
  payload over a stream socket. What the kernel answers to the system calls is a parameter: a script
  with one entry per round of a loop. A loop that is still waiting when the script ends has no
  result.
\<close>

unbundle bit_operations_syntax

section \<open>The length header\<close>

definition encode_u32 :: "u32 \<Rightarrow> u8 list" where
  "encode_u32 val =
     [ucast (drop_bit 24 val AND 0xFF), ucast (drop_bit 16 val AND 0xFF),
      ucast (drop_bit 8 val AND 0xFF), ucast (val AND 0xFF)]"

definition decode_u32 :: "u8 list \<Rightarrow> u32" where
  "decode_u32 buf =
     push_bit 24 (ucast (buf ! 0)) OR push_bit 16 (ucast (buf ! 1)) OR
     push_bit 8 (ucast (buf ! 2)) OR ucast (buf ! 3)"

definition MAX_MESSAGE_SIZE :: nat where
  "MAX_MESSAGE_SIZE = 16 * 1024 * 1024"

section \<open>Sending and receiving all bytes\<close>

text \<open>
  One round of the send loop: \<^verbatim>\<open>poll\<close> gives up, \<^verbatim>\<open>send\<close> takes \<open>Suc n\<close> bytes or as many as are left,
  would block, or fails.
\<close>

datatype send_answer = SPollFails | SSome nat | SAgain | SFails

fun send_all :: "send_answer list \<Rightarrow> u8 list \<Rightarrow> u8 list \<Rightarrow> (bool \<times> u8 list \<times> send_answer list) option" where
  "send_all script [] wire = Some (True, wire, script)"
| "send_all [] (b # bs) wire = None"
| "send_all (SPollFails # script) (b # bs) wire = Some (False, wire, script)"
| "send_all (SFails # script) (b # bs) wire = Some (False, wire, script)"
| "send_all (SAgain # script) (b # bs) wire = send_all script (b # bs) wire"
| "send_all (SSome n # script) (b # bs) wire =
     send_all script (drop (Suc n) (b # bs)) (wire @ take (Suc n) (b # bs))"

text \<open>
  One round of the receive loop; \<open>RSome n\<close> delivers up to \<open>Suc n\<close> of the bytes that have arrived, and
  would block when there are none. \<open>RClosed\<close> is the end of the stream or an error.
\<close>

datatype recv_answer = RPollFails | RSome nat | RAgain | RClosed

fun recv_all ::
  "recv_answer list \<Rightarrow> nat \<Rightarrow> u8 list \<Rightarrow> u8 list \<Rightarrow> (bool \<times> u8 list \<times> u8 list \<times> recv_answer list) option" where
  "recv_all script 0 buf incoming = Some (True, buf, incoming, script)"
| "recv_all [] (Suc k) buf incoming = None"
| "recv_all (RPollFails # script) (Suc k) buf incoming = Some (False, buf, incoming, script)"
| "recv_all (RClosed # script) (Suc k) buf incoming = Some (False, buf, incoming, script)"
| "recv_all (RAgain # script) (Suc k) buf incoming = recv_all script (Suc k) buf incoming"
| "recv_all (RSome n # script) (Suc k) buf incoming =
     (let chunk = take (min (Suc n) (Suc k)) incoming
      in recv_all script (Suc k - length chunk) (buf @ chunk) (drop (length chunk) incoming))"

section \<open>Frames\<close>

text \<open>The result of a call, the bytes it put on the wire, and the rest of the script.\<close>

definition send_on_fd ::
  "send_answer list \<Rightarrow> u8 list \<Rightarrow> ((error, unit) result \<times> u8 list \<times> send_answer list) option" where
  "send_on_fd script data =
     (if length data > MAX_MESSAGE_SIZE then Some (Inl ''Message too large'', [], script)
      else case send_all script (encode_u32 (of_nat (length data))) [] of
        None \<Rightarrow> None
      | Some (False, wire, script') \<Rightarrow> Some (Inl ''Failed to send header'', wire, script')
      | Some (True, wire, script') \<Rightarrow>
          (if data = [] then Some (Inr (), wire, script')
           else case send_all script' data wire of
             None \<Rightarrow> None
           | Some (False, wire', script'') \<Rightarrow> Some (Inl ''Failed to send payload'', wire', script'')
           | Some (True, wire', script'') \<Rightarrow> Some (Inr (), wire', script'')))"

definition recv_on_fd ::
  "recv_answer list \<Rightarrow> u8 list \<Rightarrow> ((error, u8 list) result \<times> u8 list \<times> recv_answer list) option" where
  "recv_on_fd script incoming =
     (case recv_all script 4 [] incoming of
        None \<Rightarrow> None
      | Some (False, _, rest, script') \<Rightarrow> Some (Inl ''Failed to receive header'', rest, script')
      | Some (True, header, rest, script') \<Rightarrow>
          (let len = unat (decode_u32 header)
           in if len > MAX_MESSAGE_SIZE
              then Some (Inl (''Message too large: '' @ dec_string len @ '' bytes''), rest, script')
              else case recv_all script' len [] rest of
                None \<Rightarrow> None
              | Some (False, _, rest', script'') \<Rightarrow> Some (Inl ''Failed to receive payload'', rest', script'')
              | Some (True, payload, rest', script'') \<Rightarrow> Some (Inr payload, rest', script'')))"

section \<open>Connections\<close>

text \<open>
  Descriptors; \<open>open_fds\<close> is the kernel's table of what this process has open. A server thread has the
  flag of its stop token and is at the top of its loop, about to \<^verbatim>\<open>accept\<close>, serving a connection, or
  gone.
\<close>

datatype thread_pc = LoopTop | Accepting | Serving int | ThreadExited

record TcpTransport =
  client_fd :: int
  server_fd :: int
  serving :: bool
  server_threads :: "(bool \<times> thread_pc) list"
  open_fds :: "int list"

definition new_transport :: TcpTransport where
  "new_transport = \<lparr>client_fd = -1, server_fd = -1, serving = False, server_threads = [], open_fds = []\<rparr>"

definition close_fd :: "int \<Rightarrow> TcpTransport \<Rightarrow> TcpTransport" where
  "close_fd fd t = t\<lparr>open_fds := removeAll fd (open_fds t)\<rparr>"

text \<open>What the kernel answers to \<^verbatim>\<open>socket\<close>, \<^verbatim>\<open>inet_pton\<close>, \<^verbatim>\<open>connect\<close>, \<^verbatim>\<open>poll\<close> and \<^verbatim>\<open>getsockopt\<close>.\<close>

datatype connect_answer = CDone | CInProgress | CFailed string

record ConnectAnswers =
  ca_socket :: "string + int"
  ca_address_ok :: bool
  ca_connect :: connect_answer
  ca_poll_ready :: bool
  ca_so_error :: "string option"

definition transport_connect ::
  "ConnectAnswers \<Rightarrow> string \<Rightarrow> TcpTransport \<Rightarrow> (error, unit) result \<times> TcpTransport" where
  "transport_connect os address t =
     (if client_fd t \<ge> 0 then (Inl ''Already connected'', t)
      else case ca_socket os of
        Inl err \<Rightarrow> (Inl (''Failed to create socket: '' @ err), t\<lparr>client_fd := -1\<rparr>)
      | Inr fd \<Rightarrow>
          (let t1 = t\<lparr>client_fd := fd, open_fds := fd # open_fds t\<rparr>;
               failed = (close_fd fd t1)\<lparr>client_fd := -1\<rparr>
           in if \<not> ca_address_ok os then (Inl (''Invalid address: '' @ address), failed)
              else case ca_connect os of
                CFailed err \<Rightarrow> (Inl (''Connect failed: '' @ err), failed)
              | CDone \<Rightarrow> (Inr (), t1)
              | CInProgress \<Rightarrow>
                  (if \<not> ca_poll_ready os then (Inl ''Connect timed out'', failed)
                   else case ca_so_error os of
                     Some err \<Rightarrow> (Inl (''Connect failed: '' @ err), failed)
                   | None \<Rightarrow> (Inr (), t1))))"

definition transport_send ::
  "send_answer list \<Rightarrow> u8 list \<Rightarrow> TcpTransport \<Rightarrow> ((error, unit) result \<times> u8 list \<times> send_answer list) option" where
  "transport_send script data t =
     (if client_fd t < 0 then Some (Inl ''Not connected'', [], script) else send_on_fd script data)"

definition transport_receive ::
  "recv_answer list \<Rightarrow> u8 list \<Rightarrow> TcpTransport \<Rightarrow> ((error, u8 list) result \<times> u8 list \<times> recv_answer list) option" where
  "transport_receive script incoming t =
     (if client_fd t < 0 then Some (Inl ''Not connected'', incoming, script) else recv_on_fd script incoming)"

definition disconnect :: "TcpTransport \<Rightarrow> TcpTransport" where
  "disconnect t = (if client_fd t \<ge> 0 then (close_fd (client_fd t) t)\<lparr>client_fd := -1\<rparr> else t)"

record ListenAnswers =
  la_socket :: "string + int"
  la_bind :: "string option"
  la_listen :: "string option"

definition transport_listen :: "ListenAnswers \<Rightarrow> TcpTransport \<Rightarrow> (error, unit) result \<times> TcpTransport" where
  "transport_listen os t =
     (if server_fd t \<ge> 0 then (Inl ''Already listening'', t)
      else case la_socket os of
        Inl err \<Rightarrow> (Inl (''Failed to create server socket: '' @ err), t\<lparr>server_fd := -1\<rparr>)
      | Inr fd \<Rightarrow>
          (let t1 = t\<lparr>server_fd := fd, open_fds := fd # open_fds t\<rparr>;
               failed = (close_fd fd t1)\<lparr>server_fd := -1\<rparr>
           in case la_bind os of
                Some err \<Rightarrow> (Inl (''Bind failed: '' @ err), failed)
              | None \<Rightarrow>
                  (case la_listen os of
                     Some err \<Rightarrow> (Inl (''Listen failed: '' @ err), failed)
                   | None \<Rightarrow> (Inr (), t1))))"

definition request_stops :: "TcpTransport \<Rightarrow> (bool \<times> thread_pc) list" where
  "request_stops t = map (\<lambda>(_, pc). (True, pc)) (server_threads t)"

definition stop_serving :: "TcpTransport \<Rightarrow> TcpTransport" where
  "stop_serving t =
     (let t1 = t\<lparr>serving := False, server_threads := request_stops t\<rparr>
      in if server_fd t1 \<ge> 0 then (close_fd (server_fd t1) t1)\<lparr>server_fd := -1\<rparr> else t1)"

definition is_connected :: "TcpTransport \<Rightarrow> bool" where
  "is_connected t \<longleftrightarrow> client_fd t \<ge> 0"

definition is_listening :: "TcpTransport \<Rightarrow> bool" where
  "is_listening t \<longleftrightarrow> server_fd t \<ge> 0"

text \<open>The destructor, up to the join of the server thread, which the member does last.\<close>

definition transport_destroy :: "TcpTransport \<Rightarrow> TcpTransport" where
  "transport_destroy t =
     (let t1 = disconnect (stop_serving t)
      in if server_fd t1 \<ge> 0 then (close_fd (server_fd t1) t1)\<lparr>server_fd := -1\<rparr> else t1)"

text \<open>
  One accepted connection of the server thread: the request is read, handled and answered; the
  result is what the connection carried back.
\<close>

definition serve_connection ::
  "recv_answer list \<Rightarrow> send_answer list \<Rightarrow> (u8 list \<Rightarrow> u8 list) \<Rightarrow> u8 list \<Rightarrow> u8 list option" where
  "serve_connection rscript sscript handler incoming =
     (case recv_on_fd rscript incoming of
        None \<Rightarrow> None
      | Some (Inl _, _, _) \<Rightarrow> Some []
      | Some (Inr request, _, _) \<Rightarrow>
          map_option (\<lambda>(_, wire, _). wire) (send_on_fd sscript (handler request)))"

text \<open>A new server thread takes the place of an earlier one, whose token is set.\<close>

definition serve :: "TcpTransport \<Rightarrow> TcpTransport" where
  "serve t = (if server_fd t < 0 then t
     else t\<lparr>serving := True, server_threads := request_stops t @ [(False, LoopTop)]\<rparr>)"

text \<open>
  The steps of a server thread: the check of the loop with the \<^verbatim>\<open>poll\<close> after it, the answer of \<^verbatim>\<open>accept\<close>, and
  the end of a connection, when it has been read, handled and answered.
\<close>

datatype thread_event = Polled bool | AcceptAnswer "int option"
  | ConnectionDone "recv_answer list" "send_answer list" "u8 list \<Rightarrow> u8 list" "u8 list"

definition thread_step :: "nat \<Rightarrow> thread_event \<Rightarrow> TcpTransport \<Rightarrow> TcpTransport option" where
  "thread_step i ev t =
     (if i < length (server_threads t) then
        (case server_threads t ! i of (stop, pc) \<Rightarrow>
           let goto = (\<lambda>pc'. t\<lparr>server_threads := (server_threads t)[i := (stop, pc')]\<rparr>)
           in case (pc, ev) of
                (LoopTop, Polled is_ready) \<Rightarrow>
                  Some (goto (if stop \<or> \<not> serving t then ThreadExited else if is_ready then Accepting else LoopTop))
              | (Accepting, AcceptAnswer None) \<Rightarrow> Some (goto LoopTop)
              | (Accepting, AcceptAnswer (Some fd)) \<Rightarrow>
                  (if server_fd t < 0 then None else Some ((goto (Serving fd))\<lparr>open_fds := fd # open_fds t\<rparr>))
              | (Serving fd, ConnectionDone rs ss handler incoming) \<Rightarrow>
                  map_option (\<lambda>_. close_fd fd (goto LoopTop)) (serve_connection rs ss handler incoming)
              | _ \<Rightarrow> None)
      else None)"

section \<open>The header round trip\<close>

lemma byte_of_word: "ucast (ucast (w AND 0xFF :: u32) :: u8) = take_bit 8 w"
proof -
  have m: "(0xFF :: u32) = mask 8" by (simp add: mask_eq_exp_minus_1)
  show ?thesis unfolding m by (rule bit_word_eqI) (auto simp: bit_simps)
qed

lemma decode_encode_u32 [simp]: "decode_u32 (encode_u32 x) = x"
proof -
  have "decode_u32 (encode_u32 x) =
      push_bit 24 (take_bit 8 (drop_bit 24 x)) OR push_bit 16 (take_bit 8 (drop_bit 16 x)) OR
      push_bit 8 (take_bit 8 (drop_bit 8 x)) OR take_bit 8 x"
    by (simp add: decode_u32_def encode_u32_def byte_of_word)
  also have "\<dots> = x"
  proof (rule bit_word_eqI)
    fix n assume "n < LENGTH(32)"
    then consider "n < 8" | "8 \<le> n" "n < 16" | "16 \<le> n" "n < 24" | "24 \<le> n" "n < 32" by fastforce
    then show "bit (push_bit 24 (take_bit 8 (drop_bit 24 x)) OR push_bit 16 (take_bit 8 (drop_bit 16 x)) OR
        push_bit 8 (take_bit 8 (drop_bit 8 x)) OR take_bit 8 x) n \<longleftrightarrow> bit x n"
      by cases (auto simp: bit_simps)
  qed
  finally show ?thesis .
qed

lemma length_encode_u32 [simp]: "length (encode_u32 x) = 4"
  by (simp add: encode_u32_def)

section \<open>The byte loops\<close>

text \<open>A script without failures, and how many of its rounds move bytes.\<close>

definition send_healthy :: "send_answer list \<Rightarrow> bool" where
  "send_healthy script \<longleftrightarrow> SPollFails \<notin> set script \<and> SFails \<notin> set script"

fun send_progress :: "send_answer list \<Rightarrow> nat" where
  "send_progress [] = 0"
| "send_progress (SSome n # script) = Suc (send_progress script)"
| "send_progress (_ # script) = send_progress script"

definition recv_healthy :: "recv_answer list \<Rightarrow> bool" where
  "recv_healthy script \<longleftrightarrow> RPollFails \<notin> set script \<and> RClosed \<notin> set script"

fun recv_progress :: "recv_answer list \<Rightarrow> nat" where
  "recv_progress [] = 0"
| "recv_progress (RSome n # script) = Suc (recv_progress script)"
| "recv_progress (_ # script) = recv_progress script"

text \<open>Whatever the loop sent is a prefix of the data, and all of it if the loop reports success.\<close>

lemma send_all_prefix:
  "send_all script data wire = Some (ok, wire', script') \<Longrightarrow>
     \<exists>sent rest. wire' = wire @ sent \<and> data = sent @ rest \<and> (ok \<longrightarrow> rest = [])"
proof (induction script data wire rule: send_all.induct)
  case (6 n script b bs wire)
  then obtain sent rest where r: "wire' = (wire @ take (Suc n) (b # bs)) @ sent" "drop (Suc n) (b # bs) = sent @ rest" "ok \<longrightarrow> rest = []"
    by auto
  have "b # bs = take (Suc n) (b # bs) @ drop (Suc n) (b # bs)" by (rule append_take_drop_id [symmetric])
  then have "b # bs = (take (Suc n) (b # bs) @ sent) @ rest" unfolding r(2) by (simp only: append_assoc)
  with r(1,3) show ?case by (metis append_assoc)
qed auto

lemma send_all_completes:
  "send_healthy script \<Longrightarrow> length data \<le> send_progress script \<Longrightarrow>
     \<exists>script'. send_all script data wire = Some (True, wire @ data, script') \<and> send_healthy script' \<and>
       send_progress script \<le> send_progress script' + length data"
proof (induction script data wire rule: send_all.induct)
  case (6 n script b bs wire)
  have "length (drop n bs) \<le> send_progress script" using 6(3) by simp
  then obtain script' where s: "send_all script (drop n bs) (wire @ b # take n bs) = Some (True, (wire @ b # take n bs) @ drop n bs, script')"
    "send_healthy script'" "send_progress script \<le> send_progress script' + length (drop n bs)"
    using 6 by (auto simp: send_healthy_def)
  then show ?case by (intro exI [of _ script']) simp
qed (auto simp: send_healthy_def)

lemma recv_all_completes:
  "recv_healthy script \<Longrightarrow> k \<le> recv_progress script \<Longrightarrow> k \<le> length incoming \<Longrightarrow>
     \<exists>script'. recv_all script k buf incoming = Some (True, buf @ take k incoming, drop k incoming, script') \<and>
       recv_healthy script' \<and> recv_progress script \<le> recv_progress script' + k"
proof (induction script k buf incoming rule: recv_all.induct)
  case (6 n script k buf incoming)
  define c where "c = min (Suc n) (Suc k)"
  have c: "0 < c" "c \<le> Suc k" "length (take c incoming) = c" using 6(4) by (auto simp: c_def)
  note IH = 6(1) [OF refl, folded c_def, unfolded c(3)]
  have "recv_healthy script" "Suc k - c \<le> recv_progress script" "Suc k - c \<le> length (drop c incoming)"
    using 6(2,3,4) c by (simp_all add: recv_healthy_def)
  from IH [OF this] obtain script' where s: "recv_all script (Suc k - c) (buf @ take c incoming) (drop c incoming) =
      Some (True, (buf @ take c incoming) @ take (Suc k - c) (drop c incoming), drop (Suc k - c) (drop c incoming), script')"
    "recv_healthy script'" "recv_progress script \<le> recv_progress script' + (Suc k - c)"
    by blast
  have "take c incoming @ take (Suc k - c) (drop c incoming) = take (Suc k) incoming"
    using c(2) by (metis le_add_diff_inverse take_add)
  then have "recv_all (RSome n # script) (Suc k) buf incoming = Some (True, buf @ take (Suc k) incoming, drop (Suc k) incoming, script')"
    unfolding recv_all.simps Let_def c_def [symmetric] c(3) using s(1) c(2) by simp
  then show ?case using s(2,3) c(1) by (intro exI [of _ script']) simp
qed (auto simp: recv_healthy_def)

definition frame :: "u8 list \<Rightarrow> u8 list" where
  "frame data = encode_u32 (of_nat (length data)) @ data"

lemma send_frame:
  assumes "length data \<le> MAX_MESSAGE_SIZE" "send_healthy ss" "4 + length data \<le> send_progress ss"
  shows "\<exists>ss'. send_on_fd ss data = Some (Inr (), frame data, ss')"
proof -
  let ?h = "encode_u32 (of_nat (length data))"
  obtain s1 where s1: "send_all ss ?h [] = Some (True, ?h, s1)" "send_healthy s1" "send_progress ss \<le> send_progress s1 + 4"
    using send_all_completes [of ss ?h "[]"] assms(2,3) by auto
  obtain s2 where s2: "send_all s1 data ?h = Some (True, ?h @ data, s2)"
    using send_all_completes [OF s1(2), of data ?h] assms(3) s1(3) by auto
  show ?thesis using assms(1) s1(1) s2 by (cases "data = []") (auto simp: send_on_fd_def frame_def)
qed

lemma recv_frame:
  assumes "length data \<le> MAX_MESSAGE_SIZE" "recv_healthy rs" "4 + length data \<le> recv_progress rs"
  shows "\<exists>rs'. recv_on_fd rs (frame data @ rest) = Some (Inr data, rest, rs')"
proof -
  let ?h = "encode_u32 (of_nat (length data))"
  have len: "unat (of_nat (length data) :: u32) = length data"
    using assms(1) by (simp add: unat_of_nat MAX_MESSAGE_SIZE_def)
  obtain r1 where r1: "recv_all rs 4 [] (?h @ data @ rest) = Some (True, ?h, data @ rest, r1)" "recv_healthy r1"
    "recv_progress rs \<le> recv_progress r1 + 4"
    using recv_all_completes [of rs 4 "?h @ data @ rest" "[]"] assms(2,3) by auto
  obtain r2 where "recv_all r1 (length data) [] (data @ rest) = Some (True, data, rest, r2)"
    using recv_all_completes [OF r1(2), of "length data" "data @ rest" "[]"] r1(3) assms(3) by auto
  then show ?thesis
    using r1(1) assms(1) by (simp add: recv_on_fd_def len Let_def frame_def)
qed

section \<open>Properties\<close>

text \<open>
  C31. A call survives the stream: however the kernel splits the bytes in both directions, a request
  within the size limit reaches the handler of the serving node unchanged, and the client receives
  exactly the handler's answer and leaves what follows it on the stream untouched.
\<close>

theorem call_roundtrip:
  assumes "length request \<le> MAX_MESSAGE_SIZE" "length (handler request) \<le> MAX_MESSAGE_SIZE"
    and "send_healthy cs" "4 + length request \<le> send_progress cs"
    and "recv_healthy sr" "4 + length request \<le> recv_progress sr"
    and "send_healthy ss" "4 + length (handler request) \<le> send_progress ss"
    and "recv_healthy cr" "4 + length (handler request) \<le> recv_progress cr"
  shows "\<exists>sent answer cs' cr'. send_on_fd cs request = Some (Inr (), sent, cs') \<and>
    serve_connection sr ss handler sent = Some answer \<and>
    recv_on_fd cr (answer @ rest) = Some (Inr (handler request), rest, cr')"
  using send_frame [OF assms(1,3,4)] recv_frame [OF assms(1,5,6), of "[]"]
    send_frame [OF assms(2,7,8)] recv_frame [OF assms(2,9,10), of rest]
  by (auto simp: serve_connection_def)

definition sample_sends :: "send_answer list" where
  "sample_sends = [SSome 1, SSome 1, SAgain, SSome 0, SSome 0, SSome 0, SSome 0, SSome 0]"

definition sample_recvs :: "recv_answer list" where
  "sample_recvs = [RAgain, RSome 0, RSome 1, RSome 0, RSome 2, RSome 0, RSome 0, RSome 0]"

theorem call_roundtrip_witness:
  "\<exists>sent answer cs' cr'. send_on_fd sample_sends [1, 2, 3] = Some (Inr (), sent, cs') \<and>
    serve_connection sample_recvs sample_sends rev sent = Some answer \<and>
    recv_on_fd sample_recvs (answer @ [9]) = Some (Inr [3, 2, 1], [9], cr')"
  using call_roundtrip [of "[1, 2, 3]" rev sample_sends sample_recvs sample_sends sample_recvs "[9]"]
  by (simp add: MAX_MESSAGE_SIZE_def send_healthy_def recv_healthy_def sample_sends_def sample_recvs_def)

text \<open>
  Oversized frames are refused on both sides: nothing is sent for a message above the limit, and a
  receiver that sees a larger length stops after the header, before it reserves or reads a payload.
\<close>

theorem oversize_rejected:
  assumes "MAX_MESSAGE_SIZE < length data" "MAX_MESSAGE_SIZE < unat n"
    and "recv_healthy rs" "4 \<le> recv_progress rs"
  shows "send_on_fd ss data = Some (Inl ''Message too large'', [], ss) \<and>
    (\<exists>rs'. recv_on_fd rs (encode_u32 n @ rest) =
       Some (Inl (''Message too large: '' @ dec_string (unat n) @ '' bytes''), rest, rs'))"
  using recv_all_completes [OF assms(3,4), of "encode_u32 n @ rest" "[]"] assms(1,2)
  by (auto simp: send_on_fd_def recv_on_fd_def Let_def)

theorem oversize_rejected_witness:
  "\<exists>rs'. recv_on_fd sample_recvs (encode_u32 0x7FFFFFFF @ [9]) =
     Some (Inl (''Message too large: '' @ dec_string 2147483647 @ '' bytes''), [9], rs')"
  using oversize_rejected [of "replicate (Suc MAX_MESSAGE_SIZE) 0" "0x7FFFFFFF" sample_recvs "[]" "[9]"]
  by (simp add: MAX_MESSAGE_SIZE_def recv_healthy_def sample_recvs_def)

text \<open>
  The calls on the object and the steps of its server threads, in any order; a new descriptor is
  non-negative and not in use.
\<close>

datatype transport_op = Connect ConnectAnswers string | Listen ListenAnswers | Disconnect | Serve
  | Thread nat thread_event | StopServing

definition fresh_fd :: "int \<Rightarrow> TcpTransport \<Rightarrow> bool" where
  "fresh_fd fd t \<longleftrightarrow> 0 \<le> fd \<and> fd \<notin> set (open_fds t)"

fun fresh_answer :: "transport_op \<Rightarrow> TcpTransport \<Rightarrow> bool" where
  "fresh_answer (Connect os a) t \<longleftrightarrow> (case ca_socket os of Inl _ \<Rightarrow> True | Inr fd \<Rightarrow> fresh_fd fd t)"
| "fresh_answer (Listen os) t \<longleftrightarrow> (case la_socket os of Inl _ \<Rightarrow> True | Inr fd \<Rightarrow> fresh_fd fd t)"
| "fresh_answer (Thread i ev) t \<longleftrightarrow> (case ev of AcceptAnswer (Some fd) \<Rightarrow> fresh_fd fd t | _ \<Rightarrow> True)"
| "fresh_answer _ t \<longleftrightarrow> True"

fun run_transport_op :: "transport_op \<Rightarrow> TcpTransport \<Rightarrow> TcpTransport option" where
  "run_transport_op (Connect os a) t = Some (snd (transport_connect os a t))"
| "run_transport_op (Listen os) t = Some (snd (transport_listen os t))"
| "run_transport_op Disconnect t = Some (disconnect t)"
| "run_transport_op Serve t = Some (serve t)"
| "run_transport_op (Thread i ev) t = thread_step i ev t"
| "run_transport_op StopServing t = Some (stop_serving t)"

fun run_transport :: "transport_op list \<Rightarrow> TcpTransport \<Rightarrow> TcpTransport option" where
  "run_transport [] t = Some t"
| "run_transport (op # ops) t =
     (if fresh_answer op t then case run_transport_op op t of None \<Rightarrow> None | Some u \<Rightarrow> run_transport ops u else None)"

text \<open>The connections in progress.\<close>

definition connections :: "TcpTransport \<Rightarrow> int set" where
  "connections t = {fd. \<exists>stop. (stop, Serving fd) \<in> set (server_threads t)}"

definition conn_at :: "TcpTransport \<Rightarrow> nat \<Rightarrow> int \<Rightarrow> bool" where
  "conn_at t i fd \<longleftrightarrow> i < length (server_threads t) \<and> snd (server_threads t ! i) = Serving fd"

lemma connections_at: "fd \<in> connections t \<longleftrightarrow> (\<exists>i. conn_at t i fd)"
  unfolding connections_def conn_at_def in_set_conv_nth mem_Collect_eq by (metis prod.collapse snd_conv)

definition fds_inv :: "TcpTransport \<Rightarrow> bool" where
  "fds_inv t \<longleftrightarrow>
     (\<forall>fd. fd \<in> set (open_fds t) \<longleftrightarrow> 0 \<le> fd \<and> (fd = client_fd t \<or> fd = server_fd t \<or> fd \<in> connections t)) \<and>
     (0 \<le> client_fd t \<longrightarrow> client_fd t \<noteq> server_fd t) \<and>
     (\<forall>i fd. conn_at t i fd \<longrightarrow> 0 \<le> fd \<and> fd \<noteq> client_fd t \<and> fd \<noteq> server_fd t) \<and>
     (\<forall>i j fd. conn_at t i fd \<longrightarrow> conn_at t j fd \<longrightarrow> i = j)"

lemmas transport_defs = serve_def transport_connect_def transport_listen_def disconnect_def stop_serving_def close_fd_def Let_def

lemma conn_at_fields [simp]:
  "conn_at (t\<lparr>client_fd := c\<rparr>) i fd = conn_at t i fd" "conn_at (t\<lparr>server_fd := c\<rparr>) i fd = conn_at t i fd"
  "conn_at (t\<lparr>serving := b\<rparr>) i fd = conn_at t i fd" "conn_at (t\<lparr>open_fds := fds\<rparr>) i fd = conn_at t i fd"
  by (simp_all add: conn_at_def)

lemma fds_inv_client:
  assumes "fds_inv t" "\<not> 0 \<le> client_fd t"
  shows "fds_inv (t\<lparr>client_fd := -1\<rparr>)"
    and "0 \<le> fd \<Longrightarrow> fd \<notin> set (open_fds t) \<Longrightarrow> fds_inv (t\<lparr>client_fd := fd, open_fds := fd # open_fds t\<rparr>)"
    and "fd \<notin> set (open_fds t) \<Longrightarrow>
      fds_inv ((close_fd fd (t\<lparr>client_fd := fd, open_fds := fd # open_fds t\<rparr>))\<lparr>client_fd := -1\<rparr>)"
  using assms unfolding fds_inv_def close_fd_def connections_at by force+

lemma fds_inv_server:
  assumes "fds_inv t" "\<not> 0 \<le> server_fd t"
  shows "fds_inv (t\<lparr>server_fd := -1\<rparr>)"
    and "0 \<le> fd \<Longrightarrow> fd \<notin> set (open_fds t) \<Longrightarrow> fds_inv (t\<lparr>server_fd := fd, open_fds := fd # open_fds t\<rparr>)"
    and "fd \<notin> set (open_fds t) \<Longrightarrow>
      fds_inv ((close_fd fd (t\<lparr>server_fd := fd, open_fds := fd # open_fds t\<rparr>))\<lparr>server_fd := -1\<rparr>)"
  using assms unfolding fds_inv_def close_fd_def connections_at by force+

lemma fds_inv_connect:
  assumes "fds_inv t" "fresh_answer (Connect os a) t"
  shows "fds_inv (snd (transport_connect os a t))"
proof (cases "0 \<le> client_fd t")
  case False
  note c = fds_inv_client [OF assms(1) False]
  show ?thesis
  proof (cases "ca_socket os")
    case (Inr fd)
    then have "fds_inv (t\<lparr>client_fd := fd, open_fds := fd # open_fds t\<rparr>)"
      "fds_inv ((close_fd fd (t\<lparr>client_fd := fd, open_fds := fd # open_fds t\<rparr>))\<lparr>client_fd := -1\<rparr>)"
      using assms(2) c(2,3) by (simp_all add: fresh_fd_def)
    then show ?thesis
      using False Inr unfolding transport_connect_def Let_def
      by (simp split: connect_answer.splits option.splits)
  qed (use False c(1) in \<open>simp add: transport_connect_def\<close>)
qed (use assms in \<open>simp add: transport_connect_def\<close>)

lemma fds_inv_listen:
  assumes "fds_inv t" "fresh_answer (Listen os) t"
  shows "fds_inv (snd (transport_listen os t))"
proof (cases "0 \<le> server_fd t")
  case False
  note c = fds_inv_server [OF assms(1) False]
  show ?thesis
  proof (cases "la_socket os")
    case (Inr fd)
    then have "fds_inv (t\<lparr>server_fd := fd, open_fds := fd # open_fds t\<rparr>)"
      "fds_inv ((close_fd fd (t\<lparr>server_fd := fd, open_fds := fd # open_fds t\<rparr>))\<lparr>server_fd := -1\<rparr>)"
      using assms(2) c(2,3) by (simp_all add: fresh_fd_def)
    then show ?thesis
      using False Inr unfolding transport_listen_def Let_def by (simp split: option.splits)
  qed (use False c(1) in \<open>simp add: transport_listen_def\<close>)
qed (use assms in \<open>simp add: transport_listen_def\<close>)

lemma fds_inv_disconnect: "fds_inv t \<Longrightarrow> fds_inv (disconnect t)"
  unfolding fds_inv_def connections_at by (force simp: disconnect_def close_fd_def)

lemma conn_at_stops [simp]: "conn_at (t\<lparr>serving := b, server_threads := request_stops t\<rparr>) i fd = conn_at t i fd"
  by (auto simp: conn_at_def request_stops_def split: prod.splits)

lemma conn_at_new [simp]: "conn_at (t\<lparr>serving := b, server_threads := request_stops t @ [(False, LoopTop)]\<rparr>) i fd = conn_at t i fd"
  by (auto simp: conn_at_def request_stops_def nth_append less_Suc_eq split: prod.splits)

lemma fds_inv_serve: "fds_inv t \<Longrightarrow> fds_inv (serve t)"
  unfolding fds_inv_def connections_at by (simp add: serve_def)

lemma fds_inv_stop:
  assumes "fds_inv t"
  shows "fds_inv (stop_serving t)"
proof -
  define u where "u = t\<lparr>serving := False, server_threads := request_stops t\<rparr>"
  have u: "fds_inv u" using assms unfolding u_def fds_inv_def connections_at by simp
  have "stop_serving t = (if 0 \<le> server_fd u then (close_fd (server_fd u) u)\<lparr>server_fd := -1\<rparr> else u)"
    by (simp add: stop_serving_def u_def)
  then show ?thesis using u unfolding fds_inv_def connections_at by (force simp: close_fd_def)
qed

text \<open>What a step of a thread does to the connections.\<close>

lemma conn_at_goto:
  "i < length (server_threads t) \<Longrightarrow>
     conn_at (t\<lparr>server_threads := (server_threads t)[i := (stop, pc)]\<rparr>) k fd = (if k = i then pc = Serving fd else conn_at t k fd)"
  by (auto simp: conn_at_def)

lemma fds_inv_thread:
  assumes "fds_inv t" "fresh_answer (Thread i ev) t" "thread_step i ev t = Some u"
  shows "fds_inv u"
proof -
  obtain stop pc where th: "i < length (server_threads t)" "server_threads t ! i = (stop, pc)"
    using assms(3) by (cases "server_threads t ! i") (auto simp: thread_step_def split: if_splits)
  let ?goto = "\<lambda>pc'. t\<lparr>server_threads := (server_threads t)[i := (stop, pc')]\<rparr>"
  have at: "conn_at (?goto pc') k fd = (if k = i then pc' = Serving fd else conn_at t k fd)" for pc' k fd
    using th(1) by (rule conn_at_goto)
  have here: "conn_at t i fd \<longleftrightarrow> pc = Serving fd" for fd using th by (simp add: conn_at_def)
  have quiet: "fds_inv (?goto pc')" if "\<forall>fd. pc \<noteq> Serving fd" "\<forall>fd. pc' \<noteq> Serving fd" for pc'
  proof -
    have "conn_at (?goto pc') k fd = conn_at t k fd" for k fd using that here by (auto simp: at)
    then show ?thesis using assms(1) unfolding fds_inv_def connections_at by simp
  qed
  consider (idle) pc' where "u = ?goto pc'" "\<forall>fd. pc \<noteq> Serving fd" "\<forall>fd. pc' \<noteq> Serving fd"
    | (accept) fd where "pc = Accepting" "fresh_fd fd t" "u = (?goto (Serving fd))\<lparr>open_fds := fd # open_fds t\<rparr>"
    | (finish) fd where "pc = Serving fd" "u = close_fd fd (?goto LoopTop)"
    using assms(2,3) th by (cases pc; cases ev) (auto simp: thread_step_def Let_def split: if_splits option.splits)
  then show ?thesis
  proof cases
    case idle
    then show ?thesis using quiet by blast
  next
    case (accept fd)
    have u: "conn_at u k x \<longleftrightarrow> (if k = i then x = fd else conn_at t k x)" for k x unfolding accept(3) by (auto simp: at)
    have none: "\<not> conn_at t i x" for x using here accept(1) by simp
    then have ex: "(\<exists>k. conn_at u k x) \<longleftrightarrow> x = fd \<or> (\<exists>k. conn_at t k x)" for x unfolding u by metis
    have f: "set (open_fds u) = insert fd (set (open_fds t))" "client_fd u = client_fd t" "server_fd u = server_fd t" by (simp_all add: accept(3))
    have new: "0 \<le> fd" "fd \<notin> set (open_fds t)" using accept(2) by (simp_all add: fresh_fd_def)
    show ?thesis using assms(1) none new unfolding fds_inv_def connections_at ex f unfolding u by auto
  next
    case (finish fd)
    have u: "conn_at u k x \<longleftrightarrow> k \<noteq> i \<and> conn_at t k x" for k x unfolding finish(2) close_fd_def by (simp add: at)
    have own: "conn_at t i x \<longleftrightarrow> x = fd" for x using here finish(1) by auto
    have one: "conn_at t k fd \<longleftrightarrow> k = i" for k using assms(1) own unfolding fds_inv_def by blast
    then have ex: "(\<exists>k. conn_at u k x) \<longleftrightarrow> x \<noteq> fd \<and> (\<exists>k. conn_at t k x)" for x unfolding u using own by metis
    have f: "set (open_fds u) = set (open_fds t) - {fd}" "client_fd u = client_fd t" "server_fd u = server_fd t"
      by (simp_all add: finish(2) close_fd_def)
    show ?thesis using assms(1) own unfolding fds_inv_def connections_at ex f unfolding u by auto
  qed
qed

lemma fds_inv_op:
  assumes "fds_inv t" "fresh_answer op t" "run_transport_op op t = Some u"
  shows "fds_inv u"
  using assms
  by (cases op) (auto simp only: run_transport_op.simps option.inject fds_inv_connect fds_inv_listen fds_inv_disconnect fds_inv_serve fds_inv_stop
      intro: fds_inv_thread)

lemma run_transport_inv: "run_transport ops u = Some t \<Longrightarrow> fds_inv u \<Longrightarrow> fds_inv t"
  by (induction ops arbitrary: u) (auto split: if_splits option.splits intro: fds_inv_op)

lemma destroyed:
  assumes "fds_inv t"
  shows "fds_inv (transport_destroy t)" "\<not> 0 \<le> client_fd (transport_destroy t)" "\<not> 0 \<le> server_fd (transport_destroy t)"
    "connections (transport_destroy t) = connections t"
proof -
  let ?d = "disconnect (stop_serving t)"
  have d: "\<not> 0 \<le> client_fd ?d" "\<not> 0 \<le> server_fd ?d" "connections ?d = connections t"
    by (auto simp: disconnect_def stop_serving_def close_fd_def connections_def request_stops_def Let_def)
  then have "transport_destroy t = ?d" by (simp add: transport_destroy_def Let_def)
  then show "fds_inv (transport_destroy t)" "\<not> 0 \<le> client_fd (transport_destroy t)" "\<not> 0 \<le> server_fd (transport_destroy t)"
    "connections (transport_destroy t) = connections t"
    using d assms by (simp_all add: fds_inv_disconnect fds_inv_stop)
qed

text \<open>Steps of the server threads leave the two descriptors of the object alone.\<close>

lemma run_threads_fds:
  "run_transport ops u = Some t \<Longrightarrow> (\<forall>op \<in> set ops. \<exists>i ev. op = Thread i ev) \<Longrightarrow> client_fd t = client_fd u \<and> server_fd t = server_fd u"
proof (induction ops arbitrary: u)
  case (Cons op ops)
  then obtain i ev v where "op = Thread i ev" "thread_step i ev u = Some v" "run_transport ops v = Some t"
    by (auto split: if_splits option.splits)
  moreover from this(2) have "client_fd v = client_fd u \<and> server_fd v = server_fd u"
    by (auto simp: thread_step_def close_fd_def Let_def split: if_splits prod.splits thread_pc.splits thread_event.splits option.splits)
  ultimately show ?case using Cons by simp
qed simp

text \<open>
  C32. No descriptor leaks, on any path: after every sequence of calls, failed ones included, interleaved
  in any way with the steps of the server threads, exactly the descriptors the object holds and those
  of the connections in progress are open. The destructor closes all but the latter, and once the
  server threads it waits for have ended, none is open.
\<close>

theorem transport_no_leak:
  assumes "run_transport ops new_transport = Some t"
  shows "set (open_fds t) = {fd. 0 \<le> fd \<and> (fd = client_fd t \<or> fd = server_fd t)} \<union> connections t \<and>
    set (open_fds (transport_destroy t)) = connections t \<and>
    (\<forall>steps t'. run_transport steps (transport_destroy t) = Some t' \<and> (\<forall>op \<in> set steps. \<exists>i ev. op = Thread i ev) \<and>
      (\<forall>th \<in> set (server_threads t'). snd th = ThreadExited) \<longrightarrow> open_fds t' = [])"
proof -
  have inv: "fds_inv t" by (rule run_transport_inv [OF assms]) (simp add: fds_inv_def new_transport_def connections_def conn_at_def)
  have set_open: "set (open_fds u) = {fd. 0 \<le> fd \<and> (fd = client_fd u \<or> fd = server_fd u)} \<union> connections u" if "fds_inv u" for u
  proof (rule set_eqI)
    fix fd
    have "fd \<in> connections u \<Longrightarrow> 0 \<le> fd" using that by (auto simp: fds_inv_def connections_at)
    moreover have "fd \<in> set (open_fds u) \<longleftrightarrow> 0 \<le> fd \<and> (fd = client_fd u \<or> fd = server_fd u \<or> fd \<in> connections u)"
      using that by (simp add: fds_inv_def)
    ultimately show "fd \<in> set (open_fds u) \<longleftrightarrow> fd \<in> {fd. 0 \<le> fd \<and> (fd = client_fd u \<or> fd = server_fd u)} \<union> connections u" by blast
  qed
  note d = destroyed [OF inv]
  have "set (open_fds t') = {}" if "run_transport steps (transport_destroy t) = Some t'" "\<forall>op \<in> set steps. \<exists>i ev. op = Thread i ev"
    "\<forall>th \<in> set (server_threads t'). snd th = ThreadExited" for steps t'
    using set_open [OF run_transport_inv [OF that(1) d(1)]] run_threads_fds [OF that(1,2)] d(2,3) that(3)
    by (auto simp: connections_def)
  then show ?thesis using set_open [OF inv] set_open [OF d(1)] d(2-4) by auto
qed

definition sample_transport_ops :: "transport_op list" where
  "sample_transport_ops =
     [Connect \<lparr>ca_socket = Inr 5, ca_address_ok = True, ca_connect = CInProgress, ca_poll_ready = False, ca_so_error = None\<rparr> ''10.0.0.1'',
      Listen \<lparr>la_socket = Inr 5, la_bind = None, la_listen = None\<rparr>, Serve, Thread 0 (Polled True), Thread 0 (AcceptAnswer (Some 7)),
      Connect \<lparr>ca_socket = Inr 6, ca_address_ok = True, ca_connect = CInProgress, ca_poll_ready = True, ca_so_error = None\<rparr> ''10.0.0.1'']"

definition sample_transport :: TcpTransport where
  "sample_transport = \<lparr>client_fd = 6, server_fd = 5, serving = True, server_threads = [(False, Serving 7)], open_fds = [6, 7, 5]\<rparr>"

definition sample_thread_ops :: "transport_op list" where
  "sample_thread_ops = [Thread 0 (ConnectionDone [RClosed] [] rev []), Thread 0 (Polled False)]"

theorem transport_no_leak_witness:
  "run_transport sample_transport_ops new_transport = Some sample_transport \<and> set (open_fds (transport_destroy sample_transport)) = {7} \<and>
   (\<exists>t'. run_transport sample_thread_ops (transport_destroy sample_transport) = Some t' \<and> open_fds t' = [])"
proof -
  have run: "run_transport sample_transport_ops new_transport = Some sample_transport"
    by (simp add: sample_transport_ops_def sample_transport_def new_transport_def transport_defs fresh_fd_def thread_step_def request_stops_def)
  moreover have "\<exists>t'. run_transport sample_thread_ops (transport_destroy sample_transport) = Some t' \<and> (\<forall>th \<in> set (server_threads t'). snd th = ThreadExited)"
    by (simp add: sample_thread_ops_def sample_transport_def transport_destroy_def transport_defs thread_step_def request_stops_def
        serve_connection_def recv_on_fd_def numeral_eq_Suc)
  moreover have "\<forall>op \<in> set sample_thread_ops. \<exists>i ev. op = Thread i ev" by (simp add: sample_thread_ops_def)
  moreover have "connections sample_transport = {7}" by (auto simp: connections_def sample_transport_def)
  ultimately show ?thesis using transport_no_leak [OF run] by (intro conjI) (blast+)
qed

end
