(* ===== verification/Scheduler.thy ===== *)
theory Scheduler
  imports Dag_Metrics Dag_Ready
begin

text \<open>
  The vocabulary of scheduling (\<^verbatim>\<open>src/scheduler/scheduler.hpp\<close>, \<^verbatim>\<open>src/scheduler/cluster_view.cpp\<close>),
  the interface \<^verbatim>\<open>ISchedulingPolicy\<close> as a locale with the contract every policy keeps, and the
  best-candidate scan that the policies share.
\<close>

section \<open>Data\<close>

record PeerInfo =
  p_node_id :: NodeId
  p_resources :: ResourceSnapshot
  p_address :: string
  p_tcp_port :: u16
  p_reachable :: bool

record ClusterView =
  peers :: "PeerInfo list"

datatype Reason = LocalCapacity | LeastLoaded | ThresholdOffload | OptimizationResult | Fallback

record SchedulingDecision =
  d_task_id :: TaskId
  assigned_node :: NodeId
  reason :: Reason

record SchedulingPlan =
  decisions :: "SchedulingDecision list"
  estimated_makespan :: Duration
  computed_at :: Timestamp

text \<open>
  What a policy takes from its environment: the traversal order of hash maps, the clock,
  \<^verbatim>\<open>std::sort\<close>, and the random engine with its integer distribution. The engine's state is coded
  as a number; a draw returns a value up to the given bound and the next state.
\<close>

record SchedEnv =
  env_order :: order
  env_now :: Timestamp
  env_sort :: "(TaskId \<Rightarrow> TaskId \<Rightarrow> bool) \<Rightarrow> TaskId list \<Rightarrow> TaskId list"
  env_seed :: "nat \<Rightarrow> nat"
  env_uniform :: "nat \<Rightarrow> nat \<Rightarrow> nat \<times> nat"

definition env_ok :: "SchedEnv \<Rightarrow> bool" where
  "env_ok e \<longleftrightarrow> order_ok (env_order e) \<and> (\<forall>lt xs. mset (env_sort e lt xs) = mset xs) \<and>
     (\<forall>g hi. fst (env_uniform e g hi) \<le> hi)"

lemma env_okD:
  assumes "env_ok e"
  shows "order_ok (env_order e)" "mset (env_sort e lt xs) = mset xs" "fst (env_uniform e g hi) \<le> hi"
  using assms by (auto simp: env_ok_def)

section \<open>Cluster view\<close>

definition available_count :: "ClusterView \<Rightarrow> nat" where
  "available_count c = length (filter p_reachable (peers c))"

fun least_loaded_loop :: "PeerInfo list \<Rightarrow> f32 \<Rightarrow> NodeId \<Rightarrow> NodeId" where
  "least_loaded_loop [] min_load best = best"
| "least_loaded_loop (peer # rest) min_load best =
     (if \<not> p_reachable peer then least_loaded_loop rest min_load best
      else if f32_less (cpu_usage_percent (p_resources peer)) min_load
      then least_loaded_loop rest (cpu_usage_percent (p_resources peer)) (p_node_id peer)
      else least_loaded_loop rest min_load best)"

definition least_loaded_peer :: "ClusterView \<Rightarrow> NodeId" where
  "least_loaded_peer c = least_loaded_loop (peers c) f32_max_value []"

section \<open>The best-candidate scan\<close>

text \<open>
  The policies pick a node by one loop over the indices: it remembers the best key seen and its
  index, and replaces them when an admissible candidate has a strictly better key.
\<close>

definition scan_step ::
  "(nat \<Rightarrow> bool) \<Rightarrow> ('k \<Rightarrow> 'k \<Rightarrow> bool) \<Rightarrow> (nat \<Rightarrow> 'k) \<Rightarrow> nat \<Rightarrow> 'k \<times> nat \<Rightarrow> 'k \<times> nat" where
  "scan_step ok better key i = (\<lambda>(b, best). if ok i \<and> better (key i) b then (key i, i) else (b, best))"

definition scan ::
  "(nat \<Rightarrow> bool) \<Rightarrow> ('k \<Rightarrow> 'k \<Rightarrow> bool) \<Rightarrow> (nat \<Rightarrow> 'k) \<Rightarrow> nat \<Rightarrow> 'k \<times> nat \<Rightarrow> 'k \<times> nat" where
  "scan ok better key n init = fold (scan_step ok better key) [0..<n] init"

text \<open>The laws of a strict comparison, enough to show that the scan finds an optimum.\<close>

locale strict_better =
  fixes better :: "'k \<Rightarrow> 'k \<Rightarrow> bool"
  assumes irrefl: "\<not> better a a"
    and trans: "better a b \<Longrightarrow> better b c \<Longrightarrow> better a c"
begin

lemma scan_spec:
  assumes "scan ok better key n (b0, d0) = (b, best)"
  shows "(b, best) = (b0, d0) \<or> best < n \<and> ok best \<and> b = key best \<and> better b b0"
    and "i < n \<Longrightarrow> ok i \<Longrightarrow> \<not> better (key i) b"
    and "i < n \<Longrightarrow> ok i \<Longrightarrow> better (key i) b0 \<Longrightarrow> best < n \<and> ok best \<and> b = key best"
proof -
  have *: "((b, best) = (b0, d0) \<or> best < n \<and> ok best \<and> b = key best \<and> better b b0) \<and>
      (\<forall>i < n. ok i \<longrightarrow> \<not> better (key i) b)"
    using assms
  proof (induction n arbitrary: b best)
    case (Suc n)
    obtain b' best' where prev: "scan ok better key n (b0, d0) = (b', best')" by force
    note IH = Suc.IH [OF prev]
    have now: "scan_step ok better key n (b', best') = (b, best)"
      using Suc.prems prev by (simp add: scan_def)
    show ?case
    proof (cases "ok n \<and> better (key n) b'")
      case True
      with now have b: "b = key n" "best = n" by (auto simp: scan_step_def)
      have "\<not> better (key i) b" if "i < Suc n" "ok i" for i
        using that IH True b irrefl trans less_Suc_eq by metis
      with True b IH trans show ?thesis by auto
    next
      case False
      with now have b: "b = b'" "best = best'" by (auto simp: scan_step_def)
      with False IH show ?thesis by (auto simp: less_Suc_eq)
    qed
  qed (simp add: scan_def)
  from * show "(b, best) = (b0, d0) \<or> best < n \<and> ok best \<and> b = key best \<and> better b b0" by blast
  from * show "i < n \<Longrightarrow> ok i \<Longrightarrow> \<not> better (key i) b" by blast
  from * show "i < n \<Longrightarrow> ok i \<Longrightarrow> better (key i) b0 \<Longrightarrow> best < n \<and> ok best \<and> b = key best" by blast
qed

end

text \<open>The comparisons the code scans with: lower load, higher score, less compute.\<close>

interpretation f32_lower: strict_better f32_less
  by unfold_locales (auto intro: f32_less_trans)

interpretation f32_higher: strict_better "\<lambda>a b. f32_less b a"
  by unfold_locales (auto intro: f32_less_trans)

interpretation int_lower: strict_better "\<lambda>a b :: int. a < b"
  by unfold_locales auto

section \<open>The policy interface\<close>

definition candidates :: "ResourceSnapshot \<Rightarrow> ClusterView \<Rightarrow> NodeId list" where
  "candidates l c = node_id l # map p_node_id (filter p_reachable (peers c))"

text \<open>
  The contract of \<^verbatim>\<open>ISchedulingPolicy::schedule\<close>: a plan has one decision per entry of the
  topological order, and places tasks on the local node and reachable peers only. \<open>None\<close> stands for
  a call without a defined result.
\<close>

locale scheduling_policy =
  fixes schedule :: "SchedEnv \<Rightarrow> WorkloadDAG \<Rightarrow> ResourceSnapshot \<Rightarrow> ClusterView \<Rightarrow> SchedulingPlan option"
  assumes covers: "\<lbrakk>env_ok e; dag_inv d; closed_dag d; schedule e d l c = Some p\<rbrakk> \<Longrightarrow>
      mset (map d_task_id (decisions p)) = mset (topological_order (env_order e) d)"
    and placed: "\<lbrakk>env_ok e; dag_inv d; closed_dag d; schedule e d l c = Some p; x \<in> set (decisions p)\<rbrakk> \<Longrightarrow>
      assigned_node x \<in> set (candidates l c)"
begin

lemma once_each:
  assumes "env_ok e" "dag_inv d" "closed_dag d" "schedule e d l c = Some p"
  shows "distinct (map d_task_id (decisions p))"
proof -
  have "distinct (topological_order (env_order e) d)"
    using env_okD(1) [OF assms(1)] assms(2) by (rule topological_order_spec)
  then show ?thesis using covers [OF assms] by (metis mset_eq_imp_distinct_iff)
qed

lemma all_tasks:
  assumes "env_ok e" "dag_inv d" "closed_dag d" "acyclic (edges d)" "schedule e d l c = Some p"
  shows "d_task_id ` set (decisions p) = task_ids d" "length (decisions p) = task_count d"
proof -
  have "set (topological_order (env_order e) d) = task_ids d"
    using env_okD(1) [OF assms(1)] assms(2-4) by (rule topological_order_complete_set)
  then show "d_task_id ` set (decisions p) = task_ids d"
    using mset_eq_setD [OF covers [OF assms(1-3,5)]] by simp
  show "length (decisions p) = task_count d"
    using mset_eq_length [OF covers [OF assms(1-3,5)]]
      length_topo_eq_count_iff [OF env_okD(1) [OF assms(1)] assms(2,3)] assms(4) by simp
qed

lemma local_only:
  assumes "env_ok e" "dag_inv d" "closed_dag d" "schedule e d l c = Some p" "available_count c = 0"
    and "x \<in> set (decisions p)"
  shows "assigned_node x = node_id l"
  using placed [OF assms(1-4,6)] assms(5) by (auto simp: candidates_def available_count_def filter_empty_conv)

end

lemma topo_tasks:
  "order_ok ord \<Longrightarrow> dag_inv d \<Longrightarrow> closed_dag d \<Longrightarrow> set (topological_order ord d) \<subseteq> task_ids d"
  using topological_order_spec(3) [of ord d] closed_dag_nodes [of d] by blast

lemma fold_max_Max: "fold (\<lambda>n m. max m (f n)) ns (z :: 'a :: linorder) = Max (insert z (f ` set ns))"
  using fold_max_values [of "map (\<lambda>n. ((), f n)) ns" z] by (simp add: fold_map comp_def image_image)

section \<open>Load of a node under a list of decisions\<close>

definition cpu_load :: "WorkloadDAG \<Rightarrow> SchedulingDecision list \<Rightarrow> NodeId \<Rightarrow> int" where
  "cpu_load d ds n = sum_list (map (\<lambda>x. if assigned_node x = n then task_cost d (d_task_id x) else 0) ds)"

definition mem_load :: "WorkloadDAG \<Rightarrow> SchedulingDecision list \<Rightarrow> NodeId \<Rightarrow> nat" where
  "mem_load d ds n =
     sum_list (map (\<lambda>x. if assigned_node x = n then unat (task_mem d (d_task_id x)) else 0) ds)"

lemma loads_Nil [simp]: "cpu_load d [] n = 0" "mem_load d [] n = 0"
  by (simp_all add: cpu_load_def mem_load_def)

lemma loads_snoc [simp]:
  "cpu_load d (ds @ [x]) n = cpu_load d ds n + (if assigned_node x = n then task_cost d (d_task_id x) else 0)"
  "mem_load d (ds @ [x]) n =
     mem_load d ds n + (if assigned_node x = n then unat (task_mem d (d_task_id x)) else 0)"
  by (simp_all add: cpu_load_def mem_load_def)

lemma task_views:
  "get_task d v = Some t \<Longrightarrow> task_cost d v = compute_cost (t_profile t)"
  "get_task d v = Some t \<Longrightarrow> task_mem d v = memory_bytes (t_profile t)"
  by (simp_all add: task_cost_def task_mem_def cost_of_def mem_of_def)

lemma cpu_load_nonneg: "costs_nonneg d \<Longrightarrow> 0 \<le> cpu_load d ds n"
  unfolding cpu_load_def by (intro sum_list_nonneg) (auto simp: task_cost_nonneg)

section \<open>The least loaded peer\<close>

lemma least_loaded_loop_spec:
  "(least_loaded_loop ps m b = b \<and> (\<forall>p \<in> set ps. p_reachable p \<longrightarrow>
      \<not> f32_less (cpu_usage_percent (p_resources p)) m)) \<or>
   (\<exists>p \<in> set ps. p_reachable p \<and> least_loaded_loop ps m b = p_node_id p \<and>
      f32_less (cpu_usage_percent (p_resources p)) m \<and>
      (\<forall>q \<in> set ps. p_reachable q \<longrightarrow>
        \<not> f32_less (cpu_usage_percent (p_resources q)) (cpu_usage_percent (p_resources p))))"
proof (induction ps m b rule: least_loaded_loop.induct)
  case (2 q ps m b)
  consider "\<not> p_reachable q" | "p_reachable q" "f32_less (cpu_usage_percent (p_resources q)) m"
    | "p_reachable q" "\<not> f32_less (cpu_usage_percent (p_resources q)) m" by blast
  then show ?case
  proof cases
    case 1
    with 2 show ?thesis by auto
  next
    case 2
    with "2.IH"(2) show ?thesis by (auto dest: f32_less_trans f32_less_asym)
  next
    case 3
    with "2.IH"(3) show ?thesis by (auto dest: f32_less_trans)
  qed
qed simp

text \<open>
  \<^verbatim>\<open>least_loaded_peer\<close> names a reachable peer whose CPU load no reachable peer undercuts; when no
  reachable peer reports a load below the largest float, it answers the empty id.
\<close>

theorem least_loaded_peer_minimal:
  "(\<exists>p \<in> set (peers c). p_reachable p \<and> least_loaded_peer c = p_node_id p \<and>
     (\<forall>q \<in> set (peers c). p_reachable q \<longrightarrow>
        \<not> f32_less (cpu_usage_percent (p_resources q)) (cpu_usage_percent (p_resources p)))) \<or>
   least_loaded_peer c = [] \<and>
     (\<forall>p \<in> set (peers c). p_reachable p \<longrightarrow>
        \<not> f32_less (cpu_usage_percent (p_resources p)) f32_max_value)"
  using least_loaded_loop_spec [of "peers c" f32_max_value "[]"]
  unfolding least_loaded_peer_def by blast

definition sample_peer :: "NodeId \<Rightarrow> rat \<Rightarrow> u64 \<Rightarrow> bool \<Rightarrow> PeerInfo" where
  "sample_peer n cpu mem r = \<lparr>p_node_id = n,
     p_resources = default_snapshot\<lparr>node_id := n, cpu_usage_percent := Fin cpu,
       memory_available_bytes := mem, memory_total_bytes := mem\<rparr>,
     p_address = [], p_tcp_port = 0, p_reachable = r\<rparr>"

definition sample_cluster :: ClusterView where
  "sample_cluster = \<lparr>peers = [sample_peer ''n1'' 50 100 True, sample_peer ''n2'' 10 30 True,
     sample_peer ''n3'' 5 900 False]\<rparr>"

definition sample_local :: ResourceSnapshot where
  "sample_local = default_snapshot\<lparr>node_id := ''n0'', cpu_usage_percent := Fin 90,
     memory_available_bytes := 50, memory_total_bytes := 100\<rparr>"

theorem least_loaded_peer_minimal_witness:
  "least_loaded_peer sample_cluster = ''n2''"
proof -
  have reach: "sample_peer ''n1'' 50 100 True \<in> set (peers sample_cluster)"
    "sample_peer ''n2'' 10 30 True \<in> set (peers sample_cluster)"
    by (simp_all add: sample_cluster_def)
  have "f32_less (Fin 10) (Fin 50)" "f32_less (Fin 10) f32_max_value"
    by (simp_all add: max_finite_def)
  then show ?thesis
    using least_loaded_peer_minimal [of sample_cluster] reach
    by (auto simp: sample_cluster_def sample_peer_def)
qed

text \<open>An environment that visits maps in insertion order, sorts by insertion and draws by counting.\<close>

fun insort_by :: "(TaskId \<Rightarrow> TaskId \<Rightarrow> bool) \<Rightarrow> TaskId \<Rightarrow> TaskId list \<Rightarrow> TaskId list" where
  "insort_by lt x [] = [x]"
| "insort_by lt x (y # ys) = (if lt y x then y # insort_by lt x ys else x # y # ys)"

definition sample_env :: SchedEnv where
  "sample_env = \<lparr>env_order = (\<lambda>ks. ks), env_now = 7,
     env_sort = (\<lambda>lt xs. foldr (insort_by lt) xs []), env_seed = (\<lambda>s. s),
     env_uniform = (\<lambda>g hi. (g mod Suc hi, Suc g))\<rparr>"

lemma mset_insort_by: "mset (insort_by lt x ys) = add_mset x (mset ys)"
  by (induction ys) auto

lemma sample_env_ok: "env_ok sample_env"
proof -
  have "mset (foldr (insort_by lt) xs []) = mset xs" for lt xs
    by (induction xs) (simp_all add: mset_insort_by)
  then show ?thesis by (simp add: env_ok_def sample_env_def order_ok_id less_Suc_eq_le [symmetric])
qed

lemma sample_candidates: "distinct (candidates sample_local sample_cluster)"
  by (simp add: candidates_def sample_local_def sample_cluster_def sample_peer_def)

end
