(* ===== verification/Greedy_Policy.thy ===== *)
theory Greedy_Policy
  imports Scheduler
begin

text \<open>
  The greedy policy (\<^verbatim>\<open>src/scheduler/greedy_policy.cpp\<close>): every task, in topological order, goes to
  the node with the highest headroom score among those with enough memory left.
\<close>

section \<open>Operations\<close>

definition W_CPU :: f32 where "W_CPU = Fin 1"
definition W_MEM :: f32 where "W_MEM = Fin (1 / 2)"
definition W_NET :: f32 where "W_NET = rnd (3 / 10)"

definition compute_node_score :: "ResourceSnapshot \<Rightarrow> TaskProfile \<Rightarrow> bool \<Rightarrow> f32" where
  "compute_node_score resources profile is_local =
     (let cpu_headroom = cpu_headroom_percent resources;
          mem_headroom = f32_sub (Fin 100) (memory_usage_percent resources);
          transfer_cost = (if is_local then Fin 0
            else f32_div (f32_of_u64 (input_bytes profile + output_bytes profile))
                         (f32_mul (Fin 1024) (Fin 1024)))
      in f32_sub (f32_add (f32_mul W_CPU cpu_headroom) (f32_mul W_MEM mem_headroom))
                 (f32_mul W_NET transfer_cost))"

record NodeState =
  n_id :: NodeId
  n_resources :: ResourceSnapshot
  n_compute :: Duration

definition greedy_nodes :: "ResourceSnapshot \<Rightarrow> ClusterView \<Rightarrow> NodeState list" where
  "greedy_nodes l c =
     \<lparr>n_id = node_id l, n_resources = l, n_compute = 0\<rparr> #
     map (\<lambda>p. \<lparr>n_id = p_node_id p, n_resources = p_resources p, n_compute = 0\<rparr>)
       (filter p_reachable (peers c))"

definition greedy_fits :: "NodeState list \<Rightarrow> TaskProfile \<Rightarrow> nat \<Rightarrow> bool" where
  "greedy_fits nodes profile i =
     (\<not> memory_bytes profile > memory_available_bytes (n_resources (nodes ! i)))"

definition greedy_score :: "NodeState list \<Rightarrow> TaskProfile \<Rightarrow> nat \<Rightarrow> f32" where
  "greedy_score nodes profile i = compute_node_score (n_resources (nodes ! i)) profile (i = 0)"

definition greedy_pick :: "NodeState list \<Rightarrow> TaskProfile \<Rightarrow> nat" where
  "greedy_pick nodes profile =
     snd (scan (greedy_fits nodes profile) (\<lambda>score best_score. f32_less best_score score)
            (greedy_score nodes profile) (length nodes) (f32_neg f32_max_value, 0))"

definition greedy_assign :: "TaskProfile \<Rightarrow> NodeState \<Rightarrow> NodeState" where
  "greedy_assign profile n =
     (let n' = n\<lparr>n_compute := n_compute n + compute_cost profile\<rparr>
      in if memory_available_bytes (n_resources n) \<ge> memory_bytes profile
         then n'\<lparr>n_resources := (n_resources n)
             \<lparr>memory_available_bytes := memory_available_bytes (n_resources n) - memory_bytes profile\<rparr>\<rparr>
         else n')"

definition greedy_step ::
  "WorkloadDAG \<Rightarrow> TaskId \<Rightarrow> NodeState list \<times> SchedulingDecision list
     \<Rightarrow> NodeState list \<times> SchedulingDecision list" where
  "greedy_step d i = (\<lambda>(nodes, ds). case get_task d i of
       None \<Rightarrow> (nodes, ds)
     | Some t \<Rightarrow>
         let best = greedy_pick nodes (t_profile t)
         in (nodes[best := greedy_assign (t_profile t) (nodes ! best)],
             ds @ [\<lparr>d_task_id = i, assigned_node = n_id (nodes ! best),
                    reason = (if best = 0 then LocalCapacity else LeastLoaded)\<rparr>]))"

definition greedy_schedule ::
  "SchedEnv \<Rightarrow> WorkloadDAG \<Rightarrow> ResourceSnapshot \<Rightarrow> ClusterView \<Rightarrow> SchedulingPlan" where
  "greedy_schedule e d l c =
     (let (nodes, ds) = fold (greedy_step d) (topological_order (env_order e) d) (greedy_nodes l c, [])
      in \<lparr>decisions = ds,
          estimated_makespan = fold (\<lambda>n m. max m (n_compute n)) nodes 0,
          computed_at = env_now e\<rparr>)"

section \<open>The choice of a node\<close>

lemma greedy_pick_bound: "nodes \<noteq> [] \<Longrightarrow> greedy_pick nodes profile < length nodes"
  using f32_higher.scan_spec(1)
    [of "greedy_fits nodes profile" "greedy_score nodes profile" "length nodes" "f32_neg f32_max_value" 0]
  by (cases "scan (greedy_fits nodes profile) (\<lambda>score best_score. f32_less best_score score)
        (greedy_score nodes profile) (length nodes) (f32_neg f32_max_value, 0)")
    (auto simp: greedy_pick_def)

text \<open>A choice other than the local node has room for the task.\<close>

lemma greedy_pick_fits: "greedy_pick nodes profile \<noteq> 0 \<Longrightarrow> greedy_fits nodes profile (greedy_pick nodes profile)"
  using f32_higher.scan_spec(1)
    [of "greedy_fits nodes profile" "greedy_score nodes profile" "length nodes" "f32_neg f32_max_value" 0]
  by (cases "scan (greedy_fits nodes profile) (\<lambda>score best_score. f32_less best_score score)
        (greedy_score nodes profile) (length nodes) (f32_neg f32_max_value, 0)")
    (auto simp: greedy_pick_def)

text \<open>
  The greedy choice: if some node has room for the task and a score above the least float, the
  chosen node has room for it and no node with room has a higher score.
\<close>

theorem greedy_pick_optimal:
  assumes "i < length nodes" "greedy_fits nodes profile i"
    and "f32_less (f32_neg f32_max_value) (greedy_score nodes profile i)"
  shows "greedy_pick nodes profile < length nodes \<and>
    greedy_fits nodes profile (greedy_pick nodes profile) \<and>
    \<not> f32_less (greedy_score nodes profile (greedy_pick nodes profile)) (greedy_score nodes profile i)"
proof -
  obtain b best where scan: "scan (greedy_fits nodes profile) (\<lambda>score best_score. f32_less best_score score)
      (greedy_score nodes profile) (length nodes) (f32_neg f32_max_value, 0) = (b, best)" by force
  then have "greedy_pick nodes profile = best" by (simp only: greedy_pick_def snd_conv)
  with f32_higher.scan_spec(2,3) [OF scan assms(1,2)] assms(3) show ?thesis by simp
qed

theorem greedy_pick_optimal_witness:
  "greedy_fits (greedy_nodes sample_local sample_cluster) (t_profile (sample_task ''a'' 1 20))
     (greedy_pick (greedy_nodes sample_local sample_cluster) (t_profile (sample_task ''a'' 1 20)))"
proof -
  let ?nodes = "greedy_nodes sample_local sample_cluster" and ?p = "t_profile (sample_task ''a'' 1 20)"
  have "1 < length ?nodes" "greedy_fits ?nodes ?p 1"
    "f32_less (f32_neg f32_max_value) (greedy_score ?nodes ?p 1)"
    by code_simp+
  then show "greedy_fits ?nodes ?p (greedy_pick ?nodes ?p)" using greedy_pick_optimal by blast
qed

section \<open>The fold over the tasks\<close>

text \<open>
  After the tasks in \<open>xs\<close>: the nodes are the candidates, each with the compute it was assigned and,
  for the peers, the memory it has left; there is one decision per task.
\<close>

definition greedy_inv ::
  "WorkloadDAG \<Rightarrow> NodeState list \<Rightarrow> TaskId list \<Rightarrow> NodeState list \<times> SchedulingDecision list \<Rightarrow> bool" where
  "greedy_inv d nodes0 xs = (\<lambda>(nodes, ds).
     map n_id nodes = map n_id nodes0 \<and> map d_task_id ds = xs \<and>
     assigned_node ` set ds \<subseteq> n_id ` set nodes0 \<and>
     (distinct (map n_id nodes0) \<longrightarrow> (\<forall>i < length nodes.
        n_compute (nodes ! i) = cpu_load d ds (n_id (nodes0 ! i)) \<and>
        (0 < i \<longrightarrow> unat (memory_available_bytes (n_resources (nodes ! i))) + mem_load d ds (n_id (nodes0 ! i))
            = unat (memory_available_bytes (n_resources (nodes0 ! i)))))))"

lemma greedy_assign_simps [simp]:
  "n_id (greedy_assign profile n) = n_id n"
  "n_compute (greedy_assign profile n) = n_compute n + compute_cost profile"
  by (simp_all add: greedy_assign_def Let_def)

lemma greedy_assign_mem:
  "memory_bytes profile \<le> memory_available_bytes (n_resources n) \<Longrightarrow>
   unat (memory_available_bytes (n_resources (greedy_assign profile n))) + unat (memory_bytes profile)
     = unat (memory_available_bytes (n_resources n))"
  by (simp add: greedy_assign_def unat_sub word_le_nat_alt)

lemma greedy_step_inv:
  assumes inv: "greedy_inv d nodes0 xs st" and ne: "nodes0 \<noteq> []" and t: "v \<in> task_ids d"
  shows "greedy_inv d nodes0 (xs @ [v]) (greedy_step d v st)"
proof -
  obtain nodes ds where st: "st = (nodes, ds)" by force
  from t obtain task where task: "get_task d v = Some task" by (auto simp: get_task_def in_um_keys_iff)
  let ?p = "t_profile task"
  let ?best = "greedy_pick nodes ?p"
  note i = inv [unfolded greedy_inv_def st, simplified]
  have len: "length nodes = length nodes0" using i map_eq_imp_length_eq by blast
  have ids: "n_id (nodes ! k) = n_id (nodes0 ! k)" if "k < length nodes" for k
    using i that len by (metis nth_map)
  have best: "?best < length nodes" using ne len by (intro greedy_pick_bound) auto
  have same: "n_id (nodes0 ! ?best) = n_id (nodes0 ! k) \<longleftrightarrow> k = ?best"
    if "distinct (map n_id nodes0)" "k < length nodes" for k
    using that best len by (auto simp: distinct_conv_nth)
  have mem: "unat (memory_available_bytes (n_resources (greedy_assign ?p (nodes ! ?best)))) +
      unat (memory_bytes ?p) = unat (memory_available_bytes (n_resources (nodes ! ?best)))"
    if "0 < ?best"
    using greedy_pick_fits [of nodes ?p] that by (intro greedy_assign_mem) (auto simp: greedy_fits_def)
  show ?thesis
    using i best len ids same mem
    by (auto simp: greedy_inv_def greedy_step_def st task Let_def map_update nth_list_update
        task_views [OF task] list_update_same_conv)
qed

lemma greedy_fold_inv:
  assumes "set xs \<subseteq> task_ids d"
  shows "greedy_inv d (greedy_nodes l c) xs (fold (greedy_step d) xs (greedy_nodes l c, []))"
  using assms
proof (induction xs rule: rev_induct)
  case Nil
  have "n_compute (greedy_nodes l c ! i) = 0" if "i < length (greedy_nodes l c)" for i
    using that by (cases i) (simp_all add: greedy_nodes_def)
  then show ?case by (simp add: greedy_inv_def)
next
  case (snoc v xs)
  then show ?case using greedy_step_inv [of d "greedy_nodes l c" xs _ v]
    by (simp add: greedy_nodes_def)
qed

lemma greedy_nodes_ids: "map n_id (greedy_nodes l c) = candidates l c"
  by (simp add: greedy_nodes_def candidates_def)

lemma greedy_node_id:
  "i < length (candidates l c) \<Longrightarrow> n_id (greedy_nodes l c ! i) = candidates l c ! i"
  "length (greedy_nodes l c) = length (candidates l c)"
  by (metis greedy_nodes_ids length_map nth_map)+

text \<open>What the schedule is, read off the final state of the fold.\<close>

lemma greedy_schedule_inv:
  assumes "env_ok e" "dag_inv d" "closed_dag d"
  obtains nodes where
    "greedy_inv d (greedy_nodes l c) (topological_order (env_order e) d)
       (nodes, decisions (greedy_schedule e d l c))"
    "estimated_makespan (greedy_schedule e d l c) = Max (insert 0 (n_compute ` set nodes))"
proof -
  obtain nodes ds where fold: "fold (greedy_step d) (topological_order (env_order e) d) (greedy_nodes l c, [])
      = (nodes, ds)" by force
  show thesis
  proof (rule that)
    show "greedy_inv d (greedy_nodes l c) (topological_order (env_order e) d)
        (nodes, decisions (greedy_schedule e d l c))"
      using greedy_fold_inv [OF topo_tasks [OF env_okD(1) [OF assms(1)] assms(2,3)], of l c]
      by (simp add: greedy_schedule_def fold)
    show "estimated_makespan (greedy_schedule e d l c) = Max (insert 0 (n_compute ` set nodes))"
      by (simp add: greedy_schedule_def fold fold_max_Max)
  qed
qed

interpretation greedy: scheduling_policy "\<lambda>e d l c. Some (greedy_schedule e d l c)"
proof unfold_locales
  fix e d l c p x
  assume asm: "env_ok e" "dag_inv d" "closed_dag d" "Some (greedy_schedule e d l c) = Some p"
  obtain nodes where inv: "greedy_inv d (greedy_nodes l c) (topological_order (env_order e) d)
      (nodes, decisions p)"
    using greedy_schedule_inv [OF asm(1-3), of l c] asm(4) by (metis option.inject)
  then show "mset (map d_task_id (decisions p)) = mset (topological_order (env_order e) d)"
    by (simp add: greedy_inv_def)
  assume "x \<in> set (decisions p)"
  with inv show "assigned_node x \<in> set (candidates l c)"
    unfolding greedy_nodes_ids [symmetric] by (auto simp: greedy_inv_def)
qed

section \<open>Properties\<close>

text \<open>
  C13. The greedy policy assigns every task of a valid graph exactly once, and only to the local node
  or to a reachable peer.
\<close>

theorem greedy_assigns_every_task_once:
  assumes "env_ok e" "dag_inv d" "closed_dag d" "acyclic (edges d)"
  shows "distinct (map d_task_id (decisions (greedy_schedule e d l c))) \<and>
    d_task_id ` set (decisions (greedy_schedule e d l c)) = task_ids d \<and>
    assigned_node ` set (decisions (greedy_schedule e d l c)) \<subseteq> set (candidates l c)"
  using greedy.once_each [OF assms(1-3) refl] greedy.all_tasks(1) [OF assms refl]
    greedy.placed [OF assms(1-3) refl] by blast

theorem greedy_assigns_every_task_once_witness:
  "distinct (map d_task_id (decisions (greedy_schedule sample_env sample_dag sample_local sample_cluster))) \<and>
   d_task_id ` set (decisions (greedy_schedule sample_env sample_dag sample_local sample_cluster))
     = task_ids sample_dag \<and>
   assigned_node ` set (decisions (greedy_schedule sample_env sample_dag sample_local sample_cluster))
     \<subseteq> set (candidates sample_local sample_cluster)"
  by (rule greedy_assigns_every_task_once [OF sample_env_ok sample_dag_ok sample_dag_acyclic])

text \<open>
  C14. The greedy policy never commits more memory of a peer than the peer reported available. (The
  local node is the fallback for tasks that fit nowhere, so it is not covered.)
\<close>

theorem greedy_peers_not_overcommitted:
  assumes "env_ok e" "dag_inv d" "closed_dag d" "distinct (candidates l c)"
    and "p \<in> set (peers c)" "p_reachable p"
  shows "mem_load d (decisions (greedy_schedule e d l c)) (p_node_id p)
    \<le> unat (memory_available_bytes (p_resources p))"
proof -
  obtain nodes where inv: "greedy_inv d (greedy_nodes l c) (topological_order (env_order e) d)
      (nodes, decisions (greedy_schedule e d l c))"
    using greedy_schedule_inv [OF assms(1-3), of l c] by blast
  have "p \<in> set (filter p_reachable (peers c))" using assms(5,6) by simp
  then obtain k where k: "k < length (filter p_reachable (peers c))" "filter p_reachable (peers c) ! k = p"
    by (metis in_set_conv_nth)
  then have node: "Suc k < length (greedy_nodes l c)"
    "greedy_nodes l c ! Suc k = \<lparr>n_id = p_node_id p, n_resources = p_resources p, n_compute = 0\<rparr>"
    by (simp_all add: greedy_nodes_def)
  have "length nodes = length (greedy_nodes l c)"
    using inv map_eq_imp_length_eq by (auto simp: greedy_inv_def)
  then have "unat (memory_available_bytes (n_resources (nodes ! Suc k))) +
      mem_load d (decisions (greedy_schedule e d l c)) (p_node_id p)
      = unat (memory_available_bytes (p_resources p))"
    using inv node assms(4) by (auto simp: greedy_inv_def greedy_nodes_ids)
  then show ?thesis by simp
qed

theorem greedy_peers_not_overcommitted_witness:
  "mem_load sample_dag (decisions (greedy_schedule sample_env sample_dag sample_local sample_cluster)) ''n1''
     \<le> unat (100 :: u64)"
proof -
  have "sample_peer ''n1'' 50 100 True \<in> set (peers sample_cluster)"
    by (simp add: sample_cluster_def)
  then show ?thesis
    using greedy_peers_not_overcommitted [OF sample_env_ok sample_dag_ok sample_candidates,
        of "sample_peer ''n1'' 50 100 True"]
    by (simp add: sample_peer_def)
qed

text \<open>
  The greedy makespan estimate is the largest compute load of a node under the plan, zero if
  there is none.
\<close>

theorem greedy_makespan_max_load:
  assumes "env_ok e" "dag_inv d" "closed_dag d" "distinct (candidates l c)"
  shows "estimated_makespan (greedy_schedule e d l c) =
    Max (insert 0 (cpu_load d (decisions (greedy_schedule e d l c)) ` set (candidates l c)))"
proof -
  let ?ds = "decisions (greedy_schedule e d l c)"
  obtain nodes where inv: "greedy_inv d (greedy_nodes l c) (topological_order (env_order e) d) (nodes, ?ds)"
    and span: "estimated_makespan (greedy_schedule e d l c) = Max (insert 0 (n_compute ` set nodes))"
    using assms(1-3) by (rule greedy_schedule_inv)
  have "map n_id nodes = candidates l c" using inv by (simp add: greedy_inv_def greedy_nodes_ids)
  then have "length nodes = length (candidates l c)" by (metis length_map)
  then have "map n_compute nodes = map (cpu_load d ?ds) (candidates l c)"
    using inv assms(4)
    by (intro nth_equalityI) (auto simp: greedy_inv_def greedy_nodes_ids greedy_node_id)
  then have "n_compute ` set nodes = cpu_load d ?ds ` set (candidates l c)"
    by (metis set_map)
  with span show ?thesis by simp
qed

theorem greedy_makespan_max_load_witness:
  "estimated_makespan (greedy_schedule sample_env sample_dag sample_local sample_cluster) =
     Max (insert 0 (cpu_load sample_dag
       (decisions (greedy_schedule sample_env sample_dag sample_local sample_cluster)) `
         set (candidates sample_local sample_cluster)))"
  by (rule greedy_makespan_max_load [OF sample_env_ok sample_dag_ok sample_candidates])

end
