(* ===== verification/Threshold_Policy.thy ===== *)
theory Threshold_Policy
  imports Scheduler
begin

text \<open>
  The threshold policy (\<^verbatim>\<open>src/scheduler/threshold_policy.cpp\<close>): run locally while the simulated CPU
  and memory stay below their thresholds, otherwise offload to the least loaded peer with enough
  memory, and fall back to the local node when there is none.
\<close>

section \<open>Operations\<close>

record ThresholdPolicyConfig =
  cpu_threshold_percent :: f32
  memory_threshold_percent :: f32

record PeerState =
  ps_id :: NodeId
  ps_load :: f32
  ps_mem :: u64
  ps_compute :: Duration

record ThresholdState =
  sim_cpu :: f32
  sim_mem_used :: u64
  local_compute :: Duration
  th_peers :: "PeerState list"
  th_decisions :: "SchedulingDecision list"

definition threshold_init :: "ResourceSnapshot \<Rightarrow> ClusterView \<Rightarrow> ThresholdState" where
  "threshold_init l c =
     \<lparr>sim_cpu = cpu_usage_percent l,
      sim_mem_used = memory_total_bytes l - memory_available_bytes l,
      local_compute = 0,
      th_peers = map (\<lambda>p. \<lparr>ps_id = p_node_id p, ps_load = cpu_usage_percent (p_resources p),
          ps_mem = memory_available_bytes (p_resources p), ps_compute = 0\<rparr>)
        (filter p_reachable (peers c)),
      th_decisions = []\<rparr>"

definition cpu_increase :: "TaskProfile \<Rightarrow> f32" where
  "cpu_increase profile = f32_mul (f32_of_int (compute_cost profile)) (rnd (1 / 1000))"

definition within_thresholds :: "ThresholdPolicyConfig \<Rightarrow> u64 \<Rightarrow> TaskProfile \<Rightarrow> ThresholdState \<Rightarrow> bool" where
  "within_thresholds cfg mem_total profile s =
     (let sim_mem_pct = (if mem_total > 0
            then f32_div (f32_mul (Fin 100) (f32_of_u64 (sim_mem_used s))) (f32_of_u64 mem_total)
            else Fin 0)
      in f32_less (sim_cpu s) (cpu_threshold_percent cfg) \<and>
         f32_less sim_mem_pct (memory_threshold_percent cfg) \<and>
         mem_total - sim_mem_used s \<ge> memory_bytes profile)"

definition peer_fits :: "PeerState list \<Rightarrow> TaskProfile \<Rightarrow> nat \<Rightarrow> bool" where
  "peer_fits ps profile i = (ps_mem (ps ! i) \<ge> memory_bytes profile)"

definition threshold_pick :: "PeerState list \<Rightarrow> TaskProfile \<Rightarrow> nat" where
  "threshold_pick ps profile =
     snd (scan (peer_fits ps profile) f32_less (\<lambda>i. ps_load (ps ! i)) (length ps)
            (f32_max_value, length ps))"

definition threshold_assign :: "TaskProfile \<Rightarrow> PeerState \<Rightarrow> PeerState" where
  "threshold_assign profile p =
     p\<lparr>ps_compute := ps_compute p + compute_cost profile,
       ps_mem := ps_mem p - memory_bytes profile,
       ps_load := f32_add (ps_load p) (cpu_increase profile)\<rparr>"

definition threshold_step ::
  "ThresholdPolicyConfig \<Rightarrow> ResourceSnapshot \<Rightarrow> WorkloadDAG \<Rightarrow> TaskId \<Rightarrow> ThresholdState \<Rightarrow> ThresholdState" where
  "threshold_step cfg l d i s = (case get_task d i of
       None \<Rightarrow> s
     | Some t \<Rightarrow>
         let profile = t_profile t
         in if within_thresholds cfg (memory_total_bytes l) profile s
            then s\<lparr>th_decisions := th_decisions s @
                     [\<lparr>d_task_id = i, assigned_node = node_id l, reason = LocalCapacity\<rparr>],
                   local_compute := local_compute s + compute_cost profile,
                   sim_mem_used := sim_mem_used s + memory_bytes profile,
                   sim_cpu := f32_min (f32_add (sim_cpu s) (cpu_increase profile)) (Fin 100)\<rparr>
            else let best = threshold_pick (th_peers s) profile
              in if best < length (th_peers s)
                 then s\<lparr>th_decisions := th_decisions s @
                          [\<lparr>d_task_id = i, assigned_node = ps_id (th_peers s ! best),
                            reason = ThresholdOffload\<rparr>],
                        th_peers := (th_peers s)[best := threshold_assign profile (th_peers s ! best)]\<rparr>
                 else s\<lparr>th_decisions := th_decisions s @
                          [\<lparr>d_task_id = i, assigned_node = node_id l, reason = Fallback\<rparr>],
                        local_compute := local_compute s + compute_cost profile,
                        sim_mem_used := sim_mem_used s + memory_bytes profile\<rparr>)"

definition threshold_schedule ::
  "ThresholdPolicyConfig \<Rightarrow> SchedEnv \<Rightarrow> WorkloadDAG \<Rightarrow> ResourceSnapshot \<Rightarrow> ClusterView \<Rightarrow> SchedulingPlan" where
  "threshold_schedule cfg e d l c =
     (let s = fold (threshold_step cfg l d) (topological_order (env_order e) d) (threshold_init l c);
          max_peer_compute = fold (\<lambda>p m. max m (ps_compute p)) (th_peers s) 0
      in \<lparr>decisions = th_decisions s,
          estimated_makespan = max (local_compute s) max_peer_compute,
          computed_at = env_now e\<rparr>)"

section \<open>The choice of a peer\<close>

lemma threshold_pick_cases:
  obtains (found) "threshold_pick ps profile < length ps" "peer_fits ps profile (threshold_pick ps profile)"
    "\<And>i. i < length ps \<Longrightarrow> peer_fits ps profile i \<Longrightarrow>
       \<not> f32_less (ps_load (ps ! i)) (ps_load (ps ! threshold_pick ps profile))"
  | (none) "threshold_pick ps profile = length ps"
    "\<And>i. i < length ps \<Longrightarrow> peer_fits ps profile i \<Longrightarrow> \<not> f32_less (ps_load (ps ! i)) f32_max_value"
proof -
  obtain b best where scan: "scan (peer_fits ps profile) f32_less (\<lambda>i. ps_load (ps ! i)) (length ps)
      (f32_max_value, length ps) = (b, best)" by force
  then have pick: "threshold_pick ps profile = best" by (simp add: threshold_pick_def)
  from f32_lower.scan_spec(1,2) [OF scan] show thesis
    using found none pick by auto
qed

section \<open>The fold over the tasks\<close>

definition threshold_inv ::
  "WorkloadDAG \<Rightarrow> ResourceSnapshot \<Rightarrow> PeerState list \<Rightarrow> TaskId list \<Rightarrow> ThresholdState \<Rightarrow> bool" where
  "threshold_inv d l ps0 xs s \<longleftrightarrow>
     map ps_id (th_peers s) = map ps_id ps0 \<and> map d_task_id (th_decisions s) = xs \<and>
     assigned_node ` set (th_decisions s) \<subseteq> insert (node_id l) (ps_id ` set ps0) \<and>
     (distinct (node_id l # map ps_id ps0) \<longrightarrow>
        local_compute s = cpu_load d (th_decisions s) (node_id l) \<and>
        (\<forall>i < length (th_peers s).
          ps_compute (th_peers s ! i) = cpu_load d (th_decisions s) (ps_id (ps0 ! i)) \<and>
          unat (ps_mem (th_peers s ! i)) + mem_load d (th_decisions s) (ps_id (ps0 ! i))
            = unat (ps_mem (ps0 ! i))))"

lemma threshold_assign_simps [simp]:
  "ps_id (threshold_assign profile p) = ps_id p"
  "ps_compute (threshold_assign profile p) = ps_compute p + compute_cost profile"
  by (simp_all add: threshold_assign_def)

lemma threshold_assign_mem:
  "memory_bytes profile \<le> ps_mem p \<Longrightarrow>
   unat (ps_mem (threshold_assign profile p)) + unat (memory_bytes profile) = unat (ps_mem p)"
  by (simp add: threshold_assign_def unat_sub word_le_nat_alt)

text \<open>A step either keeps the task on the local node or gives it to a peer with room for it.\<close>

lemma threshold_step_cases:
  assumes "get_task d v = Some t"
  obtains (here) r where
    "th_decisions (threshold_step cfg l d v s) =
       th_decisions s @ [\<lparr>d_task_id = v, assigned_node = node_id l, reason = r\<rparr>]"
    "th_peers (threshold_step cfg l d v s) = th_peers s"
    "local_compute (threshold_step cfg l d v s) = local_compute s + task_cost d v"
  | (peer) k where "k < length (th_peers s)" "task_mem d v \<le> ps_mem (th_peers s ! k)"
    "th_decisions (threshold_step cfg l d v s) =
       th_decisions s @ [\<lparr>d_task_id = v, assigned_node = ps_id (th_peers s ! k), reason = ThresholdOffload\<rparr>]"
    "th_peers (threshold_step cfg l d v s) =
       (th_peers s)[k := threshold_assign (t_profile t) (th_peers s ! k)]"
    "local_compute (threshold_step cfg l d v s) = local_compute s"
proof -
  let ?best = "threshold_pick (th_peers s) (t_profile t)"
  consider "within_thresholds cfg (memory_total_bytes l) (t_profile t) s"
    | "\<not> within_thresholds cfg (memory_total_bytes l) (t_profile t) s" "\<not> ?best < length (th_peers s)"
    | "\<not> within_thresholds cfg (memory_total_bytes l) (t_profile t) s" "?best < length (th_peers s)"
    by blast
  then show thesis
  proof cases
    case 1
    then show ?thesis using here
      by (simp add: threshold_step_def assms Let_def task_views [OF assms])
  next
    case 2
    then show ?thesis using here
      by (simp add: threshold_step_def assms Let_def task_views [OF assms])
  next
    case 3
    then have "peer_fits (th_peers s) (t_profile t) ?best"
      using threshold_pick_cases [of "th_peers s" "t_profile t"] by fastforce
    with 3 show ?thesis
      by (intro peer [of ?best])
        (simp_all add: threshold_step_def assms Let_def task_views [OF assms] peer_fits_def)
  qed
qed

lemma threshold_step_inv:
  assumes inv: "threshold_inv d l ps0 xs s" and t: "v \<in> task_ids d"
  shows "threshold_inv d l ps0 (xs @ [v]) (threshold_step cfg l d v s)"
proof -
  from t obtain task where task: "get_task d v = Some task" by (auto simp: get_task_def in_um_keys_iff)
  let ?ps = "th_peers s"
  note i = inv [unfolded threshold_inv_def]
  have len: "length ?ps = length ps0" using i map_eq_imp_length_eq by blast
  have ids: "ps_id (?ps ! k) = ps_id (ps0 ! k)" if "k < length ?ps" for k
    using i that len by (metis nth_map)
  have other: "node_id l \<noteq> ps_id (ps0 ! k)" if "distinct (node_id l # map ps_id ps0)" "k < length ps0" for k
    using that by (metis distinct.simps(2) length_map nth_map nth_mem)
  from task show ?thesis
  proof (cases rule: threshold_step_cases [where cfg = cfg and l = l and s = s])
    case (here r)
    with i other len show ?thesis by (simp add: threshold_inv_def)
  next
    case (peer k)
    have same: "ps_id (ps0 ! k) = ps_id (ps0 ! j) \<longleftrightarrow> j = k"
      if "distinct (map ps_id ps0)" "j < length ps0" for j
      using that peer(1) len by (auto simp: distinct_conv_nth)
    have mem: "unat (ps_mem (threshold_assign (t_profile task) (?ps ! k))) + unat (task_mem d v)
        = unat (ps_mem (?ps ! k))"
      using peer(2) unfolding task_views [OF task] by (rule threshold_assign_mem)
    have keep: "map ps_id (?ps[k := threshold_assign (t_profile task) (?ps ! k)]) = map ps_id ps0"
      using i by (metis list_update_id map_update threshold_assign_simps(1))
    have node: "ps_id (?ps ! k) \<in> ps_id ` set ps0" using ids [OF peer(1)] peer(1) len by simp
    have "local_compute s = cpu_load d (th_decisions s) (node_id l)" "ps_id (?ps ! k) \<noteq> node_id l"
      if "distinct (node_id l # map ps_id ps0)"
      using i that other [OF that, of k] peer(1) len ids by auto
    moreover have "ps_compute (?ps[k := threshold_assign (t_profile task) (?ps ! k)] ! j) =
          cpu_load d (th_decisions (threshold_step cfg l d v s)) (ps_id (ps0 ! j)) \<and>
        unat (ps_mem (?ps[k := threshold_assign (t_profile task) (?ps ! k)] ! j)) +
          mem_load d (th_decisions (threshold_step cfg l d v s)) (ps_id (ps0 ! j)) = unat (ps_mem (ps0 ! j))"
      if dist: "distinct (node_id l # map ps_id ps0)" and j: "j < length ps0" for j
    proof -
      have old: "ps_compute (?ps ! j) = cpu_load d (th_decisions s) (ps_id (ps0 ! j))"
        "unat (ps_mem (?ps ! j)) + mem_load d (th_decisions s) (ps_id (ps0 ! j)) = unat (ps_mem (ps0 ! j))"
        using i dist j len by auto
      show ?thesis
      proof (cases "j = k")
        case True
        with old mem peer(1) ids show ?thesis by (simp add: peer(3) task_views(1) [OF task])
      next
        case False
        with same [OF _ j] dist have "ps_id (?ps ! k) \<noteq> ps_id (ps0 ! j)"
          using ids [OF peer(1)] by auto
        with old False show ?thesis by (simp add: peer(3))
      qed
    qed
    ultimately show ?thesis
      using i keep node len unfolding threshold_inv_def peer(3-5) by auto
  qed
qed

lemma threshold_fold_inv:
  assumes "set xs \<subseteq> task_ids d"
  shows "threshold_inv d l (th_peers (threshold_init l c)) xs
    (fold (threshold_step cfg l d) xs (threshold_init l c))"
  using assms
proof (induction xs rule: rev_induct)
  case Nil
  have "ps_compute (th_peers (threshold_init l c) ! i) = 0" if "i < length (th_peers (threshold_init l c))" for i
    using that by (simp add: threshold_init_def)
  then show ?case by (simp add: threshold_inv_def) (simp add: threshold_init_def)
next
  case (snoc v xs)
  then show ?case by (simp add: threshold_step_inv)
qed

section \<open>The plan\<close>

lemma threshold_ids: "node_id l # map ps_id (th_peers (threshold_init l c)) = candidates l c"
  by (simp add: threshold_init_def candidates_def)

lemma threshold_schedule_inv:
  assumes "env_ok e" "dag_inv d" "closed_dag d"
  obtains s where
    "threshold_inv d l (th_peers (threshold_init l c)) (topological_order (env_order e) d) s"
    "th_decisions s = decisions (threshold_schedule cfg e d l c)"
    "estimated_makespan (threshold_schedule cfg e d l c) =
       max (local_compute s) (Max (insert 0 (ps_compute ` set (th_peers s))))"
proof (rule that)
  let ?s = "fold (threshold_step cfg l d) (topological_order (env_order e) d) (threshold_init l c)"
  show "threshold_inv d l (th_peers (threshold_init l c)) (topological_order (env_order e) d) ?s"
    by (rule threshold_fold_inv [OF topo_tasks [OF env_okD(1) [OF assms(1)] assms(2,3)]])
  show "th_decisions ?s = decisions (threshold_schedule cfg e d l c)"
    "estimated_makespan (threshold_schedule cfg e d l c) =
       max (local_compute ?s) (Max (insert 0 (ps_compute ` set (th_peers ?s))))"
    by (simp_all add: threshold_schedule_def Let_def fold_max_Max)
qed

interpretation threshold: scheduling_policy "\<lambda>e d l c. Some (threshold_schedule cfg e d l c)" for cfg
proof unfold_locales
  fix e d l c p x
  assume asm: "env_ok e" "dag_inv d" "closed_dag d" "Some (threshold_schedule cfg e d l c) = Some p"
  obtain s where inv: "threshold_inv d l (th_peers (threshold_init l c)) (topological_order (env_order e) d) s"
    and ds: "th_decisions s = decisions p"
    using threshold_schedule_inv [OF asm(1-3), of l c cfg] asm(4) by (metis option.inject)
  then show "mset (map d_task_id (decisions p)) = mset (topological_order (env_order e) d)"
    by (simp add: threshold_inv_def)
  assume "x \<in> set (decisions p)"
  with inv ds show "assigned_node x \<in> set (candidates l c)"
    unfolding threshold_ids [symmetric] by (auto simp: threshold_inv_def)
qed

text \<open>
  C15. The threshold policy assigns every task of a valid graph exactly once, to the local node or a
  reachable peer; with no reachable peer everything stays local.
\<close>

theorem threshold_assigns_every_task_once:
  assumes "env_ok e" "dag_inv d" "closed_dag d" "acyclic (edges d)"
  shows "distinct (map d_task_id (decisions (threshold_schedule cfg e d l c))) \<and>
    d_task_id ` set (decisions (threshold_schedule cfg e d l c)) = task_ids d \<and>
    assigned_node ` set (decisions (threshold_schedule cfg e d l c)) \<subseteq> set (candidates l c) \<and>
    (available_count c = 0 \<longrightarrow>
       assigned_node ` set (decisions (threshold_schedule cfg e d l c)) \<subseteq> {node_id l})"
  using threshold.once_each [OF assms(1-3) refl] threshold.all_tasks(1) [OF assms(1-4) refl]
    threshold.placed [OF assms(1-3) refl] threshold.local_only [OF assms(1-3) refl] by blast

definition sample_thresholds :: ThresholdPolicyConfig where
  "sample_thresholds = \<lparr>cpu_threshold_percent = Fin 75, memory_threshold_percent = Fin 80\<rparr>"

theorem threshold_assigns_every_task_once_witness:
  "d_task_id ` set (decisions (threshold_schedule sample_thresholds sample_env sample_dag sample_local sample_cluster))
     = task_ids sample_dag"
  using threshold_assigns_every_task_once [OF sample_env_ok sample_dag_ok sample_dag_acyclic] by blast

text \<open>
  C16. The threshold policy never commits more memory of a peer than the peer reported available.
\<close>

theorem threshold_peers_not_overcommitted:
  assumes "env_ok e" "dag_inv d" "closed_dag d" "distinct (candidates l c)"
    and "p \<in> set (peers c)" "p_reachable p"
  shows "mem_load d (decisions (threshold_schedule cfg e d l c)) (p_node_id p)
    \<le> unat (memory_available_bytes (p_resources p))"
proof -
  let ?ps = "th_peers (threshold_init l c)"
  obtain s where inv: "threshold_inv d l ?ps (topological_order (env_order e) d) s"
    and ds: "th_decisions s = decisions (threshold_schedule cfg e d l c)"
    using threshold_schedule_inv [OF assms(1-3), of l c cfg] by blast
  have "p \<in> set (filter p_reachable (peers c))" using assms(5,6) by simp
  then obtain k where k: "k < length (filter p_reachable (peers c))" "filter p_reachable (peers c) ! k = p"
    by (metis in_set_conv_nth)
  then have node: "k < length ?ps" "ps_id (?ps ! k) = p_node_id p"
    "ps_mem (?ps ! k) = memory_available_bytes (p_resources p)"
    by (simp_all add: threshold_init_def)
  have "length (th_peers s) = length ?ps"
    using inv map_eq_imp_length_eq by (auto simp: threshold_inv_def)
  then have "unat (ps_mem (th_peers s ! k)) + mem_load d (th_decisions s) (p_node_id p)
      = unat (memory_available_bytes (p_resources p))"
    using inv node assms(4) unfolding threshold_inv_def threshold_ids by metis
  then show ?thesis by (simp add: ds)
qed

theorem threshold_peers_not_overcommitted_witness:
  "mem_load sample_dag
     (decisions (threshold_schedule sample_thresholds sample_env sample_dag sample_local sample_cluster)) ''n1''
     \<le> unat (100 :: u64)"
proof -
  have "sample_peer ''n1'' 50 100 True \<in> set (peers sample_cluster)" by (simp add: sample_cluster_def)
  then show ?thesis
    using threshold_peers_not_overcommitted [OF sample_env_ok sample_dag_ok sample_candidates,
        of "sample_peer ''n1'' 50 100 True" sample_thresholds]
    by (simp add: sample_peer_def)
qed

text \<open>
  The threshold makespan estimate is the largest compute load of a candidate node under the plan
  (costs are non-negative).
\<close>

theorem threshold_makespan_max_load:
  assumes "env_ok e" "dag_inv d" "closed_dag d" "distinct (candidates l c)" "costs_nonneg d"
  shows "estimated_makespan (threshold_schedule cfg e d l c) =
    Max (cpu_load d (decisions (threshold_schedule cfg e d l c)) ` set (candidates l c))"
proof -
  define p where "p = threshold_schedule cfg e d l c"
  let ?ps = "th_peers (threshold_init l c)"
  obtain s where inv: "threshold_inv d l ?ps (topological_order (env_order e) d) s"
    and ds: "th_decisions s = decisions p"
    and span: "estimated_makespan p = max (local_compute s) (Max (insert 0 (ps_compute ` set (th_peers s))))"
    using threshold_schedule_inv [OF assms(1-3), of l c cfg] p_def by metis
  have len: "length (th_peers s) = length ?ps"
    using inv map_eq_imp_length_eq by (auto simp: threshold_inv_def)
  note i = inv [unfolded threshold_inv_def threshold_ids]
  have "map ps_compute (th_peers s) = map (cpu_load d (decisions p)) (map ps_id ?ps)"
    using i assms(4) len by (intro nth_equalityI) (auto simp: ds)
  then have peers: "ps_compute ` set (th_peers s) = cpu_load d (decisions p) ` set (map ps_id ?ps)"
    by (metis set_map)
  have here: "local_compute s = cpu_load d (decisions p) (node_id l)"
    using i assms(4) ds by simp
  let ?A = "cpu_load d (decisions p) ` set (map ps_id ?ps)"
  have "0 \<le> local_compute s" using cpu_load_nonneg [OF assms(5)] by (simp add: here)
  then have "max (local_compute s) (Max (insert 0 ?A)) = Max (insert (local_compute s) ?A)"
    by (cases "?A = {}") (auto simp: max_def)
  also have "insert (local_compute s) ?A = cpu_load d (decisions p) ` set (candidates l c)"
    unfolding here threshold_ids [symmetric] by simp
  finally show ?thesis by (simp add: span peers flip: p_def)
qed

theorem threshold_makespan_max_load_witness:
  "estimated_makespan (threshold_schedule sample_thresholds sample_env sample_dag sample_local sample_cluster) =
     Max (cpu_load sample_dag
       (decisions (threshold_schedule sample_thresholds sample_env sample_dag sample_local sample_cluster)) `
         set (candidates sample_local sample_cluster))"
  by (rule threshold_makespan_max_load [OF sample_env_ok sample_dag_ok sample_candidates sample_dag_costs(1)])

text \<open>
  A task that breaches a threshold goes to a peer with enough memory whose load no such peer
  undercuts; it stays local as a fallback only when no peer with enough memory reports a load below
  the largest float.
\<close>

theorem threshold_offload_least_loaded:
  assumes "get_task d v = Some t" "\<not> within_thresholds cfg (memory_total_bytes l) (t_profile t) s"
    and "i < length (th_peers s)" "memory_bytes (t_profile t) \<le> ps_mem (th_peers s ! i)"
    and "f32_less (ps_load (th_peers s ! i)) f32_max_value"
  shows "\<exists>k < length (th_peers s).
    last (th_decisions (threshold_step cfg l d v s)) =
      \<lparr>d_task_id = v, assigned_node = ps_id (th_peers s ! k), reason = ThresholdOffload\<rparr> \<and>
    memory_bytes (t_profile t) \<le> ps_mem (th_peers s ! k) \<and>
    \<not> f32_less (ps_load (th_peers s ! i)) (ps_load (th_peers s ! k))"
proof -
  let ?k = "threshold_pick (th_peers s) (t_profile t)"
  have fits: "peer_fits (th_peers s) (t_profile t) i" using assms(4) by (simp add: peer_fits_def)
  have k: "?k < length (th_peers s)" "peer_fits (th_peers s) (t_profile t) ?k"
    "\<not> f32_less (ps_load (th_peers s ! i)) (ps_load (th_peers s ! ?k))"
    using threshold_pick_cases [of "th_peers s" "t_profile t"] assms(3,5) fits by metis+
  with assms(1,2) show ?thesis
    by (intro exI [of _ ?k]) (simp add: threshold_step_def Let_def peer_fits_def)
qed

theorem threshold_offload_least_loaded_witness:
  "\<exists>k < length (th_peers (threshold_init sample_local sample_cluster)).
    last (th_decisions (threshold_step sample_thresholds sample_local sample_dag ''a''
        (threshold_init sample_local sample_cluster))) =
      \<lparr>d_task_id = ''a'', assigned_node = ps_id (th_peers (threshold_init sample_local sample_cluster) ! k),
       reason = ThresholdOffload\<rparr>"
proof -
  let ?s = "threshold_init sample_local sample_cluster"
  obtain t where t: "get_task sample_dag ''a'' = Some t" "memory_bytes (t_profile t) = 10"
  proof
    show "get_task sample_dag ''a'' = Some (sample_task ''a'' 5 10)"
      "memory_bytes (t_profile (sample_task ''a'' 5 10)) = 10" by code_simp+
  qed
  have "\<not> within_thresholds sample_thresholds (memory_total_bytes sample_local) (t_profile t) ?s"
    by (simp add: within_thresholds_def threshold_init_def sample_thresholds_def sample_local_def)
  moreover have "0 < length (th_peers ?s)" "memory_bytes (t_profile t) \<le> ps_mem (th_peers ?s ! 0)"
    "f32_less (ps_load (th_peers ?s ! 0)) f32_max_value"
    by (simp_all add: threshold_init_def sample_cluster_def sample_peer_def t(2) max_finite_def)
  ultimately show ?thesis
    using threshold_offload_least_loaded [OF t(1), of sample_thresholds sample_local ?s 0] by blast
qed

end
