(* ===== verification/Makespan.thy ===== *)
theory Makespan
  imports Scheduler "HOL-Library.Monad_Syntax"
begin

text \<open>
  The dependency-aware makespan estimate of the optimizer (\<^verbatim>\<open>estimate_makespan\<close> in
  \<^verbatim>\<open>src/scheduler/optimizer_policy.cpp\<close>): a list schedule in topological order with one execution
  slot per node and a transfer delay between nodes.
\<close>

section \<open>Operations\<close>

text \<open>
  A loop whose body may have no defined result: the body's \<open>None\<close> ends the loop.
\<close>

fun foldo :: "('a \<Rightarrow> 's \<Rightarrow> 's option) \<Rightarrow> 'a list \<Rightarrow> 's \<Rightarrow> 's option" where
  "foldo f [] s = Some s"
| "foldo f (x # xs) s = (case f x s of None \<Rightarrow> None | Some s' \<Rightarrow> foldo f xs s')"

text \<open>
  The transfer delay: a \<^verbatim>\<open>float\<close> product cast to \<^verbatim>\<open>int64_t\<close>, undefined when it is out of range.
\<close>

definition transfer_delay :: "f32 \<Rightarrow> Task \<Rightarrow> int option" where
  "transfer_delay comm_weight t =
     f32_to_i64 (f32_mul (f32_mul (f32_of_u64 (output_bytes (t_profile t))) comm_weight) (rnd (1 / 1000)))"

type_synonym assignment = "(TaskId, nat) umap"

definition dep_arrival ::
  "WorkloadDAG \<Rightarrow> assignment \<Rightarrow> f32 \<Rightarrow> nat \<Rightarrow> (TaskId, int) umap \<Rightarrow> TaskId \<Rightarrow> int \<Rightarrow> int option" where
  "dep_arrival d asg comm_weight node end_time dep ready = (case map_of end_time dep of
       None \<Rightarrow> Some ready
     | Some dep_end \<Rightarrow>
         do {
           arrival \<leftarrow> (case map_of asg dep of
               None \<Rightarrow> Some dep_end
             | Some dep_node \<Rightarrow>
                 if dep_node \<noteq> node
                 then (case get_task d dep of
                     None \<Rightarrow> Some dep_end
                   | Some dep_task \<Rightarrow> map_option (\<lambda>x. dep_end + x) (transfer_delay comm_weight dep_task))
                 else Some dep_end);
           Some (max ready arrival)
         })"

type_synonym span_state = "(TaskId, int) umap \<times> int list \<times> int"

definition makespan_step ::
  "WorkloadDAG \<Rightarrow> assignment \<Rightarrow> f32 \<Rightarrow> TaskId \<Rightarrow> span_state \<Rightarrow> span_state option" where
  "makespan_step d asg comm_weight i = (\<lambda>(end_time, node_free, makespan).
     case get_task d i of
       None \<Rightarrow> Some (end_time, node_free, makespan)
     | Some t \<Rightarrow> (case map_of asg i of
           None \<Rightarrow> Some (end_time, node_free, makespan)
         | Some node \<Rightarrow>
             do {
               ready \<leftarrow> foldo (dep_arrival d asg comm_weight node end_time) (dependencies d i) 0;
               let start = max ready (node_free ! node);
               let finish = start + compute_cost (t_profile t);
               Some (AList.update i finish end_time, node_free[node := finish], max makespan finish)
             }))"

definition estimate_makespan ::
  "SchedEnv \<Rightarrow> WorkloadDAG \<Rightarrow> nat \<Rightarrow> assignment \<Rightarrow> f32 \<Rightarrow> Duration option" where
  "estimate_makespan e d n asg comm_weight =
     map_option (\<lambda>(_, _, makespan). makespan)
       (foldo (makespan_step d asg comm_weight) (topological_order (env_order e) d) ([], replicate n 0, 0))"

section \<open>The estimate is defined\<close>

lemma foldo_append: "foldo f (xs @ ys) s = Option.bind (foldo f xs s) (foldo f ys)"
  by (induction xs arbitrary: s) (auto split: option.splits)

lemma foldo_total:
  assumes "\<And>x s. x \<in> set xs \<Longrightarrow> P s \<Longrightarrow> \<exists>s'. f x s = Some s' \<and> P s'"
  shows "P s \<Longrightarrow> \<exists>s'. foldo f xs s = Some s' \<and> P s'"
  using assms
proof (induction xs arbitrary: s)
  case (Cons x xs)
  then obtain s' where "f x s = Some s'" "P s'" by (metis list.set_intros(1))
  with Cons show ?case by auto
qed simp

text \<open>Rule for a loop invariant indexed by the prefix already run.\<close>

lemma foldo_invariant:
  assumes "foldo f xs s = Some r" "I [] s"
    and "\<And>ys x zs s s'. xs = ys @ x # zs \<Longrightarrow> I ys s \<Longrightarrow> f x s = Some s' \<Longrightarrow> I (ys @ [x]) s'"
  shows "I xs r"
  using assms
proof (induction xs arbitrary: r rule: rev_induct)
  case (snoc x xs)
  from snoc.prems(1) obtain s' where s': "foldo f xs s = Some s'" "f x s' = Some r"
    by (auto simp: foldo_append split: option.splits bind_splits)
  have "I xs s'"
    using s'(1) snoc.prems(2) by (rule snoc.IH) (use snoc.prems(3) in fastforce)
  then show ?case using s'(2) snoc.prems(3) [of xs x "[]"] by simp
qed simp

text \<open>A weight that keeps every delay in range: between zero and 25 (the default is 0.3).\<close>

definition weight_ok :: "f32 \<Rightarrow> bool" where
  "weight_ok w \<longleftrightarrow> (\<exists>r. w = Fin r \<and> 0 \<le> r \<and> r \<le> 25)"

lemma transfer_delay_total:
  assumes "weight_ok w"
  shows "\<exists>x \<ge> 0. transfer_delay w t = Some x"
proof -
  obtain r where w: "w = Fin r" "0 \<le> r" "r \<le> 25" using assms by (auto simp: weight_ok_def)
  define m where "m = unat (output_bytes (t_profile t))"
  let ?n = "of_nat m :: rat"
  have "m < 2 ^ 64"
    unfolding m_def using unsigned_less [of "output_bytes (t_profile t)", where ?'a = nat] by simp
  then have "?n < of_nat (2 ^ 64)" by (simp only: of_nat_less_iff)
  then have n: "0 \<le> ?n" "?n \<le> 2 ^ 64" by simp_all
  obtain a where a: "rnd ?n = Fin a" "0 \<le> a" "a \<le> 2 * ?n"
    by (rule rnd_double_bound [of ?n]) (use n in \<open>auto simp: max_finite_def\<close>)
  have ar: "0 \<le> a * r" "a * r \<le> 2 ^ 65 * 25"
    using a n w by (auto intro: mult_mono order_trans)
  obtain b where b: "rnd (a * r) = Fin b" "0 \<le> b" "b \<le> 2 * (a * r)"
    by (rule rnd_double_bound [of "a * r"]) (use ar in \<open>auto simp: max_finite_def\<close>)
  obtain k where k: "rnd (1 / 1000) = Fin k" "0 \<le> k" "k \<le> 2 * (1 / 1000)"
    by (rule rnd_double_bound [of "1 / 1000"]) (auto simp: max_finite_def)
  have b': "b \<le> 2 * (2 ^ 65 * 25)" using b(3) ar(2) by linarith
  have bk: "0 \<le> b * k" using b(2) k(2) by simp
  have bk': "b * k \<le> (2 * (2 ^ 65 * 25)) * (2 * (1 / 1000))"
    by (rule mult_mono [OF b' k(3)]) (use k(2) in simp_all)
  obtain v where v: "rnd (b * k) = Fin v" "0 \<le> v" "v \<le> 2 * (b * k)"
    by (rule rnd_double_bound [of "b * k"]) (use bk bk' in \<open>auto simp: max_finite_def\<close>)
  have "v < 2 ^ 63" using v(3) bk' by simp
  then have "\<lfloor>v\<rfloor> < 2 ^ 63" by (simp add: floor_less_iff)
  moreover have "0 \<le> \<lfloor>v\<rfloor>" using v(2) by simp
  ultimately show ?thesis
    using v(2)
    by (simp add: transfer_delay_def f32_of_u64_def f32_mul_def w(1) a(1) b(1) k(1) v(1)
        rat_trunc_def Let_def flip: m_def)
qed

lemma dep_arrival_total:
  assumes "weight_ok w"
  shows "\<exists>r. dep_arrival d asg w node end_time dep ready = Some r"
proof -
  have "transfer_delay w t \<noteq> None" for t using transfer_delay_total [OF assms, of t] by auto
  then have "dep_arrival d asg w node end_time dep ready \<noteq> None"
    by (auto simp: dep_arrival_def simp del: not_None_eq split: option.splits bind_splits)
  then show ?thesis by simp
qed

lemma dep_arrival_ge:
  assumes "weight_ok w" "dep_arrival d asg w node end_time dep ready = Some r"
  shows "ready \<le> r" and "map_of end_time dep = Some x \<Longrightarrow> x \<le> r"
proof -
  have delay: "0 \<le> y" if "transfer_delay w t = Some y" for t y
    using transfer_delay_total [OF assms(1), of t] that by auto
  show "ready \<le> r"
    using assms(2) by (auto simp: dep_arrival_def split: option.splits bind_splits if_splits)
  show "map_of end_time dep = Some x \<Longrightarrow> x \<le> r"
    using assms(2) by (auto simp: dep_arrival_def split: option.splits bind_splits if_splits dest!: delay)
qed

lemma ready_time_total:
  "weight_ok w \<Longrightarrow> \<exists>r. foldo (dep_arrival d asg w node end_time) deps z = Some r"
  using foldo_total [of deps "\<lambda>_. True" "dep_arrival d asg w node end_time" z] dep_arrival_total by auto

lemma ready_time_ge:
  assumes "weight_ok w"
  shows "foldo (dep_arrival d asg w node end_time) deps z = Some r \<Longrightarrow>
    z \<le> r \<and> (\<forall>p \<in> set deps. \<forall>x. map_of end_time p = Some x \<longrightarrow> x \<le> r)"
proof (induction deps arbitrary: z)
  case (Cons p deps)
  from Cons.prems obtain r' where r': "dep_arrival d asg w node end_time p z = Some r'"
    "foldo (dep_arrival d asg w node end_time) deps r' = Some r"
    by (auto split: option.splits)
  with Cons.IH [OF r'(2)] dep_arrival_ge [OF assms r'(1)] show ?case by force
qed simp

text \<open>With a dependency on the same node there is no delay.\<close>

lemma ready_time_same_node:
  assumes "\<And>p. p \<in> set deps \<Longrightarrow> map_of asg p = Some node" "\<And>p x. map_of end_time p = Some x \<Longrightarrow> x \<le> m"
  shows "foldo (dep_arrival d asg w node end_time) deps z = Some r \<Longrightarrow> z \<le> m \<Longrightarrow> r \<le> m"
  using assms(1)
proof (induction deps arbitrary: z)
  case (Cons p deps)
  then have "dep_arrival d asg w node end_time p z =
      Some (case map_of end_time p of None \<Rightarrow> z | Some x \<Rightarrow> max z x)"
    by (simp add: dep_arrival_def split: option.splits)
  with Cons assms(2) [of p] show ?case by (auto split: option.splits)
qed simp

lemma makespan_total:
  assumes "weight_ok w"
  shows "\<exists>m. estimate_makespan e d n asg w = Some m"
proof -
  have "foldo (dep_arrival d asg w node end_time) deps z \<noteq> None" for node end_time deps z
    using ready_time_total [OF assms, of d asg node end_time deps z] by auto
  then have "makespan_step d asg w i s \<noteq> None" for i s
    by (cases s) (auto simp: makespan_step_def Let_def simp del: not_None_eq split: option.splits bind_splits)
  then have "\<exists>s'. makespan_step d asg w i s = Some s'" for i s by (metis not_None_eq)
  then obtain s' where "foldo (makespan_step d asg w) (topological_order (env_order e) d)
      ([], replicate n 0, 0) = Some s'"
    using foldo_total [of "topological_order (env_order e) d" "\<lambda>_. True" "makespan_step d asg w"]
    by blast
  then show ?thesis by (simp add: estimate_makespan_def)
qed

text \<open>
  With a communication weight between 0 and 25 the estimate of any assignment is defined: no
  cast of a transfer delay leaves the range of its type.
\<close>

theorem estimate_makespan_defined:
  assumes "weight_ok w"
  shows "\<exists>m. estimate_makespan e d n asg w = Some m"
  using assms by (rule makespan_total)

section \<open>Bounds of the estimate\<close>

definition node_load :: "WorkloadDAG \<Rightarrow> assignment \<Rightarrow> TaskId list \<Rightarrow> nat \<Rightarrow> int" where
  "node_load d asg xs k = sum_list (map (\<lambda>v. if map_of asg v = Some k then task_cost d v else 0) xs)"

definition span_inv :: "WorkloadDAG \<Rightarrow> nat \<Rightarrow> assignment \<Rightarrow> TaskId list \<Rightarrow> span_state \<Rightarrow> bool" where
  "span_inv d n asg xs = (\<lambda>(end_time, node_free, makespan).
     um_keys end_time = set xs \<and> length node_free = n \<and> 0 \<le> makespan \<and>
     (\<forall>k < n. 0 \<le> node_free ! k \<and> node_load d asg xs k \<le> node_free ! k \<and> node_free ! k \<le> makespan) \<and>
     (\<forall>v \<in> set xs. task_cost d v \<le> um_get 0 end_time v \<and> um_get 0 end_time v \<le> makespan \<and>
        (\<forall>p \<in> set (dependencies d v). p \<in> set xs \<and>
           um_get 0 end_time p + task_cost d v \<le> um_get 0 end_time v)))"

definition assigned_all :: "WorkloadDAG \<Rightarrow> nat \<Rightarrow> assignment \<Rightarrow> bool" where
  "assigned_all d n asg \<longleftrightarrow> (\<forall>v \<in> task_ids d. \<exists>k < n. map_of asg v = Some k)"

lemma makespan_step_eq:
  assumes "v \<in> task_ids d" "map_of asg v = Some k"
    and "foldo (dep_arrival d asg w k end_time) (dependencies d v) 0 = Some r"
  shows "makespan_step d asg w v (end_time, node_free, m) =
    (let finish = max r (node_free ! k) + task_cost d v
     in Some (AList.update v finish end_time, node_free[k := finish], max m finish))"
proof -
  from assms(1) obtain t where t: "get_task d v = Some t" by (auto simp: get_task_def in_um_keys_iff)
  with assms show ?thesis by (simp add: makespan_step_def task_views Let_def)
qed

lemma span_inv_step:
  assumes inv: "span_inv d n asg xs s" and w: "weight_ok w" and nonneg: "costs_nonneg d"
    and v: "v \<in> task_ids d" "v \<notin> set xs" "set (dependencies d v) \<subseteq> set xs"
    and asg: "assigned_all d n asg" and step: "makespan_step d asg w v s = Some s'"
  shows "span_inv d n asg (xs @ [v]) s'"
proof -
  obtain end_time node_free m where s: "s = (end_time, node_free, m)" by (cases s)
  from asg v obtain k where k: "k < n" "map_of asg v = Some k" by (auto simp: assigned_all_def)
  obtain r where r: "foldo (dep_arrival d asg w k end_time) (dependencies d v) 0 = Some r"
    using ready_time_total [OF w] by blast
  let ?f = "max r (node_free ! k) + task_cost d v"
  have s': "s' = (AList.update v ?f end_time, node_free[k := ?f], max m ?f)"
    using step makespan_step_eq [OF v(1) k(2) r, of node_free m] by (simp add: s Let_def)
  note i = inv [unfolded span_inv_def s, simplified]
  note ready = ready_time_ge [OF w r]
  have c: "0 \<le> task_cost d v" using nonneg by (rule task_cost_nonneg)
  have dep: "p \<in> set xs \<and> um_get 0 end_time p \<le> r" if "p \<in> set (dependencies d v)" for p
  proof -
    from that v(3) have "p \<in> um_keys end_time" using i by auto
    then obtain x where "map_of end_time p = Some x" by (auto simp: in_um_keys_iff)
    with ready that v(3) show ?thesis by auto
  qed
  have nodes: "0 \<le> node_free[k := ?f] ! j \<and> node_load d asg (xs @ [v]) j \<le> node_free[k := ?f] ! j \<and>
      node_free[k := ?f] ! j \<le> max m ?f" if "j < n" for j
  proof (cases "j = k")
    case True
    have "node_load d asg xs k \<le> node_free ! k" using i k by auto
    then show ?thesis using True i k c ready by (auto simp: node_load_def le_max_iff_disj)
  next
    case False
    with i that k show ?thesis by (auto simp: node_load_def le_max_iff_disj)
  qed
  let ?e = "AList.update v ?f end_time"
  have old: "um_get 0 ?e x = um_get 0 end_time x" if "x \<in> set xs" for x
    using that v(2) by (auto simp: umap_simps)
  have new: "um_get 0 ?e v = ?f" by (simp add: umap_simps)
  have ends: "task_cost d x \<le> um_get 0 ?e x \<and> um_get 0 ?e x \<le> max m ?f \<and>
      (\<forall>p \<in> set (dependencies d x). p \<in> set (xs @ [v]) \<and> um_get 0 ?e p + task_cost d x \<le> um_get 0 ?e x)"
    if "x \<in> set (xs @ [v])" for x
  proof (cases "x = v")
    case True
    have "um_get 0 ?e p + task_cost d v \<le> ?f" if "p \<in> set (dependencies d v)" for p
      using dep [OF that] old [of p] by auto
    with True new ready dep show ?thesis by auto
  next
    case False
    with that have x: "x \<in> set xs" by simp
    with i old [OF x] show ?thesis by (auto simp: old le_max_iff_disj)
  qed
  have "um_keys ?e = set (xs @ [v])" "length (node_free[k := ?f]) = n" "0 \<le> max m ?f"
    using i by (auto simp: umap_simps le_max_iff_disj)
  with nodes ends show ?thesis unfolding span_inv_def s' by blast
qed

lemma topo_prefix:
  assumes "order_ok ord" "dag_inv d" "topological_order ord d = ys @ v # zs"
  shows "v \<notin> set ys" "set (dependencies d v) \<subseteq> set ys"
proof -
  show "v \<notin> set ys" using topological_order_spec(1) [OF assms(1,2)] assms(3) by auto
  have "v = topological_order ord d ! length ys" "length ys < length (topological_order ord d)"
    "take (length ys) (topological_order ord d) = ys"
    by (simp_all add: assms(3))
  then show "set (dependencies d v) \<subseteq> set ys"
    using topological_order_spec(2) [OF assms(1,2)]
    by (auto simp: topo_sorted_def simp flip: dependents_get dependents_iff_dependencies [OF assms(2)])
qed

lemma estimate_makespan_inv:
  assumes "env_ok e" "dag_inv d" "closed_dag d" "costs_nonneg d" "weight_ok w" "assigned_all d n asg"
    and "estimate_makespan e d n asg w = Some m"
  obtains end_time node_free where "span_inv d n asg (topological_order (env_order e) d) (end_time, node_free, m)"
proof -
  let ?topo = "topological_order (env_order e) d"
  note ord = env_okD(1) [OF assms(1)]
  from assms(7) obtain end_time node_free
    where run: "foldo (makespan_step d asg w) ?topo ([], replicate n 0, 0) = Some (end_time, node_free, m)"
    by (auto simp: estimate_makespan_def)
  have "span_inv d n asg ?topo (end_time, node_free, m)"
  proof (rule foldo_invariant [where I = "span_inv d n asg", OF run])
    show "span_inv d n asg [] ([], replicate n 0, 0)" by (simp add: span_inv_def node_load_def)
    fix ys v zs s s'
    assume split: "?topo = ys @ v # zs" and inv: "span_inv d n asg ys s" "makespan_step d asg w v s = Some s'"
    have "v \<in> task_ids d" using topo_tasks [OF ord assms(2,3)] split by auto
    then show "span_inv d n asg (ys @ [v]) s'"
      using span_inv_step [OF inv(1) assms(5,4)] topo_prefix [OF ord assms(2) split] assms(6) inv(2) by blast
  qed
  then show thesis by (rule that)
qed

lemma makespan_bounds:
  assumes "env_ok e" "dag_inv d" "closed_dag d" "acyclic (edges d)" "costs_nonneg d" "0 < task_count d"
    and "weight_ok w" "assigned_all d n asg" "estimate_makespan e d n asg w = Some m"
  shows "critical_path_cost (env_order e) d \<le> m"
    and "\<forall>k < n. node_load d asg (topological_order (env_order e) d) k \<le> m"
proof -
  let ?topo = "topological_order (env_order e) d"
  note ord = env_okD(1) [OF assms(1)]
  obtain end_time node_free where inv: "span_inv d n asg ?topo (end_time, node_free, m)"
    using assms(1-3,5,7-9) by (rule estimate_makespan_inv)
  have all: "set ?topo = task_ids d" using ord assms(2-4) by (rule topological_order_complete_set)
  have chain: "c \<le> um_get 0 end_time v" if "chain d v c" for v c
    using that
  proof (induction rule: chain.induct)
    case (single v)
    with inv all show ?case by (auto simp: span_inv_def)
  next
    case (extend u c v)
    then have "u \<in> set (dependencies d v)" by (simp add: edges_iff' [OF assms(2)])
    then have "um_get 0 end_time u + task_cost d v \<le> um_get 0 end_time v"
      using inv all extend(3) by (auto simp: span_inv_def)
    with extend.IH show ?case by simp
  qed
  obtain v where v: "chain d v (critical_path_cost (env_order e) d)"
    using longest_chain [OF ord assms(2-6)] by blast
  then have "v \<in> task_ids d" by (cases rule: chain.cases) auto
  with inv all have "um_get 0 end_time v \<le> m" by (auto simp: span_inv_def)
  with chain [OF v] show "critical_path_cost (env_order e) d \<le> m" by simp
  show "\<forall>k < n. node_load d asg ?topo k \<le> m" using inv by (force simp: span_inv_def)
qed

text \<open>
  C17. The estimate respects the dependencies and the single slot of each node: it is at least the
  critical path of the graph, and at least the compute load of every node.
\<close>

theorem estimate_makespan_lower_bounds:
  assumes "env_ok e" "dag_inv d" "closed_dag d" "acyclic (edges d)" "costs_nonneg d" "0 < task_count d"
    and "weight_ok w" "assigned_all d n asg" "estimate_makespan e d n asg w = Some m"
  shows "critical_path_cost (env_order e) d \<le> m \<and>
    (\<forall>k < n. node_load d asg (topological_order (env_order e) d) k \<le> m)"
  using makespan_bounds [OF assms] by blast

text \<open>Everything on one node: the tasks run one after the other.\<close>

definition serial_inv :: "WorkloadDAG \<Rightarrow> nat \<Rightarrow> nat \<Rightarrow> TaskId list \<Rightarrow> span_state \<Rightarrow> bool" where
  "serial_inv d n k xs = (\<lambda>(end_time, node_free, makespan).
     length node_free = n \<and> node_free ! k = sum_list (map (task_cost d) xs) \<and> makespan = node_free ! k \<and>
     (\<forall>p x. map_of end_time p = Some x \<longrightarrow> x \<le> node_free ! k))"

lemma serial_inv_step:
  assumes inv: "serial_inv d n k xs s" and w: "weight_ok w" and nonneg: "costs_nonneg d"
    and k: "k < n" "map_of asg v = Some k" "v \<in> task_ids d"
      "\<And>p. p \<in> set (dependencies d v) \<Longrightarrow> map_of asg p = Some k"
    and step: "makespan_step d asg w v s = Some s'"
  shows "serial_inv d n k (xs @ [v]) s'"
proof -
  obtain end_time node_free m where s: "s = (end_time, node_free, m)" by (cases s)
  note i = inv [unfolded serial_inv_def s, simplified]
  obtain r where r: "foldo (dep_arrival d asg w k end_time) (dependencies d v) 0 = Some r"
    using ready_time_total [OF w] by blast
  have c: "0 \<le> task_cost d v" using nonneg by (rule task_cost_nonneg)
  have "0 \<le> node_free ! k"
    using i by (auto intro!: sum_list_nonneg simp: task_cost_nonneg [OF nonneg])
  then have "r \<le> node_free ! k"
    by (intro ready_time_same_node [OF k(4) _ r]) (use i in auto)
  then have "s' = (AList.update v (node_free ! k + task_cost d v) end_time,
      node_free[k := node_free ! k + task_cost d v], max m (node_free ! k + task_cost d v))"
    using step makespan_step_eq [OF k(3,2) r, of node_free m] by (simp add: s Let_def max_absorb2)
  then show ?thesis using i c k(1) by (auto simp: serial_inv_def umap_simps max_absorb2 split: if_splits) force
qed

lemma total_cost_topo:
  assumes "order_ok ord" "dag_inv d" "closed_dag d" "acyclic (edges d)"
  shows "sum_list (map (task_cost d) (topological_order ord d)) = total_compute_cost ord d"
  using topological_order_complete_set [OF assms] topological_order_spec(1) [OF assms(1,2)]
  by (simp add: total_compute_cost_sum [OF assms(1,2)] sum_list_distinct_conv_sum_set)

text \<open>
  With every task on one node the estimate is the cost of all tasks together: nothing runs in
  parallel and nothing is transferred.
\<close>

theorem estimate_makespan_single_node:
  assumes "env_ok e" "dag_inv d" "closed_dag d" "acyclic (edges d)" "costs_nonneg d" "weight_ok w"
    and "k < n" "\<And>v. v \<in> task_ids d \<Longrightarrow> map_of asg v = Some k"
  shows "estimate_makespan e d n asg w = Some (total_compute_cost (env_order e) d)"
proof -
  let ?topo = "topological_order (env_order e) d"
  note ord = env_okD(1) [OF assms(1)]
  obtain m end_time node_free
    where m: "estimate_makespan e d n asg w = Some m"
      and run: "foldo (makespan_step d asg w) ?topo ([], replicate n 0, 0) = Some (end_time, node_free, m)"
    using makespan_total [OF assms(6), of e d n asg] by (auto simp: estimate_makespan_def)
  have "serial_inv d n k ?topo (end_time, node_free, m)"
  proof (rule foldo_invariant [where I = "serial_inv d n k", OF run])
    show "serial_inv d n k [] ([], replicate n 0, 0)" using assms(7) by (simp add: serial_inv_def)
    fix ys v zs s s'
    assume split: "?topo = ys @ v # zs" and inv: "serial_inv d n k ys s" "makespan_step d asg w v s = Some s'"
    have "v \<in> task_ids d" using topo_tasks [OF ord assms(2,3)] split by auto
    moreover have "map_of asg p = Some k" if "p \<in> set (dependencies d v)" for p
      using closed_dependencies [OF assms(2,3) that] assms(8) by blast
    ultimately show "serial_inv d n k (ys @ [v]) s'"
      using serial_inv_step [OF inv(1) assms(6,5,7)] assms(8) inv(2) by blast
  qed
  then show ?thesis using total_cost_topo [OF ord assms(2-4)] m by (simp add: serial_inv_def)
qed

section \<open>Examples\<close>

definition sample_weight :: f32 where
  "sample_weight = Fin (1 / 4)"

lemma sample_weight_ok: "weight_ok sample_weight"
  unfolding weight_ok_def sample_weight_def by (rule exI [of _ "1 / 4"]) simp

definition sample_assignment :: assignment where
  "sample_assignment = [(''a'', 0), (''b'', 1), (''c'', 0), (''e'', 1)]"

theorem estimate_makespan_defined_witness:
  "\<exists>m. estimate_makespan sample_env sample_dag 2 sample_assignment sample_weight = Some m"
  by (rule estimate_makespan_defined [OF sample_weight_ok])

theorem estimate_makespan_lower_bounds_witness:
  "\<exists>m. estimate_makespan sample_env sample_dag 2 sample_assignment sample_weight = Some m \<and>
     critical_path_cost (env_order sample_env) sample_dag \<le> m"
proof -
  obtain m where m: "estimate_makespan sample_env sample_dag 2 sample_assignment sample_weight = Some m"
    using makespan_total [OF sample_weight_ok] by blast
  have "assigned_all sample_dag 2 sample_assignment"
    by (simp add: assigned_all_def sample_dag_ids sample_assignment_def)
  from estimate_makespan_lower_bounds [OF sample_env_ok sample_dag_ok sample_dag_acyclic
      sample_dag_costs sample_weight_ok this m]
  show ?thesis using m by blast
qed

theorem estimate_makespan_single_node_witness:
  "estimate_makespan sample_env sample_dag 3 [(''a'', 2), (''b'', 2), (''c'', 2), (''e'', 2)] sample_weight
     = Some (total_compute_cost (env_order sample_env) sample_dag)"
  by (rule estimate_makespan_single_node [OF sample_env_ok sample_dag_ok sample_dag_acyclic
        sample_dag_costs(1) sample_weight_ok, of 2]) (auto simp: sample_dag_ids)

end
