(* ===== verification/Optimizer_Policy.thy ===== *)
theory Optimizer_Policy
  imports Makespan
begin

text \<open>
  The optimizer policy (\<^verbatim>\<open>src/scheduler/optimizer_policy.cpp\<close>): critical-path assignment, bin packing
  of the remaining tasks and a local search that moves one task at a time. A call has no result
  (\<open>None\<close>) when a float does not fit the integer it is cast to, when \<^verbatim>\<open>erase\<close> gets an end iterator, or
  when the walk back along the critical path does not end; \<open>optimizer_total\<close> shows that none of this
  happens. Sums of durations are sums of integers: an overflow of \<^verbatim>\<open>int64_t\<close> is not represented.
\<close>

section \<open>Data\<close>

record OptimizerPolicyConfig =
  max_iterations :: u32
  communication_weight :: f32

record NodeBudget =
  nb_id :: NodeId
  nb_capacity :: u64
  nb_used :: u64
  nb_compute :: Duration
  nb_tasks :: "TaskId list"

definition memory_remaining :: "NodeBudget \<Rightarrow> u64" where
  "memory_remaining n = (if nb_capacity n > nb_used n then nb_capacity n - nb_used n else 0)"

definition node_budgets :: "ResourceSnapshot \<Rightarrow> ClusterView \<Rightarrow> NodeBudget list" where
  "node_budgets l c =
     \<lparr>nb_id = node_id l, nb_capacity = memory_available_bytes l, nb_used = 0, nb_compute = 0, nb_tasks = []\<rparr> #
     map (\<lambda>p. \<lparr>nb_id = p_node_id p, nb_capacity = memory_available_bytes (p_resources p), nb_used = 0,
               nb_compute = 0, nb_tasks = []\<rparr>)
       (filter p_reachable (peers c))"

definition budget_add :: "TaskId \<Rightarrow> TaskProfile \<Rightarrow> NodeBudget \<Rightarrow> NodeBudget" where
  "budget_add i profile n =
     n\<lparr>nb_used := nb_used n + memory_bytes profile, nb_compute := nb_compute n + compute_cost profile,
       nb_tasks := nb_tasks n @ [i]\<rparr>"

section \<open>Phase 1: the critical path\<close>

text \<open>\<^verbatim>\<open>dist[v]\<close> creates a missing entry with value zero.\<close>

definition opt_relax ::
  "WorkloadDAG \<Rightarrow> TaskId \<Rightarrow> TaskId \<Rightarrow> distances \<times> (TaskId, TaskId) umap \<Rightarrow> distances \<times> (TaskId, TaskId) umap" where
  "opt_relax d u v = (\<lambda>(dst, predecessor). case get_task d v of
       None \<Rightarrow> (dst, predecessor)
     | Some v_task \<Rightarrow>
         let dst' = um_emplace v 0 (um_emplace u 0 dst);
             candidate = um_get 0 dst' u + compute_cost (t_profile v_task)
         in if candidate > um_get 0 dst' v
            then (AList.update v candidate dst', AList.update v u predecessor)
            else (dst', predecessor))"

definition opt_dist_step ::
  "WorkloadDAG \<Rightarrow> TaskId \<Rightarrow> distances \<times> (TaskId, TaskId) umap \<Rightarrow> distances \<times> (TaskId, TaskId) umap" where
  "opt_dist_step d u = (\<lambda>(dst, predecessor). case get_task d u of
       None \<Rightarrow> (dst, predecessor)
     | Some t \<Rightarrow>
         let dst' = (if dependencies d u = [] then AList.update u (compute_cost (t_profile t)) dst else dst)
         in fold (opt_relax d u) (dependents d u) (dst', predecessor))"

definition opt_distances :: "WorkloadDAG \<Rightarrow> TaskId list \<Rightarrow> distances \<times> (TaskId, TaskId) umap" where
  "opt_distances d topo =
     fold (opt_dist_step d) topo (fold (\<lambda>i dst. AList.update i 0 dst) topo [], [])"

definition opt_end_task :: "order \<Rightarrow> distances \<Rightarrow> TaskId" where
  "opt_end_task ord dst =
     snd (fold (\<lambda>(i, x) (max_dist, end_task). if x > max_dist then (x, i) else (max_dist, end_task))
            (traverse ord dst) (-1, []))"

partial_function (option) trace_back :: "(TaskId, TaskId) umap \<Rightarrow> TaskId \<Rightarrow> TaskId list \<Rightarrow> TaskId list option" where
  "trace_back predecessor cur critical_set =
     (if cur = [] then Some critical_set
      else trace_back predecessor (case map_of predecessor cur of Some p \<Rightarrow> p | None \<Rightarrow> [])
             (List.insert cur critical_set))"

definition critical_path_assignment ::
  "SchedEnv \<Rightarrow> WorkloadDAG \<Rightarrow> ResourceSnapshot \<Rightarrow> SchedulingPlan option" where
  "critical_path_assignment e d l =
     (let topo = topological_order (env_order e) d;
          plan = \<lparr>decisions = [], estimated_makespan = 0, computed_at = env_now e\<rparr>
      in if topo = [] then Some plan
         else let (dst, predecessor) = opt_distances d topo
           in do {
             critical_set \<leftarrow> trace_back predecessor (opt_end_task (env_order e) dst) [];
             Some (plan\<lparr>decisions := map (\<lambda>i. \<lparr>d_task_id = i, assigned_node = node_id l, reason = OptimizationResult\<rparr>)
               (filter (\<lambda>i. i \<in> set critical_set) topo)\<rparr>)
           })"

section \<open>Phase 2: bin packing\<close>

fun charge_first :: "NodeId \<Rightarrow> TaskId \<Rightarrow> TaskProfile \<Rightarrow> NodeBudget list \<Rightarrow> NodeBudget list" where
  "charge_first n i profile [] = []"
| "charge_first n i profile (b # bs) =
     (if nb_id b = n then budget_add i profile b # bs else b # charge_first n i profile bs)"

definition charge_decision :: "WorkloadDAG \<Rightarrow> SchedulingDecision \<Rightarrow> NodeBudget list \<Rightarrow> NodeBudget list" where
  "charge_decision d x nodes = (case get_task d (d_task_id x) of
       None \<Rightarrow> nodes
     | Some t \<Rightarrow> charge_first (assigned_node x) (d_task_id x) (t_profile t) nodes)"

definition ffd_pick :: "NodeBudget list \<Rightarrow> TaskProfile \<Rightarrow> nat" where
  "ffd_pick nodes profile =
     (let best = snd (scan (\<lambda>i. memory_remaining (nodes ! i) \<ge> memory_bytes profile) (<)
                        (\<lambda>i. nb_compute (nodes ! i)) (length nodes) (2 ^ 63 - 1, length nodes))
      in if best \<ge> length nodes then 0 else best)"

definition pack_step ::
  "WorkloadDAG \<Rightarrow> TaskId \<Rightarrow> NodeBudget list \<times> SchedulingDecision list
     \<Rightarrow> NodeBudget list \<times> SchedulingDecision list" where
  "pack_step d i = (\<lambda>(nodes, ds). case get_task d i of
       None \<Rightarrow> (nodes, ds)
     | Some t \<Rightarrow>
         let best = ffd_pick nodes (t_profile t)
         in (nodes[best := budget_add i (t_profile t) (nodes ! best)],
             ds @ [\<lparr>d_task_id = i, assigned_node = nb_id (nodes ! best), reason = OptimizationResult\<rparr>]))"

definition dearer :: "WorkloadDAG \<Rightarrow> TaskId \<Rightarrow> TaskId \<Rightarrow> bool" where
  "dearer d a b = (task_cost d a > task_cost d b)"

definition bin_pack_remaining ::
  "SchedEnv \<Rightarrow> SchedulingPlan \<Rightarrow> WorkloadDAG \<Rightarrow> ResourceSnapshot \<Rightarrow> ClusterView \<Rightarrow> SchedulingPlan" where
  "bin_pack_remaining e plan d l c =
     (let assigned = d_task_id ` set (decisions plan);
          nodes = fold (charge_decision d) (decisions plan) (node_budgets l c);
          remaining = filter (\<lambda>i. i \<notin> assigned) (topological_order (env_order e) d)
      in plan\<lparr>decisions := snd (fold (pack_step d) (env_sort e (dearer d) remaining) (nodes, decisions plan))\<rparr>)"

section \<open>Phase 3: local search\<close>

definition node_index :: "NodeBudget list \<Rightarrow> (NodeId, nat) umap" where
  "node_index nodes = fold (\<lambda>i m. AList.update (nb_id (nodes ! i)) i m) [0..<length nodes] []"

definition register_decision ::
  "WorkloadDAG \<Rightarrow> (NodeId, nat) umap \<Rightarrow> SchedulingDecision \<Rightarrow> NodeBudget list \<times> assignment
     \<Rightarrow> NodeBudget list \<times> assignment" where
  "register_decision d index x = (\<lambda>(nodes, asg). case get_task d (d_task_id x) of
       None \<Rightarrow> (nodes, asg)
     | Some t \<Rightarrow> (case map_of index (assigned_node x) of
           None \<Rightarrow> (nodes, asg)
         | Some idx \<Rightarrow>
             (nodes[idx := budget_add (d_task_id x) (t_profile t) (nodes ! idx)],
              AList.update (d_task_id x) idx asg)))"

record SearchState =
  ss_decisions :: "SchedulingDecision list"
  ss_nodes :: "NodeBudget list"
  ss_asg :: assignment
  ss_makespan :: Duration
  ss_rng :: nat

text \<open>Moving a task off a node; \<^verbatim>\<open>erase\<close> of a task that is not listed is undefined.\<close>

definition budget_remove :: "TaskId \<Rightarrow> TaskProfile \<Rightarrow> NodeBudget \<Rightarrow> NodeBudget option" where
  "budget_remove i profile n =
     (if i \<in> set (nb_tasks n)
      then Some (n\<lparr>nb_compute := nb_compute n - compute_cost profile, nb_used := nb_used n - memory_bytes profile,
                   nb_tasks := remove1 i (nb_tasks n)\<rparr>)
      else None)"

definition search_move ::
  "OptimizerPolicyConfig \<Rightarrow> SchedEnv \<Rightarrow> WorkloadDAG \<Rightarrow> nat \<Rightarrow> TaskId \<Rightarrow> TaskProfile \<Rightarrow> nat \<Rightarrow> nat
     \<Rightarrow> SearchState \<Rightarrow> SearchState option" where
  "search_move cfg e d task_idx i profile from to s =
     do {
       from' \<leftarrow> budget_remove i profile (ss_nodes s ! from);
       let nodes = (ss_nodes s)[from := from', to := budget_add i profile (ss_nodes s ! to)];
       let asg = AList.update i to (ss_asg s);
       new_makespan \<leftarrow> estimate_makespan e d (length nodes) asg (communication_weight cfg);
       if new_makespan < ss_makespan s
       then Some (s\<lparr>ss_nodes := nodes, ss_asg := asg, ss_makespan := new_makespan,
                    ss_decisions := (ss_decisions s)[task_idx :=
                      (ss_decisions s ! task_idx)\<lparr>assigned_node := nb_id (nodes ! to)\<rparr>]\<rparr>)
       else let to' = (nodes ! to)\<lparr>nb_compute := nb_compute (nodes ! to) - compute_cost profile,
                        nb_used := nb_used (nodes ! to) - memory_bytes profile,
                        nb_tasks := butlast (nb_tasks (nodes ! to))\<rparr>
         in Some (s\<lparr>ss_nodes := nodes[to := to', from := budget_add i profile from'],
                    ss_asg := AList.update i from asg\<rparr>)
     }"

definition search_step ::
  "OptimizerPolicyConfig \<Rightarrow> SchedEnv \<Rightarrow> WorkloadDAG \<Rightarrow> SearchState \<Rightarrow> SearchState option" where
  "search_step cfg e d s =
     (let (task_idx, g) = env_uniform e (ss_rng s) (length (ss_decisions s) - 1);
          i = d_task_id (ss_decisions s ! task_idx)
      in case get_task d i of
           None \<Rightarrow> Some (s\<lparr>ss_rng := g\<rparr>)
         | Some t \<Rightarrow>
             let from = um_get 0 (ss_asg s) i;
                 asg = um_emplace i 0 (ss_asg s);
                 (to, g') = env_uniform e g (length (ss_nodes s) - 1);
                 s' = s\<lparr>ss_rng := g', ss_asg := asg\<rparr>
             in if to = from then Some s'
                else if memory_remaining (ss_nodes s ! to) < memory_bytes (t_profile t) then Some s'
                else search_move cfg e d task_idx i (t_profile t) from to s')"

primrec search_loop ::
  "OptimizerPolicyConfig \<Rightarrow> SchedEnv \<Rightarrow> WorkloadDAG \<Rightarrow> nat \<Rightarrow> SearchState \<Rightarrow> SearchState option" where
  "search_loop cfg e d 0 s = Some s"
| "search_loop cfg e d (Suc n) s =
     (if ss_decisions s = [] then Some s
      else case search_step cfg e d s of None \<Rightarrow> None | Some s' \<Rightarrow> search_loop cfg e d n s')"

definition local_search_improve ::
  "OptimizerPolicyConfig \<Rightarrow> SchedEnv \<Rightarrow> SchedulingPlan \<Rightarrow> WorkloadDAG \<Rightarrow> ResourceSnapshot \<Rightarrow> ClusterView
     \<Rightarrow> SchedulingPlan option" where
  "local_search_improve cfg e plan d l c =
     (let nodes0 = node_budgets l c
      in if length (decisions plan) < 2 then Some plan
         else if length nodes0 < 2 then Some plan
         else let (nodes, asg) = fold (register_decision d (node_index nodes0)) (decisions plan) (nodes0, [])
           in do {
             current_makespan \<leftarrow> estimate_makespan e d (length nodes) asg (communication_weight cfg);
             s \<leftarrow> search_loop cfg e d (unat (max_iterations cfg))
               \<lparr>ss_decisions = decisions plan, ss_nodes = nodes, ss_asg = asg,
                ss_makespan = current_makespan, ss_rng = env_seed e 42\<rparr>;
             Some (plan\<lparr>decisions := ss_decisions s, estimated_makespan := ss_makespan s\<rparr>)
           })"

definition optimizer_schedule ::
  "OptimizerPolicyConfig \<Rightarrow> SchedEnv \<Rightarrow> WorkloadDAG \<Rightarrow> ResourceSnapshot \<Rightarrow> ClusterView
     \<Rightarrow> SchedulingPlan option" where
  "optimizer_schedule cfg e d l c =
     do {
       plan \<leftarrow> critical_path_assignment e d l;
       local_search_improve cfg e (bin_pack_remaining e plan d l c) d l c
     }"

section \<open>The walk along the critical path returns\<close>

text \<open>Every predecessor entry is an edge from a task of the topological order.\<close>

lemma opt_relax_preds:
  assumes "\<And>x y. map_of (snd s) x = Some y \<Longrightarrow> y \<in> A \<and> (y, x) \<in> R" "u \<in> A" "(u, v) \<in> R"
    and "map_of (snd (opt_relax d u v s)) x = Some y"
  shows "y \<in> A \<and> (y, x) \<in> R"
  using assms
  by (cases s) (auto simp: opt_relax_def Let_def umap_simps split: option.splits if_splits)

lemma opt_relaxes_preds:
  assumes "u \<in> A" "\<And>v. v \<in> set vs \<Longrightarrow> (u, v) \<in> R"
    and "\<And>x y. map_of (snd s) x = Some y \<Longrightarrow> y \<in> A \<and> (y, x) \<in> R"
  shows "map_of (snd (fold (opt_relax d u) vs s)) x = Some y \<Longrightarrow> y \<in> A \<and> (y, x) \<in> R"
  using assms(2,3)
proof (induction vs arbitrary: s x y)
  case (Cons v vs)
  have "map_of (snd (opt_relax d u v s)) x = Some y \<Longrightarrow> y \<in> A \<and> (y, x) \<in> R" for x y
    by (rule opt_relax_preds [OF Cons.prems(3) assms(1) Cons.prems(2)]) simp_all
  then show ?case using Cons.IH [of "opt_relax d u v s" x y] Cons.prems(1,2) by simp
qed simp

lemma opt_distances_preds:
  assumes "map_of (snd (opt_distances d topo)) x = Some y"
  shows "y \<in> set topo \<and> (y, x) \<in> edges d"
proof -
  have "map_of (snd (fold (opt_dist_step d) us s)) x = Some y \<Longrightarrow>
      (\<And>x y. map_of (snd s) x = Some y \<Longrightarrow> y \<in> set topo \<and> (y, x) \<in> edges d) \<Longrightarrow>
      set us \<subseteq> set topo \<Longrightarrow> y \<in> set topo \<and> (y, x) \<in> edges d" for us s x y
  proof (induction us arbitrary: s x y)
    case (Cons u us)
    have "y \<in> set topo \<and> (y, x) \<in> edges d" if "map_of (snd (opt_dist_step d u s)) x = Some y" for x y
    proof (cases "get_task d u")
      case None
      with that Cons.prems(2) show ?thesis by (cases s) (simp add: opt_dist_step_def)
    next
      case (Some t)
      obtain dst pr where s: "s = (dst, pr)" by force
      from that Some Cons.prems(2) show ?thesis
        unfolding s opt_dist_step_def by (simp add: Let_def)
          (rule opt_relaxes_preds [of u "set topo" "dependents d u" "edges d"],
            use Cons.prems(3) in \<open>auto simp: edges_iff\<close>)
    qed
    with Cons.IH [of "opt_dist_step d u s" x y] Cons.prems(1,3) show ?case by simp
  qed simp
  from this [of topo "(fold (\<lambda>i dst. AList.update i 0 dst) topo [], [])" x y] assms
  show ?thesis by (simp add: opt_distances_def)
qed

lemma trace_back_total:
  fixes rank :: "TaskId \<Rightarrow> nat"
  assumes "\<And>x y. map_of pr x = Some y \<Longrightarrow> rank y < rank x"
  shows "\<exists>S. trace_back pr cur acc = Some S"
proof (induction "rank cur" arbitrary: cur acc rule: less_induct)
  case less
  show ?case
  proof (cases "map_of pr cur")
    case None
    then show ?thesis by (subst trace_back.simps) (simp add: trace_back.simps)
  next
    case (Some p)
    with assms less show ?thesis by (subst trace_back.simps) auto
  qed
qed

lemma position_edge:
  assumes "order_ok ord" "dag_inv d" "(u, v) \<in> edges d" "u \<in> set (topological_order ord d)"
  shows "position (topological_order ord d) u < position (topological_order ord d) v"
proof (cases "v \<in> set (topological_order ord d)")
  case True
  from position_nth [OF this] topological_order_spec(2) [OF assms(1,2)] assms(3)
  have "u \<in> set (take (position (topological_order ord d) v) (topological_order ord d))"
    by (auto simp: topo_sorted_def edges_iff dependents_get)
  then show ?thesis by (rule position_take)
next
  case False
  with position_nth [OF assms(4)] show ?thesis by (simp add: position_notin)
qed

lemma critical_path_assignment_total:
  assumes "env_ok e" "dag_inv d"
  obtains plan crit where "critical_path_assignment e d l = Some plan"
    "decisions plan = map (\<lambda>i. \<lparr>d_task_id = i, assigned_node = node_id l, reason = OptimizationResult\<rparr>)
       (filter (\<lambda>i. i \<in> crit) (topological_order (env_order e) d))"
    "estimated_makespan plan = 0"
proof -
  let ?topo = "topological_order (env_order e) d"
  obtain dst pr where dp: "opt_distances d ?topo = (dst, pr)" by force
  have "position ?topo y < position ?topo x" if "map_of pr x = Some y" for x y
    using opt_distances_preds [of d ?topo x y] that position_edge [OF env_okD(1) [OF assms(1)] assms(2)]
    by (simp add: dp)
  then obtain S where S: "trace_back pr (opt_end_task (env_order e) dst) [] = Some S"
    using trace_back_total [of pr "position ?topo"] by blast
  show thesis
  proof (cases "?topo = []")
    case True
    then show ?thesis
      by (intro that [of "\<lparr>decisions = [], estimated_makespan = 0, computed_at = env_now e\<rparr>"])
        (simp_all add: critical_path_assignment_def Let_def)
  next
    case False
    then show ?thesis
      by (intro that [of "\<lparr>decisions = map (\<lambda>i. \<lparr>d_task_id = i, assigned_node = node_id l,
            reason = OptimizationResult\<rparr>) (filter (\<lambda>i. i \<in> set S) ?topo),
            estimated_makespan = 0, computed_at = env_now e\<rparr>" "set S"])
        (simp_all add: critical_path_assignment_def Let_def dp S)
  qed
qed

section \<open>Memory budgets\<close>

text \<open>
  The budgets are those of the candidate nodes; the budget of a peer records the memory of the
  decisions in \<open>ds\<close> that use it, which stays within its capacity.
\<close>

definition budgets_ok ::
  "WorkloadDAG \<Rightarrow> ResourceSnapshot \<Rightarrow> ClusterView \<Rightarrow> NodeBudget list \<Rightarrow> SchedulingDecision list \<Rightarrow> bool" where
  "budgets_ok d l c nodes ds \<longleftrightarrow>
     map nb_id nodes = candidates l c \<and> map nb_capacity nodes = map nb_capacity (node_budgets l c) \<and>
     (distinct (candidates l c) \<longrightarrow> (\<forall>k < length nodes. 0 < k \<longrightarrow>
        unat (nb_used (nodes ! k)) = mem_load d ds (nb_id (nodes ! k)) \<and>
        nb_used (nodes ! k) \<le> nb_capacity (nodes ! k)))"

lemma budgets_okD:
  assumes "budgets_ok d l c nodes ds"
  shows "length nodes = length (candidates l c)" "0 < length nodes"
    and "k < length nodes \<Longrightarrow> nb_id (nodes ! k) = candidates l c ! k"
proof -
  have *: "map nb_id nodes = candidates l c" using assms by (simp add: budgets_ok_def)
  then show "length nodes = length (candidates l c)" by (metis length_map)
  then show "0 < length nodes" by (simp add: candidates_def)
  show "k < length nodes \<Longrightarrow> nb_id (nodes ! k) = candidates l c ! k" by (metis * nth_map)
qed

lemma same_id_iff:
  assumes "budgets_ok d l c nodes ds" "distinct (candidates l c)" "j < length nodes" "k < length nodes"
  shows "nb_id (nodes ! j) = nb_id (nodes ! k) \<longleftrightarrow> j = k"
  using assms by (metis (no_types, lifting) budgets_okD(1,3) nth_eq_iff_index_eq)

lemma budget_add_simps [simp]:
  "nb_id (budget_add i profile n) = nb_id n" "nb_capacity (budget_add i profile n) = nb_capacity n"
  "nb_used (budget_add i profile n) = nb_used n + memory_bytes profile"
  "nb_tasks (budget_add i profile n) = nb_tasks n @ [i]"
  by (simp_all add: budget_add_def)

lemma remaining_fits:
  fixes used mem cap :: u64
  assumes "mem \<le> (if used < cap then cap - used else 0)" "used \<le> cap"
  shows "used + mem \<le> cap" "unat (used + mem) = unat used + unat mem"
proof -
  have "unat mem + unat used \<le> unat cap"
    using assms by (auto simp: word_le_nat_alt word_less_nat_alt unat_sub split: if_splits)
  moreover have "unat cap < 2 ^ 64" using unsigned_less [of cap, where ?'a = nat] by simp
  ultimately show "unat (used + mem) = unat used + unat mem" "used + mem \<le> cap"
    by (simp_all add: unat_word_ariths word_le_nat_alt)
qed

lemma map_update_id: "f y = f (xs ! k) \<Longrightarrow> map f (xs[k := y]) = map f xs"
  by (metis list_update_id map_update)

lemma budgets_ok_add:
  assumes ok: "budgets_ok d l c nodes ds" and k: "k < length nodes" and t: "get_task d v = Some t"
    and fits: "0 < k \<Longrightarrow> memory_bytes (t_profile t) \<le> memory_remaining (nodes ! k)"
    and x: "d_task_id x = v" "assigned_node x = nb_id (nodes ! k)"
  shows "budgets_ok d l c (nodes[k := budget_add v (t_profile t) (nodes ! k)]) (ds @ [x])"
proof -
  let ?n = "nodes[k := budget_add v (t_profile t) (nodes ! k)]"
  have maps: "map nb_id ?n = map nb_id nodes" "map nb_capacity ?n = map nb_capacity nodes"
    by (simp_all add: map_update_id)
  have "unat (nb_used (?n ! j)) = mem_load d (ds @ [x]) (nb_id (?n ! j)) \<and> nb_used (?n ! j) \<le> nb_capacity (?n ! j)"
    if dist: "distinct (candidates l c)" and j: "j < length nodes" "0 < j" for j
  proof (cases "j = k")
    case True
    have "unat (nb_used (nodes ! k)) = mem_load d ds (nb_id (nodes ! k))" "nb_used (nodes ! k) \<le> nb_capacity (nodes ! k)"
      using ok dist j True by (auto simp: budgets_ok_def)
    moreover from this(2) fits j True
    have "nb_used (nodes ! k) + memory_bytes (t_profile t) \<le> nb_capacity (nodes ! k)"
      "unat (nb_used (nodes ! k) + memory_bytes (t_profile t)) =
        unat (nb_used (nodes ! k)) + unat (memory_bytes (t_profile t))"
      by (simp_all add: memory_remaining_def remaining_fits)
    ultimately show ?thesis using True k x by (simp add: task_views [OF t])
  next
    case False
    have "nb_id (nodes ! k) \<noteq> nb_id (nodes ! j)" using same_id_iff [OF ok dist j(1) k] False by auto
    with ok dist j False x show ?thesis by (auto simp: budgets_ok_def)
  qed
  with ok maps show ?thesis by (simp add: budgets_ok_def)
qed

section \<open>Bin packing\<close>

lemma ffd_pick_bound: "nodes \<noteq> [] \<Longrightarrow> ffd_pick nodes profile < length nodes"
  by (auto simp: ffd_pick_def Let_def not_le)

lemma ffd_pick_fits:
  assumes "0 < ffd_pick nodes profile"
  shows "memory_bytes profile \<le> memory_remaining (nodes ! ffd_pick nodes profile)"
proof -
  obtain b best where scan: "scan (\<lambda>i. memory_remaining (nodes ! i) \<ge> memory_bytes profile) (<)
      (\<lambda>i. nb_compute (nodes ! i)) (length nodes) (2 ^ 63 - 1, length nodes) = (b, best)" by force
  from int_lower.scan_spec(1) [OF this] assms scan show ?thesis
    by (auto simp: ffd_pick_def Let_def split: if_splits)
qed

lemma charge_first_head:
  "nb_id (hd nodes) = n \<Longrightarrow> nodes \<noteq> [] \<Longrightarrow>
   charge_first n i profile nodes = nodes[0 := budget_add i profile (nodes ! 0)]"
  by (cases nodes) auto

lemma charge_local:
  assumes "\<And>x. x \<in> set ds \<Longrightarrow> assigned_node x = node_id l \<and> d_task_id x \<in> task_ids d"
    and "budgets_ok d l c nodes ds0"
  shows "budgets_ok d l c (fold (charge_decision d) ds nodes) (ds0 @ ds)"
  using assms
proof (induction ds arbitrary: nodes ds0)
  case (Cons x ds)
  then obtain t where t: "get_task d (d_task_id x) = Some t"
    by (metis get_task_iff list.set_intros(1))
  note len = budgets_okD [OF Cons.prems(2)]
  have here: "nb_id (nodes ! 0) = node_id l" using len by (simp add: candidates_def)
  then have "charge_decision d x nodes = nodes[0 := budget_add (d_task_id x) (t_profile t) (nodes ! 0)]"
    using Cons.prems(1) len(2) by (simp add: charge_decision_def t charge_first_head hd_conv_nth)
  moreover have "budgets_ok d l c (nodes[0 := budget_add (d_task_id x) (t_profile t) (nodes ! 0)]) (ds0 @ [x])"
    using Cons.prems(1) here by (intro budgets_ok_add [OF Cons.prems(2) len(2) t]) auto
  ultimately show ?case using Cons.IH [of _ "ds0 @ [x]"] Cons.prems(1) by simp
qed simp

lemma budgets_ok_init: "budgets_ok d l c (node_budgets l c) []"
proof -
  have "nb_used (node_budgets l c ! k) = 0" if "k < length (node_budgets l c)" for k
    using that by (cases k) (simp_all add: node_budgets_def)
  moreover have "map nb_id (node_budgets l c) = candidates l c"
    by (simp add: node_budgets_def candidates_def)
  ultimately show ?thesis by (simp add: budgets_ok_def)
qed

lemma pack_fold:
  assumes "set is \<subseteq> task_ids d" "budgets_ok d l c nodes ds"
    and "assigned_node ` set ds \<subseteq> set (candidates l c)"
  obtains nodes' ds' where "fold (pack_step d) is (nodes, ds) = (nodes', ds')"
    "budgets_ok d l c nodes' ds'" "map d_task_id ds' = map d_task_id ds @ is"
    "assigned_node ` set ds' \<subseteq> set (candidates l c)"
  using assms
proof (induction "is" arbitrary: nodes ds thesis)
  case (Cons i "is")
  then obtain t where t: "get_task d i = Some t" by (metis get_task_iff list.set_intros(1) subsetD)
  let ?k = "ffd_pick nodes (t_profile t)"
  let ?x = "\<lparr>d_task_id = i, assigned_node = nb_id (nodes ! ?k), reason = OptimizationResult\<rparr>"
  have k: "?k < length nodes" using budgets_okD(2) [OF Cons.prems(3)] by (intro ffd_pick_bound) auto
  have ok: "budgets_ok d l c (nodes[?k := budget_add i (t_profile t) (nodes ! ?k)]) (ds @ [?x])"
    by (rule budgets_ok_add [OF Cons.prems(3) k t ffd_pick_fits]) simp_all
  have "nb_id (nodes ! ?k) \<in> set (candidates l c)"
    using budgets_okD(1,3) [OF Cons.prems(3)] k by simp
  with Cons.prems(4) have cand: "assigned_node ` set (ds @ [?x]) \<subseteq> set (candidates l c)" by simp
  have step: "pack_step d i (nodes, ds) = (nodes[?k := budget_add i (t_profile t) (nodes ! ?k)], ds @ [?x])"
    by (simp add: pack_step_def t Let_def)
  show ?case
    by (rule Cons.IH [OF _ _ ok cand]) (use Cons.prems(1,2) step in auto)
qed simp

lemma mset_filter_split: "mset (filter P xs) + mset (filter (\<lambda>x. \<not> P x) xs) = mset xs"
  by (induction xs) auto

lemma bin_pack_spec:
  fixes c
  assumes "env_ok e" "dag_inv d" "closed_dag d"
    and plan: "decisions plan = map (\<lambda>i. \<lparr>d_task_id = i, assigned_node = node_id l, reason = r\<rparr>)
       (filter (\<lambda>i. i \<in> crit) (topological_order (env_order e) d))"
  defines "q \<equiv> bin_pack_remaining e plan d l c"
  obtains nodes where "budgets_ok d l c nodes (decisions q)"
    "mset (map d_task_id (decisions q)) = mset (topological_order (env_order e) d)"
    "assigned_node ` set (decisions q) \<subseteq> set (candidates l c)"
proof -
  let ?topo = "topological_order (env_order e) d"
  let ?rem = "filter (\<lambda>i. i \<notin> d_task_id ` set (decisions plan)) ?topo"
  let ?nodes = "fold (charge_decision d) (decisions plan) (node_budgets l c)"
  have topo: "set ?topo \<subseteq> task_ids d" using topo_tasks [OF env_okD(1) [OF assms(1)] assms(2,3)] .
  have ids: "map d_task_id (decisions plan) = filter (\<lambda>i. i \<in> crit) ?topo"
    by (simp add: plan comp_def)
  have "budgets_ok d l c ?nodes ([] @ decisions plan)"
    by (rule charge_local [OF _ budgets_ok_init]) (use topo plan in auto)
  then have ok: "budgets_ok d l c ?nodes (decisions plan)" by simp
  have sorted: "mset (env_sort e (dearer d) ?rem) = mset ?rem" using assms(1) by (rule env_okD)
  then have "set (env_sort e (dearer d) ?rem) \<subseteq> task_ids d"
    using topo mset_eq_setD [OF sorted] by auto
  moreover have "assigned_node ` set (decisions plan) \<subseteq> set (candidates l c)"
    by (auto simp: plan candidates_def)
  ultimately obtain nodes' ds' where run: "fold (pack_step d) (env_sort e (dearer d) ?rem) (?nodes, decisions plan) = (nodes', ds')"
    "budgets_ok d l c nodes' ds'" "map d_task_id ds' = map d_task_id (decisions plan) @ env_sort e (dearer d) ?rem"
    "assigned_node ` set ds' \<subseteq> set (candidates l c)"
    using pack_fold [OF _ ok] by blast
  have q: "decisions q = ds'" by (simp add: q_def bin_pack_remaining_def Let_def run(1))
  have "?rem = filter (\<lambda>i. i \<notin> crit) ?topo"
    using arg_cong [OF ids, of set] by (intro filter_cong) auto
  then have "mset (map d_task_id ds') = mset ?topo"
    unfolding run(3) ids mset_append sorted using mset_filter_split [of "\<lambda>i. i \<in> crit" ?topo] by simp
  with run q show thesis by (intro that [of nodes']) simp_all
qed

section \<open>Local search\<close>

text \<open>\<open>asg\<close> maps every decision's task to an index of the node the decision names.\<close>

definition describes :: "ResourceSnapshot \<Rightarrow> ClusterView \<Rightarrow> assignment \<Rightarrow> SchedulingDecision list \<Rightarrow> bool" where
  "describes l c asg ds \<longleftrightarrow> (\<forall>x \<in> set ds. \<exists>k < length (candidates l c).
     map_of asg (d_task_id x) = Some k \<and> candidates l c ! k = assigned_node x)"

definition listed :: "NodeBudget list \<Rightarrow> assignment \<Rightarrow> TaskId list \<Rightarrow> bool" where
  "listed nodes asg is \<longleftrightarrow> (\<forall>i \<in> set is. \<exists>k < length nodes. map_of asg i = Some k \<and> i \<in> set (nb_tasks (nodes ! k)))"

lemma node_index_spec:
  shows "map_of (node_index nodes) n = Some k \<Longrightarrow> k < length nodes \<and> nb_id (nodes ! k) = n"
    and "n \<in> nb_id ` set nodes \<Longrightarrow> map_of (node_index nodes) n \<noteq> None"
proof -
  let ?m = "\<lambda>j. fold (\<lambda>i m. AList.update (nb_id (nodes ! i)) i m) [0..<j] []"
  have *: "(map_of (?m j) n = Some k \<longrightarrow> k < j \<and> nb_id (nodes ! k) = n) \<and>
      ((\<exists>i < j. nb_id (nodes ! i) = n) \<longrightarrow> map_of (?m j) n \<noteq> None)" for j n k
    by (induction j) (auto simp: umap_simps less_Suc_eq)
  from * [of "length nodes" n k]
  show "map_of (node_index nodes) n = Some k \<Longrightarrow> k < length nodes \<and> nb_id (nodes ! k) = n"
    by (simp add: node_index_def)
  assume "n \<in> nb_id ` set nodes"
  then have "\<exists>i < length nodes. nb_id (nodes ! i) = n" by (metis imageE in_set_conv_nth)
  with * [of "length nodes" n k] show "map_of (node_index nodes) n \<noteq> None"
    by (simp add: node_index_def)
qed

definition reg_inv ::
  "WorkloadDAG \<Rightarrow> ResourceSnapshot \<Rightarrow> ClusterView \<Rightarrow> SchedulingDecision list \<Rightarrow> NodeBudget list \<times> assignment \<Rightarrow> bool" where
  "reg_inv d l c ys = (\<lambda>(nodes, asg).
     map nb_id nodes = candidates l c \<and> map nb_capacity nodes = map nb_capacity (node_budgets l c) \<and>
     (distinct (candidates l c) \<longrightarrow> (\<forall>k < length nodes. 0 < k \<longrightarrow>
        unat (nb_used (nodes ! k)) = mem_load d ys (nb_id (nodes ! k)))) \<and>
     describes l c asg ys \<and> listed nodes asg (map d_task_id ys))"

lemma register_step:
  assumes inv: "reg_inv d l c ys (nodes, asg)" and x: "d_task_id x \<in> task_ids d" "d_task_id x \<notin> d_task_id ` set ys"
      "assigned_node x \<in> set (candidates l c)"
    and cap: "\<And>k. distinct (candidates l c) \<Longrightarrow> 0 < k \<Longrightarrow> k < length (candidates l c) \<Longrightarrow>
      mem_load d (ys @ [x]) (candidates l c ! k) < 2 ^ 64"
  shows "reg_inv d l c (ys @ [x]) (register_decision d (node_index (node_budgets l c)) x (nodes, asg))"
proof -
  obtain t where t: "get_task d (d_task_id x) = Some t" using x(1) by (auto simp: get_task_iff)
  note i = inv [unfolded reg_inv_def, simplified]
  have ids0: "map nb_id (node_budgets l c) = candidates l c"
    using budgets_ok_init [of d l c] by (simp add: budgets_ok_def)
  have len: "length nodes = length (candidates l c)" "length (node_budgets l c) = length (candidates l c)"
    using i ids0 by (metis length_map)+
  have id: "nb_id (nodes ! j) = candidates l c ! j" if "j < length nodes" for j
    using i that by (metis nth_map)
  have "assigned_node x \<in> nb_id ` set (node_budgets l c)" using x(3) ids0 by (metis set_map)
  then obtain k where k: "map_of (node_index (node_budgets l c)) (assigned_node x) = Some k"
    using node_index_spec(2) by blast
  from node_index_spec(1) [OF this] ids0 len have kn: "k < length nodes" "candidates l c ! k = assigned_node x"
    by (metis nth_map)+
  let ?n = "nodes[k := budget_add (d_task_id x) (t_profile t) (nodes ! k)]"
  let ?a = "AList.update (d_task_id x) k asg"
  have reg: "register_decision d (node_index (node_budgets l c)) x (nodes, asg) = (?n, ?a)"
    by (simp add: register_decision_def t k)
  have "map nb_id ?n = candidates l c" "map nb_capacity ?n = map nb_capacity (node_budgets l c)"
    using i by (simp_all add: map_update_id)
  moreover have "describes l c ?a (ys @ [x])"
  proof -
    have "d_task_id y \<noteq> d_task_id x" if "y \<in> set ys" for y using that x(2) by (metis image_eqI)
    with i kn len show ?thesis by (simp add: describes_def umap_simps)
  qed
  moreover have "listed ?n ?a (map d_task_id (ys @ [x]))"
  proof -
    have "\<exists>j < length ?n. map_of ?a v = Some j \<and> v \<in> set (nb_tasks (?n ! j))" if v: "v \<in> d_task_id ` set ys" for v
    proof -
      from v i obtain j where "j < length nodes" "map_of asg v = Some j" "v \<in> set (nb_tasks (nodes ! j))"
        by (auto simp: listed_def)
      moreover have "v \<noteq> d_task_id x" using v x(2) by blast
      ultimately show ?thesis using kn by (intro exI [of _ j]) (simp add: umap_simps nth_list_update)
    qed
    with kn show ?thesis by (auto simp: listed_def umap_simps)
  qed
  moreover have "unat (nb_used (?n ! j)) = mem_load d (ys @ [x]) (nb_id (?n ! j))"
    if dist: "distinct (candidates l c)" and j: "j < length nodes" "0 < j" for j
  proof (cases "j = k")
    case True
    have "unat (nb_used (nodes ! k)) = mem_load d ys (assigned_node x)"
      using i dist j True id kn by auto
    moreover have "mem_load d ys (assigned_node x) + unat (memory_bytes (t_profile t)) < 2 ^ 64"
      using cap [OF dist j(2)] True j len kn by (simp add: task_views [OF t])
    ultimately show ?thesis
      using True kn id by (simp add: task_views [OF t] unat_word_ariths)
  next
    case False
    with dist j kn len have "candidates l c ! j \<noteq> assigned_node x"
      by (metis nth_eq_iff_index_eq)
    with i dist j False id show ?thesis by auto
  qed
  ultimately show ?thesis by (simp add: reg reg_inv_def)
qed

lemma register_fold:
  assumes "d_task_id ` set ds \<subseteq> task_ids d" "distinct (map d_task_id ds)"
    and "assigned_node ` set ds \<subseteq> set (candidates l c)" and ok: "budgets_ok d l c nodes0 ds"
  obtains nodes asg where
    "fold (register_decision d (node_index (node_budgets l c))) ds (node_budgets l c, []) = (nodes, asg)"
    "budgets_ok d l c nodes ds" "describes l c asg ds" "listed nodes asg (map d_task_id ds)"
proof -
  have cap: "mem_load d ds (candidates l c ! k) < 2 ^ 64"
    if "distinct (candidates l c)" "0 < k" "k < length (candidates l c)" for k
  proof -
    have "unat (nb_used (nodes0 ! k)) = mem_load d ds (candidates l c ! k)"
      using ok that budgets_okD(1,3) [OF ok] by (auto simp: budgets_ok_def)
    then show ?thesis using unsigned_less [of "nb_used (nodes0 ! k)", where ?'a = nat] by simp
  qed
  have "reg_inv d l c ys (fold (register_decision d (node_index (node_budgets l c))) ys (node_budgets l c, []))"
    if "ds = ys @ zs" for ys zs
    using that
  proof (induction ys arbitrary: zs rule: rev_induct)
    case Nil
    show ?case
      using budgets_ok_init [of d l c] by (simp add: reg_inv_def budgets_ok_def describes_def listed_def)
  next
    case (snoc x ys)
    obtain n a where na: "fold (register_decision d (node_index (node_budgets l c))) ys (node_budgets l c, []) = (n, a)"
      by force
    with snoc have inv: "reg_inv d l c ys (n, a)" by simp
    have "mem_load d (ys @ [x]) (candidates l c ! k) < 2 ^ 64"
      if "distinct (candidates l c)" "0 < k" "k < length (candidates l c)" for k
      using cap [OF that] snoc.prems by (simp add: mem_load_def)
    then show ?case
      using register_step [OF inv] assms(1-3) snoc.prems by (simp add: na)
  qed
  from this [of ds "[]"] obtain nodes asg
    where run: "fold (register_decision d (node_index (node_budgets l c))) ds (node_budgets l c, []) = (nodes, asg)"
      and inv: "reg_inv d l c ds (nodes, asg)"
    by (metis append_Nil2 surj_pair)
  have "map nb_id nodes = map nb_id nodes0" "map nb_capacity nodes = map nb_capacity nodes0"
    using inv ok by (simp_all add: reg_inv_def budgets_ok_def)
  then have same: "length nodes = length nodes0"
    "\<And>k. k < length nodes \<Longrightarrow> nb_id (nodes ! k) = nb_id (nodes0 ! k)"
    "\<And>k. k < length nodes \<Longrightarrow> nb_capacity (nodes ! k) = nb_capacity (nodes0 ! k)"
    by (metis length_map, metis length_map nth_map, metis length_map nth_map)
  have "nb_used (nodes ! k) \<le> nb_capacity (nodes ! k)"
    if "distinct (candidates l c)" "k < length nodes" "0 < k" for k
  proof -
    have "unat (nb_used (nodes ! k)) = unat (nb_used (nodes0 ! k))" "nb_used (nodes0 ! k) \<le> nb_capacity (nodes0 ! k)"
      using inv ok that same by (auto simp: reg_inv_def budgets_ok_def)
    then show ?thesis using same(3) [OF that(2)] by (simp add: word_le_nat_alt)
  qed
  then have "budgets_ok d l c nodes ds" using inv by (simp add: reg_inv_def budgets_ok_def)
  moreover have "describes l c asg ds" "listed nodes asg (map d_task_id ds)"
    using inv by (auto simp: reg_inv_def)
  ultimately show thesis using run that by blast
qed

lemma estimate_makespan_cong:
  assumes "map_of asg = map_of asg'"
  shows "estimate_makespan e d n asg w = estimate_makespan e d n asg' w"
proof -
  have arrival: "dep_arrival d asg = dep_arrival d asg'"
    unfolding dep_arrival_def [abs_def] assms ..
  have "makespan_step d asg = makespan_step d asg'"
    unfolding makespan_step_def [abs_def] assms arrival ..
  then show ?thesis by (simp add: estimate_makespan_def)
qed

definition search_inv ::
  "SchedEnv \<Rightarrow> WorkloadDAG \<Rightarrow> f32 \<Rightarrow> ResourceSnapshot \<Rightarrow> ClusterView \<Rightarrow> TaskId list \<Rightarrow> SearchState \<Rightarrow> bool" where
  "search_inv e d w l c is s \<longleftrightarrow>
     map d_task_id (ss_decisions s) = is \<and>
     budgets_ok d l c (ss_nodes s) (ss_decisions s) \<and>
     describes l c (ss_asg s) (ss_decisions s) \<and> listed (ss_nodes s) (ss_asg s) is \<and>
     estimate_makespan e d (length (ss_nodes s)) (ss_asg s) w = Some (ss_makespan s)"

lemma mem_load_update:
  assumes "k < length ds" "d_task_id x = d_task_id (ds ! k)"
  shows "mem_load d (ds[k := x]) n + (if assigned_node (ds ! k) = n then unat (task_mem d (d_task_id x)) else 0)
    = mem_load d ds n + (if assigned_node x = n then unat (task_mem d (d_task_id x)) else 0)"
proof -
  have ds: "ds = take k ds @ ds ! k # drop (Suc k) ds" using assms(1) by (rule id_take_nth_drop)
  have "ds[k := x] = take k ds @ x # drop (Suc k) ds" using assms(1) by (rule upd_conv_take_nth_drop)
  moreover have "mem_load d ds n = mem_load d (take k ds @ ds ! k # drop (Suc k) ds) n" using ds by simp
  ultimately show ?thesis using assms(2) by (simp add: mem_load_def)
qed

text \<open>One candidate move: the task \<open>i\<close> of decision \<open>k\<close> from node \<open>from\<close> to node \<open>to\<close>.\<close>

lemma search_inv_decision:
  assumes inv: "search_inv e d w l c is s" and k: "k < length (ss_decisions s)"
  obtains src where "src < length (ss_nodes s)" "map_of (ss_asg s) (is ! k) = Some src"
    "assigned_node (ss_decisions s ! k) = nb_id (ss_nodes s ! src)"
    "is ! k \<in> set (nb_tasks (ss_nodes s ! src))" "d_task_id (ss_decisions s ! k) = is ! k"
proof -
  note i = inv [unfolded search_inv_def]
  have ids: "d_task_id (ss_decisions s ! k) = is ! k" "is ! k \<in> set is"
    using i k by (metis nth_map, metis length_map nth_mem)
  have ok: "budgets_ok d l c (ss_nodes s) (ss_decisions s)" using i by blast
  from i k ids obtain j where j: "j < length (candidates l c)" "map_of (ss_asg s) (is ! k) = Some j"
    "candidates l c ! j = assigned_node (ss_decisions s ! k)"
    by (metis describes_def nth_mem)
  from i ids obtain j' where "map_of (ss_asg s) (is ! k) = Some j'" "is ! k \<in> set (nb_tasks (ss_nodes s ! j'))"
    by (auto simp: listed_def)
  with j ids budgets_okD(1,3) [OF ok] show thesis by (intro that [of j]) auto
qed

lemma budget_remove_Some:
  "i \<in> set (nb_tasks n) \<Longrightarrow> \<exists>n'. budget_remove i profile n = Some n' \<and> nb_id n' = nb_id n \<and>
     nb_capacity n' = nb_capacity n \<and> nb_used n' = nb_used n - memory_bytes profile \<and>
     nb_compute n' = nb_compute n - compute_cost profile \<and> nb_tasks n' = remove1 i (nb_tasks n)"
  by (simp add: budget_remove_def)

lemma move_budgets:
  assumes ok: "budgets_ok d l c nodes ds" and k: "k < length ds" and t: "get_task d (d_task_id (ds ! k)) = Some t"
    and ft: "from < length nodes" "to < length nodes" "from \<noteq> to" "assigned_node (ds ! k) = nb_id (nodes ! from)"
    and fits: "memory_bytes (t_profile t) \<le> memory_remaining (nodes ! to)"
    and from': "nb_id from' = nb_id (nodes ! from)" "nb_capacity from' = nb_capacity (nodes ! from)"
      "nb_used from' = nb_used (nodes ! from) - memory_bytes (t_profile t)"
  shows "budgets_ok d l c (nodes[from := from', to := budget_add i (t_profile t) (nodes ! to)])
    (ds[k := (ds ! k)\<lparr>assigned_node := nb_id (nodes ! to)\<rparr>])"
proof -
  let ?n = "nodes[from := from', to := budget_add i (t_profile t) (nodes ! to)]"
  let ?ds = "ds[k := (ds ! k)\<lparr>assigned_node := nb_id (nodes ! to)\<rparr>]"
  let ?m = "unat (memory_bytes (t_profile t))"
  have maps: "map nb_id ?n = map nb_id nodes" "map nb_capacity ?n = map nb_capacity nodes"
    using from' ft(1-3) by (simp_all add: map_update_id nth_list_update)
  have load: "mem_load d ?ds n + (if nb_id (nodes ! from) = n then ?m else 0)
      = mem_load d ds n + (if nb_id (nodes ! to) = n then ?m else 0)" for n
  proof -
    let ?x = "(ds ! k)\<lparr>assigned_node := nb_id (nodes ! to)\<rparr>"
    have x: "d_task_id ?x = d_task_id (ds ! k)" "assigned_node ?x = nb_id (nodes ! to)" by simp_all
    from mem_load_update [OF k x(1), of d n] show ?thesis unfolding x ft(4) task_views(2) [OF t] .
  qed
  have "unat (nb_used (?n ! j)) = mem_load d ?ds (nb_id (?n ! j)) \<and> nb_used (?n ! j) \<le> nb_capacity (?n ! j)"
    if dist: "distinct (candidates l c)" and j: "j < length nodes" "0 < j" for j
  proof -
    have old: "unat (nb_used (nodes ! j)) = mem_load d ds (nb_id (nodes ! j))"
      "nb_used (nodes ! j) \<le> nb_capacity (nodes ! j)"
      using ok dist j by (auto simp: budgets_ok_def)
    note same = same_id_iff [OF ok dist _ j(1)]
    consider "j = to" | "j = from" | "j \<noteq> to" "j \<noteq> from" by blast
    then show ?thesis
    proof cases
      case 1
      with fits have "memory_bytes (t_profile t) \<le> (if nb_used (nodes ! j) < nb_capacity (nodes ! j)
          then nb_capacity (nodes ! j) - nb_used (nodes ! j) else 0)" by (simp only: memory_remaining_def)
      note fit = remaining_fits [OF this old(2)]
      from 1 ft same [OF ft(1)] have "mem_load d ?ds (nb_id (nodes ! j)) = mem_load d ds (nb_id (nodes ! j)) + ?m"
        using load [of "nb_id (nodes ! j)"] by auto
      with 1 ft old fit show ?thesis by simp
    next
      case 2
      with ft same [OF ft(2)] have l: "mem_load d ?ds (nb_id (nodes ! j)) + ?m = mem_load d ds (nb_id (nodes ! j))"
        using load [of "nb_id (nodes ! j)"] by auto
      then have "memory_bytes (t_profile t) \<le> nb_used (nodes ! j)" using old(1) by (simp add: word_le_nat_alt)
      then have "unat (nb_used (nodes ! j) - memory_bytes (t_profile t)) = unat (nb_used (nodes ! j)) - ?m"
        by (simp add: unat_sub word_le_nat_alt)
      then have "unat (nb_used (nodes ! j) - memory_bytes (t_profile t)) = mem_load d ?ds (nb_id (nodes ! j))"
        "nb_used (nodes ! j) - memory_bytes (t_profile t) \<le> nb_capacity (nodes ! j)"
        using old l by (linarith, simp add: word_le_nat_alt)
      with 2 ft from' show ?thesis by simp
    next
      case 3
      with same [OF ft(1)] same [OF ft(2)] load [of "nb_id (nodes ! j)"]
      have "mem_load d ?ds (nb_id (nodes ! j)) = mem_load d ds (nb_id (nodes ! j))" by auto
      with 3 old show ?thesis by simp
    qed
  qed
  with ok maps show ?thesis by (simp add: budgets_ok_def)
qed

lemma listed_move:
  assumes ls: "listed nodes asg is" and ft: "from < length nodes" "to < length nodes" "from \<noteq> to"
    and from': "nb_tasks from' = remove1 i (nb_tasks (nodes ! from))"
    and to': "set (nb_tasks to') = insert i (set (nb_tasks (nodes ! to)))"
  shows "listed (nodes[from := from', to := to']) (AList.update i to asg) is"
proof -
  have "\<exists>k < length nodes. map_of (AList.update i to asg) v = Some k \<and>
      v \<in> set (nb_tasks (nodes[from := from', to := to'] ! k))" if "v \<in> set is" for v
  proof (cases "v = i")
    case True
    with ft to' show ?thesis by (intro exI [of _ to]) (simp add: umap_simps)
  next
    case False
    from that ls obtain k where "k < length nodes" "map_of asg v = Some k" "v \<in> set (nb_tasks (nodes ! k))"
      by (auto simp: listed_def)
    with False ft from' to' show ?thesis
      by (intro exI [of _ k]) (auto simp: umap_simps nth_list_update in_set_remove1)
  qed
  then show ?thesis by (simp add: listed_def)
qed

lemma insert_set_remove1: "x \<in> set xs \<Longrightarrow> insert x (set (remove1 x xs)) = set xs"
  by (induction xs) auto

lemma search_move_inv:
  assumes inv: "search_inv e d w l c is s" and w: "w = communication_weight cfg"
    and dist: "distinct is" and k: "k < length (ss_decisions s)"
    and t: "get_task d (is ! k) = Some t"
    and src: "src < length (ss_nodes s)" "map_of (ss_asg s) (is ! k) = Some src"
      "assigned_node (ss_decisions s ! k) = nb_id (ss_nodes s ! src)"
      "is ! k \<in> set (nb_tasks (ss_nodes s ! src))" "d_task_id (ss_decisions s ! k) = is ! k"
    and to: "to < length (ss_nodes s)" "to \<noteq> src"
      "memory_bytes (t_profile t) \<le> memory_remaining (ss_nodes s ! to)"
    and run: "search_move cfg e d k (is ! k) (t_profile t) src to s = Some s'"
  shows "search_inv e d w l c is s' \<and> ss_makespan s' \<le> ss_makespan s"
proof -
  let ?i = "is ! k" and ?p = "t_profile t" and ?n = "ss_nodes s"
  note i = inv [unfolded search_inv_def]
  note ids = budgets_okD [OF i [THEN conjunct2, THEN conjunct1]]
  obtain b where b: "budget_remove ?i ?p (?n ! src) = Some b" "nb_id b = nb_id (?n ! src)"
    "nb_capacity b = nb_capacity (?n ! src)" "nb_used b = nb_used (?n ! src) - memory_bytes ?p"
    "nb_compute b = nb_compute (?n ! src) - compute_cost ?p" "nb_tasks b = remove1 ?i (nb_tasks (?n ! src))"
    using budget_remove_Some [OF src(4)] by blast
  let ?n' = "?n[src := b, to := budget_add ?i ?p (?n ! to)]"
  let ?a' = "AList.update ?i to (ss_asg s)"
  obtain m where m: "estimate_makespan e d (length ?n) ?a' w = Some m"
    using run by (auto simp: search_move_def b(1) w Let_def split: bind_splits)
  let ?x = "(ss_decisions s ! k)\<lparr>assigned_node := nb_id (?n ! to)\<rparr>"
  show ?thesis
  proof (cases "m < ss_makespan s")
    case True
    let ?s = "s\<lparr>ss_nodes := ?n', ss_asg := ?a', ss_makespan := m,
      ss_decisions := (ss_decisions s)[k := ?x]\<rparr>"
    have move: "search_move cfg e d k ?i ?p src to s = Some ?s"
      using True m to by (simp add: search_move_def b(1) w nth_list_update)
    have "describes l c ?a' ((ss_decisions s)[k := ?x])"
      unfolding describes_def
    proof
      fix y
      assume "y \<in> set ((ss_decisions s)[k := ?x])"
      then obtain j where j: "j < length (ss_decisions s)" "y = (ss_decisions s)[k := ?x] ! j"
        by (metis in_set_conv_nth length_list_update)
      show "\<exists>q < length (candidates l c). map_of ?a' (d_task_id y) = Some q \<and> candidates l c ! q = assigned_node y"
      proof (cases "j = k")
        case True
        with j k src(5) to ids show ?thesis by (intro exI [of _ to]) (simp add: umap_simps)
      next
        case False
        have "d_task_id (ss_decisions s ! j) = is ! j" "length is = length (ss_decisions s)"
          using i j(1) by (metis nth_map, metis length_map)
        with False dist j k have "d_task_id y \<noteq> ?i" by (simp add: nth_eq_iff_index_eq)
        with False j i show ?thesis by (auto simp: umap_simps describes_def)
      qed
    qed
    moreover have "budgets_ok d l c ?n' ((ss_decisions s)[k := ?x])"
      using i src to b k t by (intro move_budgets) auto
    moreover have "listed ?n' ?a' is" using i src to b by (intro listed_move) auto
    moreover have "map d_task_id ((ss_decisions s)[k := ?x]) = is" using i by (simp add: map_update_id)
    ultimately have "search_inv e d w l c is ?s" using m by (simp add: search_inv_def)
    with move True run show ?thesis by simp
  next
    case False
    let ?f = "budget_add ?i ?p b"
    have to_id: "(budget_add ?i ?p (?n ! to))\<lparr>nb_compute := nb_compute (budget_add ?i ?p (?n ! to)) - compute_cost ?p,
        nb_used := nb_used (budget_add ?i ?p (?n ! to)) - memory_bytes ?p,
        nb_tasks := butlast (nb_tasks (budget_add ?i ?p (?n ! to)))\<rparr> = ?n ! to"
      by (simp add: budget_add_def)
    have nodes: "?n'[to := ?n ! to, src := ?f] = ?n[src := ?f]"
      using to(2) by (simp add: list_update_swap [of src to])
    let ?a = "AList.update ?i src ?a'"
    let ?s = "s\<lparr>ss_nodes := ?n[src := ?f], ss_asg := ?a\<rparr>"
    have move: "search_move cfg e d k ?i ?p src to s = Some ?s"
      using False m to nodes to_id
      by (simp add: search_move_def b(1) w nth_list_update Let_def del: budget_add_simps)
    have asg: "map_of ?a = map_of (ss_asg s)" using src(2) by (auto simp: umap_simps fun_eq_iff)
    have f: "nb_id ?f = nb_id (?n ! src)" "nb_capacity ?f = nb_capacity (?n ! src)"
      "nb_used ?f = nb_used (?n ! src)" "set (nb_tasks ?f) = set (nb_tasks (?n ! src))"
      using b src(4) by (simp_all add: insert_set_remove1)
    have eqs: "nb_id (?n[src := ?f] ! j) = nb_id (?n ! j)" "nb_capacity (?n[src := ?f] ! j) = nb_capacity (?n ! j)"
      "nb_used (?n[src := ?f] ! j) = nb_used (?n ! j)" "set (nb_tasks (?n[src := ?f] ! j)) = set (nb_tasks (?n ! j))" for j
      using f src(1) by (cases "j = src"; simp del: budget_add_simps)+
    have "map nb_id (?n[src := ?f]) = map nb_id ?n" "map nb_capacity (?n[src := ?f]) = map nb_capacity ?n"
      by (rule map_update_id, rule f)+
    then have "budgets_ok d l c (?n[src := ?f]) (ss_decisions s)"
      using i unfolding budgets_ok_def eqs length_list_update by simp
    moreover have "listed (?n[src := ?f]) ?a is"
      using i unfolding listed_def asg eqs length_list_update by simp
    moreover have "describes l c ?a (ss_decisions s)" using i unfolding describes_def asg by blast
    moreover have "estimate_makespan e d (length ?n) ?a w = Some (ss_makespan s)"
      using i estimate_makespan_cong [OF asg] by simp
    ultimately have "search_inv e d w l c is ?s" using i by (simp add: search_inv_def)
    with move run show ?thesis by simp
  qed
qed

lemma search_inv_emplace:
  "search_inv e d w l c is s \<Longrightarrow> i \<in> set is \<Longrightarrow> um_emplace i 0 (ss_asg s) = ss_asg s"
  by (auto simp: search_inv_def listed_def um_emplace_def split: option.splits)

lemma search_step_inv:
  assumes inv: "search_inv e d w l c is s" and w: "w = communication_weight cfg"
    and env: "env_ok e" and dist: "distinct is" and tasks: "set is \<subseteq> task_ids d" and ne: "ss_decisions s \<noteq> []"
  shows "search_step cfg e d s = Some s' \<Longrightarrow> search_inv e d w l c is s' \<and> ss_makespan s' \<le> ss_makespan s"
    and "weight_ok w \<Longrightarrow> \<exists>s'. search_step cfg e d s = Some s'"
proof -
  obtain k g where kg: "env_uniform e (ss_rng s) (length (ss_decisions s) - 1) = (k, g)" by force
  then have k: "k < length (ss_decisions s)"
    using env_okD(3) [OF env, of "ss_rng s" "length (ss_decisions s) - 1"] ne by (cases "ss_decisions s") auto
  obtain src where src: "src < length (ss_nodes s)" "map_of (ss_asg s) (is ! k) = Some src"
    "assigned_node (ss_decisions s ! k) = nb_id (ss_nodes s ! src)"
    "is ! k \<in> set (nb_tasks (ss_nodes s ! src))" "d_task_id (ss_decisions s ! k) = is ! k"
    using inv k by (rule search_inv_decision)
  have mem: "is ! k \<in> set is" using inv k by (metis length_map nth_mem search_inv_def)
  then obtain t where t: "get_task d (is ! k) = Some t" using tasks get_task_iff by blast
  have ok: "budgets_ok d l c (ss_nodes s) (ss_decisions s)" using inv by (simp add: search_inv_def)
  obtain to g' where tg: "env_uniform e g (length (ss_nodes s) - 1) = (to, g')" by force
  then have to: "to < length (ss_nodes s)"
    using env_okD(3) [OF env, of g "length (ss_nodes s) - 1"] budgets_okD(2) [OF ok] by (cases "ss_nodes s") auto
  let ?s = "s\<lparr>ss_rng := g'\<rparr>"
  have step: "search_step cfg e d s =
      (if to = src \<or> memory_remaining (ss_nodes s ! to) < memory_bytes (t_profile t) then Some ?s
       else search_move cfg e d k (is ! k) (t_profile t) src to ?s)"
  proof -
    have same: "s\<lparr>ss_rng := g', ss_asg := ss_asg s\<rparr> = ?s" by (cases s) simp
    show ?thesis
      using search_inv_emplace [OF inv mem] src(2,5) same
      by (simp add: search_step_def kg tg t Let_def del: One_nat_def)
  qed
  have inv': "search_inv e d w l c is ?s" using inv by (simp add: search_inv_def)
  note move = search_move_inv [OF inv' w dist, of k t src to]
  show "search_step cfg e d s = Some s' \<Longrightarrow> search_inv e d w l c is s' \<and> ss_makespan s' \<le> ss_makespan s"
    using move [of s'] step inv' k t src to by (auto simp: not_less split: if_splits)
  assume "weight_ok w"
  then obtain m where m: "estimate_makespan e d (length (ss_nodes s)) (AList.update (is ! k) to (ss_asg s)) w = Some m"
    using makespan_total by blast
  then show "\<exists>s'. search_step cfg e d s = Some s'"
    using budget_remove_Some [OF src(4), of "t_profile t"] step
    by (auto simp: search_move_def w Let_def)
qed

lemma search_loop_inv:
  assumes "w = communication_weight cfg" "env_ok e" "distinct is" "set is \<subseteq> task_ids d"
  shows "search_inv e d w l c is s \<Longrightarrow> search_loop cfg e d n s = Some s' \<Longrightarrow>
      search_inv e d w l c is s' \<and> ss_makespan s' \<le> ss_makespan s"
    and "search_inv e d w l c is s \<Longrightarrow> weight_ok w \<Longrightarrow> \<exists>s'. search_loop cfg e d n s = Some s'"
proof -
  note step = search_step_inv [OF _ assms]
  show "search_inv e d w l c is s \<Longrightarrow> search_loop cfg e d n s = Some s' \<Longrightarrow>
      search_inv e d w l c is s' \<and> ss_makespan s' \<le> ss_makespan s"
  proof (induction n arbitrary: s)
    case (Suc n)
    show ?case
    proof (cases "ss_decisions s = []")
      case False
      with Suc.prems(2) obtain s1 where s1: "search_step cfg e d s = Some s1" "search_loop cfg e d n s1 = Some s'"
        by (auto split: option.splits)
      with step(1) [OF Suc.prems(1) False s1(1)] Suc.IH [of s1] show ?thesis by force
    qed (use Suc in simp)
  qed simp
  show "search_inv e d w l c is s \<Longrightarrow> weight_ok w \<Longrightarrow> \<exists>s'. search_loop cfg e d n s = Some s'"
  proof (induction n arbitrary: s)
    case (Suc n)
    show ?case
    proof (cases "ss_decisions s = []")
      case False
      from step(2) [OF Suc.prems(1) False Suc.prems(2)] obtain s1 where s1: "search_step cfg e d s = Some s1" by blast
      with step(1) [OF Suc.prems(1) False s1] Suc.IH [of s1] Suc.prems(2) False show ?thesis by simp
    qed simp
  qed simp
qed

lemma describes_candidates: "describes l c asg ds \<Longrightarrow> assigned_node ` set ds \<subseteq> set (candidates l c)"
  unfolding describes_def by (metis image_subsetI nth_mem)

text \<open>What the local search does to a plan \<open>q\<close> with one decision per task.\<close>

definition improved ::
  "OptimizerPolicyConfig \<Rightarrow> SchedEnv \<Rightarrow> WorkloadDAG \<Rightarrow> ResourceSnapshot \<Rightarrow> ClusterView \<Rightarrow> SchedulingPlan
     \<Rightarrow> SchedulingPlan \<Rightarrow> bool" where
  "improved cfg e d l c q p \<longleftrightarrow>
     (let n = length (candidates l c); w = communication_weight cfg
      in \<exists>asg0 m0 asg. describes l c asg0 (decisions q) \<and> estimate_makespan e d n asg0 w = Some m0 \<and>
           describes l c asg (decisions p) \<and> estimate_makespan e d n asg w = Some (estimated_makespan p) \<and>
           estimated_makespan p \<le> m0)"

lemma local_search_spec:
  assumes env: "env_ok e" and tasks: "d_task_id ` set (decisions q) \<subseteq> task_ids d" "distinct (map d_task_id (decisions q))"
    and cand: "assigned_node ` set (decisions q) \<subseteq> set (candidates l c)" and ok: "budgets_ok d l c nodes0 (decisions q)"
  shows "local_search_improve cfg e q d l c = Some p \<Longrightarrow>
      map d_task_id (decisions p) = map d_task_id (decisions q) \<and> assigned_node ` set (decisions p) \<subseteq> set (candidates l c) \<and>
      (\<exists>nodes. budgets_ok d l c nodes (decisions p)) \<and>
      (if length (decisions q) < 2 \<or> length (candidates l c) < 2 then p = q else improved cfg e d l c q p)"
    and "weight_ok (communication_weight cfg) \<Longrightarrow> \<exists>p. local_search_improve cfg e q d l c = Some p"
proof -
  let ?w = "communication_weight cfg" and ?is = "map d_task_id (decisions q)"
  obtain nodes asg where reg: "fold (register_decision d (node_index (node_budgets l c))) (decisions q) (node_budgets l c, [])
      = (nodes, asg)" "budgets_ok d l c nodes (decisions q)" "describes l c asg (decisions q)" "listed nodes asg ?is"
    using tasks cand ok by (rule register_fold)
  have len: "length (node_budgets l c) = length (candidates l c)" "length nodes = length (candidates l c)"
    using budgets_okD(1) [OF budgets_ok_init] budgets_okD(1) [OF reg(2)] by blast+
  let ?s = "\<lambda>m. \<lparr>ss_decisions = decisions q, ss_nodes = nodes, ss_asg = asg, ss_makespan = m, ss_rng = env_seed e 42\<rparr>"
  have inv: "search_inv e d ?w l c ?is (?s m)" if "estimate_makespan e d (length nodes) asg ?w = Some m" for m
    using that reg by (simp add: search_inv_def)
  have tasks': "set ?is \<subseteq> task_ids d" using tasks(1) by simp
  note loop = search_loop_inv [OF refl env tasks(2) tasks']
  show "weight_ok ?w \<Longrightarrow> \<exists>p. local_search_improve cfg e q d l c = Some p"
  proof -
    assume w: "weight_ok ?w"
    then obtain m where m: "estimate_makespan e d (length nodes) asg ?w = Some m" using makespan_total by blast
    from loop(2) [OF inv [OF m] w] obtain s' where "search_loop cfg e d (unat (max_iterations cfg)) (?s m) = Some s'"
      by blast
    with m reg(1) show ?thesis by (simp add: local_search_improve_def Let_def)
  qed
  assume run: "local_search_improve cfg e q d l c = Some p"
  show "map d_task_id (decisions p) = ?is \<and> assigned_node ` set (decisions p) \<subseteq> set (candidates l c) \<and>
      (\<exists>nodes. budgets_ok d l c nodes (decisions p)) \<and>
      (if length (decisions q) < 2 \<or> length (candidates l c) < 2 then p = q else improved cfg e d l c q p)"
  proof (cases "length (decisions q) < 2 \<or> length (candidates l c) < 2")
    case True
    with run cand ok len show ?thesis by (auto simp: local_search_improve_def Let_def split: if_splits)
  next
    case False
    with run reg(1) len obtain m s' where m: "estimate_makespan e d (length nodes) asg ?w = Some m"
      and s': "search_loop cfg e d (unat (max_iterations cfg)) (?s m) = Some s'"
      and p: "p = q\<lparr>decisions := ss_decisions s', estimated_makespan := ss_makespan s'\<rparr>"
      by (auto simp: local_search_improve_def Let_def split: bind_splits)
    from loop(1) [OF inv [OF m] s'] have fin: "search_inv e d ?w l c ?is s'" "ss_makespan s' \<le> m" by auto
    have "budgets_ok d l c (ss_nodes s') (ss_decisions s')" "describes l c (ss_asg s') (ss_decisions s')"
      "map d_task_id (ss_decisions s') = ?is"
      "estimate_makespan e d (length (ss_nodes s')) (ss_asg s') ?w = Some (ss_makespan s')"
      using fin(1) by (simp_all add: search_inv_def)
    moreover from this(1) have "length (ss_nodes s') = length (candidates l c)" by (rule budgets_okD)
    moreover have "improved cfg e d l c q p"
      unfolding improved_def Let_def
      using calculation reg(3) m len(2) fin(2) by (intro exI [of _ asg] exI [of _ m] exI [of _ "ss_asg s'"]) (simp add: p)
    ultimately show ?thesis using False describes_candidates p by auto
  qed
qed

section \<open>The schedule\<close>

lemma optimizer_phases:
  assumes "env_ok e" "dag_inv d" "closed_dag d"
  obtains plan q nodes where "critical_path_assignment e d l = Some plan" "q = bin_pack_remaining e plan d l c"
    "optimizer_schedule cfg e d l c = local_search_improve cfg e q d l c"
    "estimated_makespan q = 0" "budgets_ok d l c nodes (decisions q)"
    "mset (map d_task_id (decisions q)) = mset (topological_order (env_order e) d)"
    "assigned_node ` set (decisions q) \<subseteq> set (candidates l c)"
    "d_task_id ` set (decisions q) \<subseteq> task_ids d" "distinct (map d_task_id (decisions q))"
proof -
  let ?topo = "topological_order (env_order e) d"
  note ord = env_okD(1) [OF assms(1)]
  obtain plan crit where plan: "critical_path_assignment e d l = Some plan"
    "decisions plan = map (\<lambda>i. \<lparr>d_task_id = i, assigned_node = node_id l, reason = OptimizationResult\<rparr>)
       (filter (\<lambda>i. i \<in> crit) ?topo)" "estimated_makespan plan = 0"
    using assms(1,2) by (rule critical_path_assignment_total)
  let ?q = "bin_pack_remaining e plan d l c"
  obtain nodes where q: "budgets_ok d l c nodes (decisions ?q)" "mset (map d_task_id (decisions ?q)) = mset ?topo"
    "assigned_node ` set (decisions ?q) \<subseteq> set (candidates l c)"
    using assms plan(2) by (rule bin_pack_spec)
  show thesis
  proof (rule that [OF plan(1) refl _ _ q])
    show "optimizer_schedule cfg e d l c = local_search_improve cfg e ?q d l c"
      by (simp add: optimizer_schedule_def plan(1))
    show "estimated_makespan ?q = 0" by (simp add: bin_pack_remaining_def Let_def plan(3))
    show "d_task_id ` set (decisions ?q) \<subseteq> task_ids d"
      using mset_eq_setD [OF q(2)] topo_tasks [OF ord assms(2,3)] by simp
    show "distinct (map d_task_id (decisions ?q))"
      using mset_eq_imp_distinct_iff [OF q(2)] topological_order_spec(1) [OF ord assms(2)] by simp
  qed
qed

interpretation optimizer: scheduling_policy "optimizer_schedule cfg" for cfg
proof unfold_locales
  fix e d l c p x
  assume asm: "env_ok e" "dag_inv d" "closed_dag d" and run: "optimizer_schedule cfg e d l c = Some p"
  obtain plan q nodes where q: "optimizer_schedule cfg e d l c = local_search_improve cfg e q d l c"
    "budgets_ok d l c nodes (decisions q)" "mset (map d_task_id (decisions q)) = mset (topological_order (env_order e) d)"
    "assigned_node ` set (decisions q) \<subseteq> set (candidates l c)"
    "d_task_id ` set (decisions q) \<subseteq> task_ids d" "distinct (map d_task_id (decisions q))"
    using asm by (rule optimizer_phases [where cfg = cfg and l = l and c = c])
  note spec = local_search_spec(1) [OF asm(1) q(5,6,4,2) run [unfolded q(1)]]
  with q(3) show "mset (map d_task_id (decisions p)) = mset (topological_order (env_order e) d)" by simp
  assume "x \<in> set (decisions p)"
  with spec show "assigned_node x \<in> set (candidates l c)" by blast
qed

lemma optimizer_result:
  assumes "env_ok e" "dag_inv d" "closed_dag d" "optimizer_schedule cfg e d l c = Some p"
  obtains plan q nodes where "critical_path_assignment e d l = Some plan" "q = bin_pack_remaining e plan d l c"
    "estimated_makespan q = 0" "length (decisions q) = length (topological_order (env_order e) d)"
    "budgets_ok d l c nodes (decisions p)"
    "if length (decisions q) < 2 \<or> length (candidates l c) < 2 then p = q else improved cfg e d l c q p"
proof -
  obtain plan q nodes where q: "critical_path_assignment e d l = Some plan" "q = bin_pack_remaining e plan d l c"
    "optimizer_schedule cfg e d l c = local_search_improve cfg e q d l c"
    "estimated_makespan q = 0" "budgets_ok d l c nodes (decisions q)"
    "mset (map d_task_id (decisions q)) = mset (topological_order (env_order e) d)"
    "assigned_node ` set (decisions q) \<subseteq> set (candidates l c)"
    "d_task_id ` set (decisions q) \<subseteq> task_ids d" "distinct (map d_task_id (decisions q))"
    using assms(1-3) by (rule optimizer_phases)
  note spec = local_search_spec(1) [OF assms(1) q(8,9,7,5) assms(4) [unfolded q(3)]]
  moreover have "length (decisions q) = length (topological_order (env_order e) d)"
    using mset_eq_length [OF q(6)] by simp
  ultimately show thesis using that q(1,2,4) by blast
qed

lemma optimizer_total:
  assumes "env_ok e" "dag_inv d" "closed_dag d" "weight_ok (communication_weight cfg)"
  shows "\<exists>p. optimizer_schedule cfg e d l c = Some p"
proof -
  obtain plan q nodes where q: "optimizer_schedule cfg e d l c = local_search_improve cfg e q d l c"
    "budgets_ok d l c nodes (decisions q)" "assigned_node ` set (decisions q) \<subseteq> set (candidates l c)"
    "d_task_id ` set (decisions q) \<subseteq> task_ids d" "distinct (map d_task_id (decisions q))"
    using assms(1-3) by (rule optimizer_phases [where cfg = cfg and l = l and c = c])
  show ?thesis unfolding q(1) using local_search_spec(2) [OF assms(1) q(4,5,3,2) assms(4)] .
qed

section \<open>Properties\<close>

text \<open>
  C18. The optimizer returns a plan on every valid graph: its loops end, no cast of a float to an integer
  is out of range, and no erase misses its task. The plan assigns every task exactly once, to the
  local node or a reachable peer. Durations are unbounded integers here: the theorem says nothing
  about costs whose sums do not fit into 64 bits.
\<close>

theorem optimizer_assigns_every_task_once:
  assumes "env_ok e" "dag_inv d" "closed_dag d" "acyclic (edges d)" "weight_ok (communication_weight cfg)"
  shows "\<exists>p. optimizer_schedule cfg e d l c = Some p \<and> distinct (map d_task_id (decisions p)) \<and>
    d_task_id ` set (decisions p) = task_ids d \<and> assigned_node ` set (decisions p) \<subseteq> set (candidates l c)"
proof -
  obtain p where p: "optimizer_schedule cfg e d l c = Some p"
    using optimizer_total [OF assms(1-3,5)] by blast
  show ?thesis
    using p optimizer.once_each [OF assms(1-3) p] optimizer.all_tasks(1) [OF assms(1-4) p]
      optimizer.placed [OF assms(1-3) p] by blast
qed

definition sample_optimizer :: OptimizerPolicyConfig where
  "sample_optimizer = \<lparr>max_iterations = 100, communication_weight = sample_weight\<rparr>"

lemma sample_optimizer_ok: "weight_ok (communication_weight sample_optimizer)"
  by (simp add: sample_optimizer_def sample_weight_ok)

theorem optimizer_assigns_every_task_once_witness:
  "\<exists>p. optimizer_schedule sample_optimizer sample_env sample_dag sample_local sample_cluster = Some p \<and>
     distinct (map d_task_id (decisions p)) \<and> d_task_id ` set (decisions p) = task_ids sample_dag \<and>
     assigned_node ` set (decisions p) \<subseteq> set (candidates sample_local sample_cluster)"
  by (rule optimizer_assigns_every_task_once [OF sample_env_ok sample_dag_ok sample_dag_acyclic sample_optimizer_ok])

text \<open>
  C19. No phase of the optimizer commits more memory of a peer than the peer reported available: bin
  packing checks the remaining budget and the local search checks it again before every move.
\<close>

theorem optimizer_peers_not_overcommitted:
  assumes "env_ok e" "dag_inv d" "closed_dag d" "optimizer_schedule cfg e d l c = Some p"
    and "distinct (candidates l c)" "r \<in> set (peers c)" "p_reachable r"
  shows "mem_load d (decisions p) (p_node_id r) \<le> unat (memory_available_bytes (p_resources r))"
proof -
  obtain nodes where ok: "budgets_ok d l c nodes (decisions p)"
    using optimizer_result [OF assms(1-4)] by metis
  have "r \<in> set (filter p_reachable (peers c))" using assms(6,7) by simp
  then obtain k where k: "k < length (filter p_reachable (peers c))" "filter p_reachable (peers c) ! k = r"
    by (metis in_set_conv_nth)
  then have cand: "Suc k < length nodes" "nb_id (nodes ! Suc k) = p_node_id r"
    using budgets_okD(1,3) [OF ok] by (simp_all add: candidates_def)
  have caps: "map nb_capacity nodes = map nb_capacity (node_budgets l c)" using ok by (simp add: budgets_ok_def)
  have "length (node_budgets l c) = length nodes" using map_eq_imp_length_eq [OF caps] by simp
  then have "nb_capacity (nodes ! Suc k) = nb_capacity (node_budgets l c ! Suc k)"
    using arg_cong [OF caps, of "\<lambda>xs. xs ! Suc k"] cand(1) by simp
  also have "\<dots> = memory_available_bytes (p_resources r)" using k by (simp add: node_budgets_def)
  finally have "nb_capacity (nodes ! Suc k) = memory_available_bytes (p_resources r)" .
  moreover have "unat (nb_used (nodes ! Suc k)) = mem_load d (decisions p) (p_node_id r)"
    "nb_used (nodes ! Suc k) \<le> nb_capacity (nodes ! Suc k)"
    using ok cand assms(5) by (auto simp: budgets_ok_def)
  ultimately show ?thesis by (simp add: word_le_nat_alt)
qed

theorem optimizer_peers_not_overcommitted_witness:
  "\<exists>p. optimizer_schedule sample_optimizer sample_env sample_dag sample_local sample_cluster = Some p \<and>
     mem_load sample_dag (decisions p) ''n2'' \<le> unat (30 :: u64)"
proof -
  obtain p where p: "optimizer_schedule sample_optimizer sample_env sample_dag sample_local sample_cluster = Some p"
    using optimizer_total [OF sample_env_ok sample_dag_ok sample_optimizer_ok] by blast
  have "sample_peer ''n2'' 10 30 True \<in> set (peers sample_cluster)" by (simp add: sample_cluster_def)
  from optimizer_peers_not_overcommitted [OF sample_env_ok sample_dag_ok p sample_candidates this] p
  show ?thesis by (simp add: sample_peer_def)
qed

text \<open>
  C20. With two tasks and two nodes or more, the reported makespan is the estimate for the returned
  plan, it is no larger than the estimate for the plan that critical path and bin packing built,
  and no smaller than the critical path of the graph.
\<close>

theorem optimizer_search_improves:
  assumes "env_ok e" "dag_inv d" "closed_dag d" "acyclic (edges d)" "costs_nonneg d"
    and "weight_ok (communication_weight cfg)" "2 \<le> task_count d" "2 \<le> length (candidates l c)"
    and "critical_path_assignment e d l = Some plan" "optimizer_schedule cfg e d l c = Some p"
  shows "improved cfg e d l c (bin_pack_remaining e plan d l c) p \<and>
    critical_path_cost (env_order e) d \<le> estimated_makespan p"
proof
  note ord = env_okD(1) [OF assms(1)]
  obtain plan' q nodes where q: "critical_path_assignment e d l = Some plan'" "q = bin_pack_remaining e plan' d l c"
    "length (decisions q) = length (topological_order (env_order e) d)"
    "if length (decisions q) < 2 \<or> length (candidates l c) < 2 then p = q else improved cfg e d l c q p"
    using assms(1-3,10) by (rule optimizer_result)
  have "length (decisions q) = task_count d"
    using q(3) length_topo_eq_count_iff [OF ord assms(2,3)] assms(4) by simp
  with q assms(7-9) show imp: "improved cfg e d l c (bin_pack_remaining e plan d l c) p" by auto
  then obtain asg where asg: "describes l c asg (decisions p)"
    "estimate_makespan e d (length (candidates l c)) asg (communication_weight cfg) = Some (estimated_makespan p)"
    by (auto simp: improved_def Let_def)
  have "assigned_all d (length (candidates l c)) asg"
    using asg(1) optimizer.all_tasks(1) [OF assms(1-4,10)] by (force simp: assigned_all_def describes_def)
  with asg(2) assms show "critical_path_cost (env_order e) d \<le> estimated_makespan p"
    using makespan_bounds(1) by simp
qed

theorem optimizer_search_improves_witness:
  "\<exists>p. optimizer_schedule sample_optimizer sample_env sample_dag sample_local sample_cluster = Some p \<and>
     critical_path_cost (env_order sample_env) sample_dag \<le> estimated_makespan p"
proof -
  obtain p where p: "optimizer_schedule sample_optimizer sample_env sample_dag sample_local sample_cluster = Some p"
    using optimizer_total [OF sample_env_ok sample_dag_ok sample_optimizer_ok] by blast
  obtain plan crit where plan: "critical_path_assignment sample_env sample_dag sample_local = Some plan"
    using sample_env_ok sample_dag_ok(1) by (rule critical_path_assignment_total)
  have "2 \<le> task_count sample_dag" "2 \<le> length (candidates sample_local sample_cluster)" by code_simp+
  from optimizer_search_improves [OF sample_env_ok sample_dag_ok sample_dag_acyclic sample_dag_costs(1)
      sample_optimizer_ok this plan p] p
  show ?thesis by blast
qed

text \<open>
  Without a reachable peer, or with fewer than two tasks, the local search returns early and the
  optimizer reports a makespan of zero, whatever the plan costs.
\<close>

theorem optimizer_makespan_unset:
  assumes "env_ok e" "dag_inv d" "closed_dag d" "optimizer_schedule cfg e d l c = Some p"
    and "available_count c = 0 \<or> length (topological_order (env_order e) d) < 2"
  shows "estimated_makespan p = 0"
proof -
  obtain plan q nodes where q: "estimated_makespan q = 0"
    "length (decisions q) = length (topological_order (env_order e) d)"
    "if length (decisions q) < 2 \<or> length (candidates l c) < 2 then p = q else improved cfg e d l c q p"
    using assms(1-4) by (rule optimizer_result)
  moreover have "available_count c = 0 \<Longrightarrow> length (candidates l c) < 2"
    by (simp add: candidates_def available_count_def)
  ultimately show ?thesis using assms(5) by auto
qed

theorem optimizer_makespan_unset_witness:
  "\<exists>p. optimizer_schedule sample_optimizer sample_env sample_dag sample_local \<lparr>peers = []\<rparr> = Some p \<and>
     estimated_makespan p = 0 \<and> total_compute_cost (env_order sample_env) sample_dag = 33"
proof -
  obtain p where p: "optimizer_schedule sample_optimizer sample_env sample_dag sample_local \<lparr>peers = []\<rparr> = Some p"
    using optimizer_total [OF sample_env_ok sample_dag_ok sample_optimizer_ok] by blast
  have "total_compute_cost (env_order sample_env) sample_dag = 33" by code_simp
  with p optimizer_makespan_unset [OF sample_env_ok sample_dag_ok p]
  show ?thesis by (simp add: available_count_def)
qed

end
