(* ===== verification/Memory_Pool.thy ===== *)
theory Memory_Pool
  imports Prelude
begin

text \<open>
  The arena allocator (\<^verbatim>\<open>src/executor/memory_pool.cpp\<close>). The operations are modelled on the pool
  alone; the compare-and-swap loop of \<^verbatim>\<open>allocate\<close> is modelled a second time as a step relation, one
  atomic access per step, in which any number of threads allocate at once.
\<close>

unbundle bit_operations_syntax

section \<open>Operations\<close>

record MemoryPool =
  mp_capacity :: u64
  mp_offset :: u64

definition new_pool :: "u64 \<Rightarrow> MemoryPool" where
  "new_pool capacity_bytes = \<lparr>mp_capacity = capacity_bytes, mp_offset = 0\<rparr>"

definition align_up :: "u64 \<Rightarrow> u64 \<Rightarrow> u64" where
  "align_up current alignment = (current + alignment - 1) AND NOT (alignment - 1)"

text \<open>One call of \<^verbatim>\<open>allocate\<close> that no other thread interferes with; the pointer is an offset.\<close>

definition allocate :: "u64 \<Rightarrow> u64 \<Rightarrow> MemoryPool \<Rightarrow> u64 option \<times> MemoryPool" where
  "allocate sz alignment pool =
     (let aligned = align_up (mp_offset pool) alignment
      in if aligned + sz > mp_capacity pool then (None, pool)
         else (Some aligned, pool\<lparr>mp_offset := aligned + sz\<rparr>))"

definition pool_reset :: "MemoryPool \<Rightarrow> MemoryPool" where
  "pool_reset pool = pool\<lparr>mp_offset := 0\<rparr>"

definition pool_used :: "MemoryPool \<Rightarrow> u64" where
  "pool_used pool = mp_offset pool"

definition can_allocate :: "u64 \<Rightarrow> MemoryPool \<Rightarrow> bool" where
  "can_allocate sz pool \<longleftrightarrow> pool_used pool + sz \<le> mp_capacity pool"

text \<open>\<^verbatim>\<open>alignof(std::max_align_t)\<close>, the default argument.\<close>

definition max_align :: u64 where
  "max_align = 16"

section \<open>The loop with interference\<close>

text \<open>
  A thread is outside \<^verbatim>\<open>allocate\<close> or at the head of the loop with the offset it last saw. The field
  \<open>ps_blocks\<close> is history: the blocks handed out since the last reset, newest first.
\<close>

datatype alloc_pc = Outside | Attempt u64 u64 u64

record PoolSystem =
  ps_pool :: MemoryPool
  ps_pcs :: "nat \<Rightarrow> alloc_pc"
  ps_blocks :: "(u64 \<times> u64) list"

datatype pool_event = Call nat u64 u64 | Retry nat | Return nat u64 u64 "u64 option" | Reset

inductive pool_step :: "PoolSystem \<Rightarrow> pool_event \<Rightarrow> PoolSystem \<Rightarrow> bool" where
  call: "ps_pcs s i = Outside \<Longrightarrow>
    pool_step s (Call i sz al) (s\<lparr>ps_pcs := (ps_pcs s)(i := Attempt sz al (mp_offset (ps_pool s)))\<rparr>)"
| full: "ps_pcs s i = Attempt sz al current \<Longrightarrow> align_up current al + sz > mp_capacity (ps_pool s) \<Longrightarrow>
    pool_step s (Return i sz al None) (s\<lparr>ps_pcs := (ps_pcs s)(i := Outside)\<rparr>)"
| claim: "ps_pcs s i = Attempt sz al current \<Longrightarrow>
    \<not> align_up current al + sz > mp_capacity (ps_pool s) \<Longrightarrow> mp_offset (ps_pool s) = current \<Longrightarrow>
    pool_step s (Return i sz al (Some (align_up current al)))
      (s\<lparr>ps_pool := (ps_pool s)\<lparr>mp_offset := align_up current al + sz\<rparr>, ps_pcs := (ps_pcs s)(i := Outside),
         ps_blocks := (align_up current al, sz) # ps_blocks s\<rparr>)"
| retry: "ps_pcs s i = Attempt sz al current \<Longrightarrow>
    \<not> align_up current al + sz > mp_capacity (ps_pool s) \<Longrightarrow>
    pool_step s (Retry i) (s\<lparr>ps_pcs := (ps_pcs s)(i := Attempt sz al (mp_offset (ps_pool s)))\<rparr>)"
| reset: "(\<And>i. ps_pcs s i = Outside) \<Longrightarrow>
    pool_step s Reset (s\<lparr>ps_pool := pool_reset (ps_pool s), ps_blocks := []\<rparr>)"

text \<open>
  A request that cannot wrap around: the alignment is a power of two, and sz, alignment and
  capacity together stay below the word size.
\<close>

definition request_ok :: "u64 \<Rightarrow> u64 \<Rightarrow> u64 \<Rightarrow> bool" where
  "request_ok cap sz al \<longleftrightarrow>
     al \<in> set (map (\<lambda>k. 2 ^ k) [0..<64]) \<and> unat cap + unat al + unat sz < 2 ^ 64"

text \<open>
  Runs from a fresh pool in which the calls make requests from \<open>R\<close>, a set of sizes with alignments. The
  code checks nothing about a request; with \<open>R = UNIV\<close> these are all runs.
\<close>

inductive pool_reach :: "(u64 \<times> u64) set \<Rightarrow> u64 \<Rightarrow> PoolSystem \<Rightarrow> bool" for R cap where
  init: "pool_reach R cap \<lparr>ps_pool = new_pool cap, ps_pcs = (\<lambda>_. Outside), ps_blocks = []\<rparr>"
| step: "pool_reach R cap s \<Longrightarrow> pool_step s e s' \<Longrightarrow> (\<And>i sz al. e = Call i sz al \<Longrightarrow> (sz, al) \<in> R) \<Longrightarrow> pool_reach R cap s'"

section \<open>Alignment\<close>

lemma unat_and_not_mask: "unat (x AND NOT (mask k :: u64)) = unat x - unat x mod 2 ^ k"
proof -
  have "x AND NOT (mask k) = x - take_bit k x"
    unfolding take_bit_eq_mask by (subst disjunctive_diff) (auto simp: bit_simps intro!: bit_word_eqI)
  moreover have "unat (take_bit k x) = unat x mod 2 ^ k"
    by (metis take_bit_eq_mod unsigned_take_bit_eq)
  ultimately show ?thesis
    by (simp add: unat_sub_if' word_le_nat_alt)
qed

lemma request_okE:
  assumes "request_ok cap sz al"
  obtains k where "k < 64" "al = 2 ^ k" "unat al = 2 ^ k" "unat cap + unat al + unat sz < 2 ^ 64"
proof -
  from assms obtain k where k: "k < 64" "al = 2 ^ k" by (auto simp: request_ok_def)
  have "unat (of_nat (2 ^ k) :: u64) = 2 ^ k"
    using k(1) power_strict_increasing [of k 64 "2 :: nat"] by (simp only: unat_of_nat) simp
  with k have "unat al = 2 ^ k" by simp
  with k assms that show ?thesis by (auto simp: request_ok_def)
qed

text \<open>Rounding up to a multiple, on natural numbers.\<close>

definition round_up :: "nat \<Rightarrow> nat \<Rightarrow> nat" where
  "round_up n a = (n + a - 1) - (n + a - 1) mod a"

lemma round_up_dvd: "a dvd round_up n a"
  unfolding round_up_def by (rule dvd_minus_mod)

lemma round_up_ge: "0 < a \<Longrightarrow> n \<le> round_up n a"
  unfolding round_up_def using mod_less_divisor [of a "n + a - 1"] by linarith

lemma round_up_less: "0 < a \<Longrightarrow> round_up n a < n + a"
  unfolding round_up_def by linarith

lemma round_up_mono: "m \<le> n \<Longrightarrow> round_up m a \<le> round_up n a"
  unfolding round_up_def minus_mod_eq_div_mult by (intro mult_le_mono div_le_mono) simp_all

lemma align_up_unat:
  assumes "request_ok cap sz al" "current \<le> cap"
  shows "unat (align_up current al) = round_up (unat current) (unat al)"
    and "unat (align_up current al + sz) = round_up (unat current) (unat al) + unat sz"
proof -
  obtain k where k: "k < 64" "al = 2 ^ k" "unat al = 2 ^ k" "unat cap + unat al + unat sz < 2 ^ 64"
    using assms(1) by (rule request_okE)
  have c: "unat current \<le> unat cap" using assms(2) by (simp add: word_le_nat_alt)
  have "unat (current + al) = unat current + unat al"
    using k(4) c by (subst unat_add_lem [symmetric]) simp
  then have "unat (current + al - 1) = unat current + unat al - 1"
    using k(3) by (simp add: unat_sub_if' word_le_nat_alt Suc_le_eq)
  then show up: "unat (align_up current al) = round_up (unat current) (unat al)"
    using k(2,3) by (simp add: align_up_def mask_eq_exp_minus_1 [symmetric] unat_and_not_mask round_up_def)
  have "round_up (unat current) (unat al) < unat current + unat al" using k(3) by (simp add: round_up_less)
  then show "unat (align_up current al + sz) = round_up (unat current) (unat al) + unat sz"
    using k(4) c up by (subst unat_add_lem [THEN iffD1]) simp_all
qed

section \<open>Sequential behaviour\<close>

definition pool_inv :: "MemoryPool \<Rightarrow> bool" where
  "pool_inv p \<longleftrightarrow> mp_offset p \<le> mp_capacity p"

lemma pool_inv_preserved:
  "pool_inv (new_pool c)" "pool_inv p \<Longrightarrow> pool_inv (pool_reset p)"
  "pool_inv p \<Longrightarrow> pool_inv (snd (allocate sz al p))"
  by (simp_all add: pool_inv_def new_pool_def pool_reset_def allocate_def Let_def not_less)

lemma allocate_cases:
  assumes "request_ok (mp_capacity p) sz al" "pool_inv p"
  shows "allocate sz al p =
    (let a = round_up (unat (mp_offset p)) (unat al)
     in if a + unat sz \<le> unat (mp_capacity p)
        then (Some (of_nat a), p\<lparr>mp_offset := of_nat (a + unat sz)\<rparr>) else (None, p))"
proof -
  have un: "unat (align_up (mp_offset p) al) = round_up (unat (mp_offset p)) (unat al)"
    "unat (align_up (mp_offset p) al + sz) = round_up (unat (mp_offset p)) (unat al) + unat sz"
    using assms by (simp_all add: align_up_unat pool_inv_def)
  have "align_up (mp_offset p) al = of_nat (round_up (unat (mp_offset p)) (unat al))"
    "align_up (mp_offset p) al + sz = of_nat (round_up (unat (mp_offset p)) (unat al) + unat sz)"
    by (simp_all add: un(1) [symmetric])
  moreover have "align_up (mp_offset p) al + sz > mp_capacity p \<longleftrightarrow>
      \<not> round_up (unat (mp_offset p)) (unat al) + unat sz \<le> unat (mp_capacity p)"
    using un(2) assms(2) by (simp add: word_less_nat_alt pool_inv_def not_le)
  ultimately show ?thesis by (auto simp: allocate_def Let_def)
qed

section \<open>Concurrent behaviour\<close>

definition pc_inv :: "MemoryPool \<Rightarrow> alloc_pc \<Rightarrow> bool" where
  "pc_inv p pc = (case pc of Outside \<Rightarrow> True
     | Attempt sz al current \<Rightarrow> request_ok (mp_capacity p) sz al \<and> current \<le> mp_offset p)"

text \<open>Where a block starts and ends, in bytes of the buffer.\<close>

abbreviation block_span :: "u64 \<times> u64 \<Rightarrow> nat set" where
  "block_span b \<equiv> {unat (fst b)..<unat (fst b) + unat (snd b)}"

definition pool_system_inv :: "u64 \<Rightarrow> PoolSystem \<Rightarrow> bool" where
  "pool_system_inv cap s \<longleftrightarrow>
     mp_capacity (ps_pool s) = cap \<and> pool_inv (ps_pool s) \<and> (\<forall>i. pc_inv (ps_pool s) (ps_pcs s i)) \<and>
     (\<forall>b \<in> set (ps_blocks s). unat (fst b) + unat (snd b) \<le> unat (mp_offset (ps_pool s))) \<and>
     sorted_wrt (\<lambda>b c. unat (fst c) + unat (snd c) \<le> unat (fst b)) (ps_blocks s)"


lemma pc_inv_reset: "pc_inv p Outside"
  by (simp add: pc_inv_def)

lemma claim_grows:
  assumes "pool_system_inv cap s" "ps_pcs s i = Attempt sz al (mp_offset (ps_pool s))"
  shows "unat (mp_offset (ps_pool s)) \<le> unat (align_up (mp_offset (ps_pool s)) al)"
    and "unat (align_up (mp_offset (ps_pool s)) al + sz) = unat (align_up (mp_offset (ps_pool s)) al) + unat sz"
proof -
  from assms have req: "request_ok (mp_capacity (ps_pool s)) sz al" "mp_offset (ps_pool s) \<le> mp_capacity (ps_pool s)"
    by (auto simp: pool_system_inv_def pool_inv_def pc_inv_def dest: spec [of _ i])
  then show "unat (align_up (mp_offset (ps_pool s)) al + sz) = unat (align_up (mp_offset (ps_pool s)) al) + unat sz"
    by (simp add: align_up_unat)
  show "unat (mp_offset (ps_pool s)) \<le> unat (align_up (mp_offset (ps_pool s)) al)"
    using req by (auto simp: align_up_unat intro!: round_up_ge elim!: request_okE)
qed

lemma pool_step_inv:
  assumes "pool_step s e s'" "pool_system_inv cap s" "\<And>i sz al. e = Call i sz al \<Longrightarrow> request_ok cap sz al"
  shows "pool_system_inv cap s'"
  using assms
proof cases
  case (call i sz al)
  then show ?thesis
    using assms(2) assms(3) [of i sz al] by (auto simp: pool_system_inv_def pc_inv_def)
next
  case (full i sz al current)
  then show ?thesis using assms(2) by (auto simp: pool_system_inv_def pc_inv_def)
next
  case (claim i sz al current)
  let ?new = "align_up current al + sz"
  note grow = claim_grows [OF assms(2), of i sz al]
  have le: "unat current \<le> unat (align_up current al)" "unat ?new = unat (align_up current al) + unat sz"
    using grow claim by simp_all
  then have mono: "current \<le> ?new" by (simp add: word_le_nat_alt)
  have "pc_inv (ps_pool s') (ps_pcs s' j)" for j
    using assms(2) claim mono
    by (auto simp: pool_system_inv_def pc_inv_def split: alloc_pc.splits dest!: spec [of _ j] intro: order_trans)
  moreover have "unat (fst b) + unat (snd b) \<le> unat (align_up current al)" if "b \<in> set (ps_blocks s)" for b
    using assms(2) claim le that by (fastforce simp: pool_system_inv_def)
  ultimately show ?thesis
    using assms(2) claim le by (fastforce simp: pool_system_inv_def pool_inv_def)
next
  case (retry i sz al current)
  then have "request_ok cap sz al" using assms(2) by (auto simp: pool_system_inv_def pc_inv_def dest: spec [of _ i])
  then show ?thesis using assms(2) retry by (auto simp: pool_system_inv_def pc_inv_def)
next
  case reset
  then show ?thesis
    using assms(2) by (auto simp: pool_system_inv_def pool_reset_def pool_inv_def pc_inv_def)
qed

lemma pool_reach_inv:
  assumes "pool_reach R cap s" "\<forall>(sz, al) \<in> R. request_ok cap sz al"
  shows "pool_system_inv cap s"
  using assms(1)
proof (induction rule: pool_reach.induct)
  case init
  show ?case by (simp add: pool_system_inv_def new_pool_def pool_inv_def pc_inv_def)
next
  case (step s e s')
  then show ?case using assms(2) by (blast intro: pool_step_inv)
qed

lemma attempt_fails_later:
  assumes "request_ok cap sz al" "a \<le> b" "b \<le> cap" "align_up a al + sz > cap"
  shows "align_up b al + sz > cap"
proof -
  have "a \<le> cap" using assms(2,3) by simp
  moreover have "round_up (unat a) (unat al) \<le> round_up (unat b) (unat al)"
    using assms(2) by (intro round_up_mono) (simp add: word_le_nat_alt)
  ultimately show ?thesis
    using assms(3,4) by (simp add: word_less_nat_alt align_up_unat [OF assms(1)])
qed

section \<open>Properties\<close>

text \<open>
  C29. As long as no request can wrap around (\<open>request_ok\<close>: the alignment is a power of two, and size, alignment
  and capacity together stay below \<open>2 ^ 64\<close>, which the code does not check), the following holds
  however the threads interleave. The blocks handed out since the last reset never overlap, lie
  inside the buffer and are aligned as asked, and every step is one of the sequential specification: a call that returns has
  the result and the effect \<^verbatim>\<open>allocate\<close> would have if it ran alone at that moment, and every other
  step leaves the pool alone.
\<close>

theorem pool_linearizable:
  assumes "pool_reach R cap s" "\<forall>(sz, al) \<in> R. request_ok cap sz al"
  shows "sorted_wrt (\<lambda>b c. disjnt (block_span b) (block_span c)) (ps_blocks s) \<and>
    list_all (\<lambda>b. unat (fst b) + unat (snd b) \<le> unat cap) (ps_blocks s) \<and>
    (\<forall>e s'. pool_step s e s' \<longrightarrow>
      (case e of Return i sz al r \<Rightarrow>
          allocate sz al (ps_pool s) = (r, ps_pool s') \<and> (\<forall>a. r = Some a \<longrightarrow> unat al dvd unat a)
       | Reset \<Rightarrow> ps_pool s' = pool_reset (ps_pool s)
       | _ \<Rightarrow> ps_pool s' = ps_pool s))"
proof (intro conjI allI impI)
  have inv: "pool_system_inv cap s" using assms by (rule pool_reach_inv)
  then have "sorted_wrt (\<lambda>b c. unat (fst c) + unat (snd c) \<le> unat (fst b)) (ps_blocks s)"
    by (simp add: pool_system_inv_def)
  then show "sorted_wrt (\<lambda>b c. disjnt (block_span b) (block_span c)) (ps_blocks s)"
    by (rule sorted_wrt_mono_rel [rotated]) (auto simp: disjnt_def)
  have cap: "mp_capacity (ps_pool s) = cap" "unat (mp_offset (ps_pool s)) \<le> unat cap" "mp_offset (ps_pool s) \<le> cap"
    using inv by (auto simp: pool_system_inv_def pool_inv_def word_le_nat_alt)
  then show "list_all (\<lambda>b. unat (fst b) + unat (snd b) \<le> unat cap) (ps_blocks s)"
    using inv by (fastforce simp: pool_system_inv_def list_all_iff)
  fix e s' assume "pool_step s e s'"
  then show "case e of Return i sz al r \<Rightarrow>
          allocate sz al (ps_pool s) = (r, ps_pool s') \<and> (\<forall>a. r = Some a \<longrightarrow> unat al dvd unat a)
       | Reset \<Rightarrow> ps_pool s' = pool_reset (ps_pool s) | _ \<Rightarrow> ps_pool s' = ps_pool s"
  proof cases
    case (full i sz al current)
    then have "request_ok cap sz al" "current \<le> mp_offset (ps_pool s)"
      using inv cap(1) by (auto simp: pool_system_inv_def pc_inv_def dest: spec [of _ i])
    then have "align_up (mp_offset (ps_pool s)) al + sz > cap"
      using attempt_fails_later full(4) cap by metis
    then show ?thesis using full cap(1) by (simp add: allocate_def Let_def)
  next
    case (claim i sz al current)
    then have "request_ok cap sz al" using inv cap(1) by (auto simp: pool_system_inv_def pc_inv_def dest: spec [of _ i])
    then have "unat al dvd unat (align_up current al)" using claim cap(3) by (simp add: align_up_unat round_up_dvd)
    then show ?thesis using claim by (simp add: allocate_def Let_def)
  qed simp_all
qed

definition sample_pool_call :: PoolSystem where
  "sample_pool_call = \<lparr>ps_pool = new_pool 4096, ps_pcs = (\<lambda>_. Outside)(0 := Attempt 64 max_align 0), ps_blocks = []\<rparr>"

definition sample_pool_system :: PoolSystem where
  "sample_pool_system =
     \<lparr>ps_pool = (new_pool 4096)\<lparr>mp_offset := 64\<rparr>, ps_pcs = (\<lambda>_. Outside)(0 := Outside), ps_blocks = [(0, 64)]\<rparr>"

lemma sample_pool_reach: "pool_reach {(64, max_align)} 4096 sample_pool_system"
proof -
  let ?init = "\<lparr>ps_pool = new_pool 4096, ps_pcs = (\<lambda>_. Outside), ps_blocks = []\<rparr>"
  have "pool_step ?init (Call 0 64 max_align) sample_pool_call"
    using pool_step.call [of ?init 0 64 max_align] by (simp add: sample_pool_call_def new_pool_def)
  then have call: "pool_reach {(64, max_align)} 4096 sample_pool_call" by (rule pool_reach.step [OF pool_reach.init]) simp
  have "pool_step sample_pool_call (Return 0 64 max_align (Some 0)) sample_pool_system"
    using pool_step.claim [of sample_pool_call 0 64 max_align 0]
    by (simp add: sample_pool_call_def sample_pool_system_def new_pool_def align_up_def max_align_def)
  with call show ?thesis by (rule pool_reach.step) simp
qed

theorem pool_linearizable_witness:
  "ps_blocks sample_pool_system = [(0, 64)] \<and>
   list_all (\<lambda>b. unat (fst b) + unat (snd b) \<le> unat (4096 :: u64)) (ps_blocks sample_pool_system)"
proof -
  have "request_ok 4096 64 max_align"
    by (simp add: request_ok_def max_align_def image_iff bexI [of _ "4 :: nat"])
  then show ?thesis using pool_linearizable [OF sample_pool_reach] by (simp add: sample_pool_system_def)
qed

text \<open>
  The bounds check of \<^verbatim>\<open>allocate\<close> wraps around: there is a request larger than the whole arena
  that succeeds, moves the offset backwards, and makes the next request return memory that is
  already in use.
\<close>

theorem allocate_wraps:
  "let (first, p1) = allocate 64 max_align (new_pool 4096);
       (huge, p2) = allocate (- 64) max_align p1;
       (second, p3) = allocate 64 max_align p2
   in first = Some 0 \<and> huge = Some 64 \<and> second = first"
  by (simp add: allocate_def new_pool_def align_up_def max_align_def)

end
