(* ===== verification/Task_Runner.thy ===== *)
theory Task_Runner
  imports Memory_Pool Core_Types
begin

text \<open>
  The task runner (\<^verbatim>\<open>src/executor/task_runner.cpp\<close>). What a thread observes from outside, the steady
  clock and the stop token, is a parameter: the n-th value it reads from each.
\<close>

section \<open>Operations\<close>

record ExecutionResult =
  er_task_id :: TaskId
  final_state :: TaskState
  actual_duration :: Duration
  peak_memory_bytes :: u64
  error_message :: "string option"

text \<open>\<open>steady_now n\<close> is in nanoseconds.\<close>

record RunEnv =
  steady_now :: "nat \<Rightarrow> int"
  stop_requested :: "nat \<Rightarrow> bool"

text \<open>\<^verbatim>\<open>duration_cast<microseconds>\<close> truncates towards zero.\<close>

definition duration_cast_us :: "int \<Rightarrow> Duration" where
  "duration_cast_us ns = (if 0 \<le> ns then ns div 1000 else - (- ns div 1000))"

definition burn :: "u64 \<Rightarrow> u64" where
  "burn counter = fold (\<lambda>i c. c + of_nat i * of_nat i) [0..<1000] counter"

text \<open>
  The busy loop: \<open>k\<close> clock readings and \<open>q\<close> queries of the token lie behind it. It answers the two
  counts after the loop; a loop that runs forever is \<open>None\<close>.
\<close>

partial_function (option) simulate_loop ::
  "RunEnv \<Rightarrow> Duration \<Rightarrow> int \<Rightarrow> nat \<Rightarrow> nat \<Rightarrow> u64 \<Rightarrow> (nat \<times> nat) option" where
  "simulate_loop env target_duration start k q counter =
     (if stop_requested env q then Some (k, Suc q)
      else if duration_cast_us (steady_now env k - start) \<ge> target_duration then Some (Suc k, Suc q)
      else simulate_loop env target_duration start (Suc k) (Suc q) (burn counter))"

definition simulate_compute :: "RunEnv \<Rightarrow> Duration \<Rightarrow> nat \<Rightarrow> nat \<Rightarrow> (nat \<times> nat) option" where
  "simulate_compute env target_duration k q =
     simulate_loop env target_duration (steady_now env k) (Suc k) q 0"

definition execute ::
  "RunEnv \<Rightarrow> TaskId \<Rightarrow> TaskProfile \<Rightarrow> MemoryPool \<Rightarrow> (ExecutionResult \<times> MemoryPool) option" where
  "execute env task_id profile pool =
     (let start = steady_now env 0; (mem, pool') = allocate (memory_bytes profile) max_align pool
      in case mem of
           None \<Rightarrow> Some (\<lparr>er_task_id = task_id, final_state = Failed, actual_duration = 0,
                          peak_memory_bytes = 0, error_message = Some ''Out of memory in pool''\<rparr>, pool')
         | Some _ \<Rightarrow>
             (case simulate_compute env (compute_cost profile) 1 0 of None \<Rightarrow> None
              | Some (k, q) \<Rightarrow>
                  Some (\<lparr>er_task_id = task_id,
                         final_state = (if stop_requested env q then Failed else Completed),
                         actual_duration = duration_cast_us (steady_now env k - start),
                         peak_memory_bytes = memory_bytes profile,
                         error_message = (if stop_requested env (Suc q)
                           then Some ''Cancelled via stop token'' else None)\<rparr>, pool')))"

section \<open>The busy loop\<close>

text \<open>A clock that never runs backwards and passes every bound; a token that stays requested.\<close>

definition clock_ok :: "RunEnv \<Rightarrow> bool" where
  "clock_ok env \<longleftrightarrow> mono (steady_now env) \<and> (\<forall>b. \<exists>n. b \<le> steady_now env n)"

definition stop_ok :: "RunEnv \<Rightarrow> bool" where
  "stop_ok env \<longleftrightarrow> mono (stop_requested env)"

lemma duration_cast_us_mono: "a \<le> b \<Longrightarrow> duration_cast_us a \<le> duration_cast_us b"
  by (auto simp: duration_cast_us_def zdiv_mono1 pos_imp_zdiv_nonneg_iff
      intro: order_trans [of _ 0])

lemma duration_cast_us_unbounded: "0 \<le> target \<Longrightarrow> 1000 * target \<le> ns \<Longrightarrow> target \<le> duration_cast_us ns"
  using zdiv_mono1 [of "1000 * target" ns 1000] by (simp add: duration_cast_us_def)

text \<open>The loop ends by the reading at which the target is reached.\<close>

lemma simulate_loop_ends:
  assumes "k \<le> n" "target \<le> duration_cast_us (steady_now env n - start)"
  shows "\<exists>k' q'. simulate_loop env target start k q counter = Some (k', q') \<and> k \<le> k'"
  using assms(1)
proof (induction "n - k" arbitrary: k q counter)
  case 0
  then show ?case using assms(2) by (simp add: simulate_loop.simps [of _ _ _ k])
next
  case (Suc m)
  then have IH: "\<exists>k' q'. simulate_loop env target start (Suc k) (Suc q) (burn counter) = Some (k', q') \<and> Suc k \<le> k'"
    by (intro Suc.hyps(1)) simp_all
  show ?case
    unfolding simulate_loop.simps [of _ _ _ k] using IH by auto
qed

text \<open>How the loop ended: the target was reached, or the last query found a stop.\<close>

lemma simulate_loop_result:
  assumes "simulate_loop env target start k q counter = Some (k', q')"
  shows "k \<le> k' \<and> q < q' \<and> (stop_requested env (q' - 1) \<or>
    (k < k' \<and> target \<le> duration_cast_us (steady_now env (k' - 1) - start)))"
proof -
  let ?P = "\<lambda>env target start k q (counter :: u64) r. \<forall>k' q'. r = (k', q') \<longrightarrow> k \<le> k' \<and> q < q' \<and>
    (stop_requested env (q' - 1) \<or> (k < k' \<and> target \<le> duration_cast_us (steady_now env (k' - 1) - start)))"
  have "?P env target start k q counter (k', q')"
  proof (rule simulate_loop.raw_induct [where P = ?P, OF _ assms])
    fix f env target start k q counter r
    assume IH: "\<And>env target start k q counter r. f env target start k q counter = Some r \<Longrightarrow> ?P env target start k q counter r"
      and run: "(if stop_requested env q then Some (k, Suc q)
        else if target \<le> duration_cast_us (steady_now env k - start) then Some (Suc k, Suc q)
        else f env target start (Suc k) (Suc q) (burn counter)) = Some r"
    show "?P env target start k q counter r"
    proof (cases "stop_requested env q \<or> target \<le> duration_cast_us (steady_now env k - start)")
      case False
      with run have "?P env target start (Suc k) (Suc q) (burn counter) r" by (intro IH) simp
      then show ?thesis by auto
    qed (use run in \<open>auto split: if_splits\<close>)
  qed
  then show ?thesis by simp
qed

lemma simulate_compute_returns:
  assumes "clock_ok env" "0 \<le> cost"
  shows "\<exists>k q. simulate_compute env cost 1 0 = Some (k, q)"
proof -
  obtain n where "steady_now env 1 + 1000 * cost \<le> steady_now env n" using assms(1) by (auto simp: clock_ok_def)
  moreover have "steady_now env n \<le> steady_now env (max 2 n)" using assms(1) by (auto simp: clock_ok_def monoD)
  ultimately have "cost \<le> duration_cast_us (steady_now env (max 2 n) - steady_now env 1)"
    using assms(2) by (intro duration_cast_us_unbounded) simp_all
  then show ?thesis using simulate_loop_ends [of 2 "max 2 n"] by (fastforce simp: simulate_compute_def numeral_2_eq_2)
qed

section \<open>Properties\<close>

text \<open>
  C30. A call of \<^verbatim>\<open>execute\<close> always returns. When the arena refuses the request it fails with the
  out-of-memory message, no duration and no memory, and leaves the arena alone. Otherwise the block
  stays claimed and the reported peak is the declared size; the call fails exactly when a stop was
  requested by the time the loop has ended, and then carries the cancellation message; a task reported
  completed has occupied the node for at least its declared compute cost. Without a stop request a task
  that got its memory completes and has no message.
\<close>

theorem execute_result:
  assumes "clock_ok env" "stop_ok env" "0 \<le> compute_cost profile"
    and "allocate (memory_bytes profile) max_align p = (mem, p')"
  shows "\<exists>r. execute env i profile p = Some (r, p') \<and> er_task_id r = i \<and>
    (case mem of
       None \<Rightarrow> p' = p \<and> final_state r = Failed \<and> actual_duration r = 0 \<and> peak_memory_bytes r = 0 \<and>
         error_message r = Some ''Out of memory in pool''
     | Some _ \<Rightarrow> peak_memory_bytes r = memory_bytes profile \<and>
         (\<exists>k q. simulate_compute env (compute_cost profile) 1 0 = Some (k, q) \<and>
           final_state r = (if stop_requested env q then Failed else Completed) \<and>
           error_message r = (if stop_requested env (Suc q) then Some ''Cancelled via stop token'' else None)) \<and>
         (final_state r = Failed \<longrightarrow> error_message r = Some ''Cancelled via stop token'') \<and>
         (final_state r = Completed \<longrightarrow> compute_cost profile \<le> actual_duration r) \<and>
         ((\<forall>q. \<not> stop_requested env q) \<longrightarrow> final_state r = Completed \<and> error_message r = None))"
proof (cases mem)
  case None
  then show ?thesis using assms(4) by (auto simp: execute_def allocate_def Let_def split: if_splits)
next
  case (Some a)
  let ?c = "compute_cost profile" and ?t = "steady_now env"
  obtain k q where kq: "simulate_compute env ?c 1 0 = Some (k, q)" using simulate_compute_returns [OF assms(1,3)] by blast
  have stays: "stop_requested env b" if "stop_requested env a" "a \<le> b" for a b
    using assms(2) that monoD [of "stop_requested env" a b] by (auto simp: stop_ok_def)
  have "?c \<le> duration_cast_us (?t k - ?t 0)" if "\<not> stop_requested env q"
  proof -
    have mono: "?t a \<le> ?t b" if "a \<le> b" for a b using assms(1) that by (auto simp: clock_ok_def monoD)
    have "\<not> stop_requested env (q - 1)" using that stays by auto
    then have "2 \<le> k" "?c \<le> duration_cast_us (?t (k - 1) - ?t 1)"
      using simulate_loop_result [of env ?c "?t 1" 2 0 0 k q] kq
      by (auto simp: simulate_compute_def numeral_2_eq_2)
    moreover have "?t (k - 1) - ?t 1 \<le> ?t k - ?t 0" using mono [of 0 1] mono [of "k - 1" k] by linarith
    ultimately show ?thesis using duration_cast_us_mono order_trans by blast
  qed
  moreover have "stop_requested env q \<Longrightarrow> stop_requested env (Suc q)" using stays by simp
  ultimately show ?thesis using Some assms(4) kq by (auto simp: execute_def Let_def)
qed

definition sample_run_env :: RunEnv where
  "sample_run_env = \<lparr>steady_now = (\<lambda>n. 1000 * int n), stop_requested = (\<lambda>_. False)\<rparr>"

lemma sample_run_env_ok: "clock_ok sample_run_env" "stop_ok sample_run_env"
proof -
  have "\<exists>n. b \<le> 1000 * int n" for b by (rule exI [of _ "nat b"]) simp
  then show "clock_ok sample_run_env" by (auto simp: clock_ok_def sample_run_env_def mono_def)
  show "stop_ok sample_run_env" by (simp add: stop_ok_def sample_run_env_def mono_def)
qed

definition sample_profile_5 :: TaskProfile where
  "sample_profile_5 = \<lparr>compute_cost = 5, memory_bytes = 100, input_bytes = 0, output_bytes = 0\<rparr>"

definition stopped_run_env :: RunEnv where
  "stopped_run_env = sample_run_env\<lparr>stop_requested := (\<lambda>_. True)\<rparr>"

theorem execute_result_witness:
  "(\<exists>r. execute sample_run_env ''t'' sample_profile_5 (new_pool 64) = Some (r, new_pool 64) \<and> final_state r = Failed) \<and>
   (\<exists>r. execute sample_run_env ''t'' sample_profile_5 (new_pool 256) = Some (r, \<lparr>mp_capacity = 256, mp_offset = 100\<rparr>) \<and>
     final_state r = Completed \<and> 5 \<le> actual_duration r) \<and>
   (\<exists>r. execute stopped_run_env ''t'' sample_profile_5 (new_pool 256) = Some (r, \<lparr>mp_capacity = 256, mp_offset = 100\<rparr>) \<and>
     final_state r = Failed \<and> error_message r = Some ''Cancelled via stop token'')"
proof -
  have env: "clock_ok stopped_run_env" "stop_ok stopped_run_env" "0 \<le> compute_cost sample_profile_5"
    using sample_run_env_ok by (simp_all add: stopped_run_env_def clock_ok_def stop_ok_def mono_def sample_profile_5_def)
  have al: "allocate (memory_bytes sample_profile_5) max_align (new_pool 64) = (None, new_pool 64)"
    "allocate (memory_bytes sample_profile_5) max_align (new_pool 256) = (Some 0, \<lparr>mp_capacity = 256, mp_offset = 100\<rparr>)"
    by (simp_all add: sample_profile_5_def allocate_def new_pool_def align_up_def max_align_def)
  show ?thesis
    using execute_result [OF sample_run_env_ok env(3) al(1), of "''t''"] execute_result [OF sample_run_env_ok env(3) al(2), of "''t''"]
      execute_result [OF env al(2), of "''t''"]
    by (auto simp: sample_run_env_def stopped_run_env_def sample_profile_5_def)
qed

end
