(* ===== verification/Mpmc_Queue.thy ===== *)
theory Mpmc_Queue
  imports Prelude "HOL-Library.Log_Nat"
begin

text \<open>
  The bounded lock-free queue (\<^verbatim>\<open>src/executor/mpmc_queue.hpp\<close>). A call of \<^verbatim>\<open>try_push\<close> or \<^verbatim>\<open>try_pop\<close> is a
  sequence of atomic accesses, and \<open>qstep\<close> performs one of them. A thread that runs alone executes
  its steps one after the other (\<open>try_push\<close>, \<open>try_pop\<close>); in the step relation \<open>qsys_step\<close> the
  steps of any number of threads interleave.
\<close>

unbundle bit_operations_syntax

section \<open>State\<close>

record 'a Cell =
  sequence :: u64
  cell_value :: 'a

record 'a MpmcQueue =
  q_capacity :: u64
  q_mask :: u64
  q_cells :: "'a Cell list"
  enqueue_pos :: u64
  dequeue_pos :: u64

text \<open>\<^verbatim>\<open>std::bit_ceil\<close>: the smallest power of two that is not smaller.\<close>

definition bit_ceil :: "nat \<Rightarrow> nat" where
  "bit_ceil n = 2 ^ nat (bitlen (int n - 1))"

text \<open>The constructor; \<open>dflt\<close> is the value of a default-initialised cell.\<close>

definition new_queue :: "'a \<Rightarrow> u64 \<Rightarrow> 'a MpmcQueue" where
  "new_queue dflt capacity =
     (let cap = bit_ceil (unat (if capacity < 2 then 2 else capacity))
      in \<lparr>q_capacity = of_nat cap, q_mask = of_nat cap - 1,
          q_cells = map (\<lambda>i. \<lparr>sequence = of_nat i, cell_value = dflt\<rparr>) [0..<cap],
          enqueue_pos = 0, dequeue_pos = 0\<rparr>)"

definition cell_index :: "'a MpmcQueue \<Rightarrow> u64 \<Rightarrow> nat" where
  "cell_index q pos = unat (pos AND q_mask q)"

definition cell_at :: "'a MpmcQueue \<Rightarrow> u64 \<Rightarrow> 'a Cell" where
  "cell_at q pos = q_cells q ! cell_index q pos"

definition cell_update :: "u64 \<Rightarrow> ('a Cell \<Rightarrow> 'a Cell) \<Rightarrow> 'a MpmcQueue \<Rightarrow> 'a MpmcQueue" where
  "cell_update pos f q =
     q\<lparr>q_cells := (q_cells q)[cell_index q pos := f (q_cells q ! cell_index q pos)]\<rparr>"

section \<open>Atomic steps of the two operations\<close>

text \<open>
  Where a thread is: before the load of the position counter, before the load of the cell's sequence
  number, before the compare-and-swap, before the access to the value, before the store of the
  sequence number, or at the return.
\<close>

datatype 'a qpc =
    PushLoad 'a | PushCheck 'a u64 | PushCas 'a u64 | PushWrite 'a u64 | PushPublish u64 | PushRet bool
  | PopLoad | PopCheck u64 | PopCas u64 | PopRead u64 | PopRelease 'a u64 | PopRet "'a option"

text \<open>
  \<open>moved\<close> is what \<^verbatim>\<open>std::move\<close> leaves behind in a cell; \<open>spurious\<close> says whether a weak
  compare-and-swap fails although the comparison holds.
\<close>

fun qstep :: "('a \<Rightarrow> 'a) \<Rightarrow> bool \<Rightarrow> 'a MpmcQueue \<Rightarrow> 'a qpc \<Rightarrow> 'a MpmcQueue \<times> 'a qpc" where
  "qstep moved spurious q (PushLoad v) = (q, PushCheck v (enqueue_pos q))"
| "qstep moved spurious q (PushCheck v pos) =
     (let diff = sint (sequence (cell_at q pos)) - sint pos
      in (q, if diff = 0 then PushCas v pos else if diff < 0 then PushRet False else PushLoad v))"
| "qstep moved spurious q (PushCas v pos) =
     (if enqueue_pos q = pos \<and> \<not> spurious then (q\<lparr>enqueue_pos := pos + 1\<rparr>, PushWrite v pos)
      else (q, PushCheck v (enqueue_pos q)))"
| "qstep moved spurious q (PushWrite v pos) =
     (cell_update pos (\<lambda>c. c\<lparr>cell_value := v\<rparr>) q, PushPublish pos)"
| "qstep moved spurious q (PushPublish pos) =
     (cell_update pos (\<lambda>c. c\<lparr>sequence := pos + 1\<rparr>) q, PushRet True)"
| "qstep moved spurious q PopLoad = (q, PopCheck (dequeue_pos q))"
| "qstep moved spurious q (PopCheck pos) =
     (let diff = sint (sequence (cell_at q pos)) - sint (pos + 1)
      in (q, if diff = 0 then PopCas pos else if diff < 0 then PopRet None else PopLoad))"
| "qstep moved spurious q (PopCas pos) =
     (if dequeue_pos q = pos \<and> \<not> spurious then (q\<lparr>dequeue_pos := pos + 1\<rparr>, PopRead pos)
      else (q, PopCheck (dequeue_pos q)))"
| "qstep moved spurious q (PopRead pos) =
     (cell_update pos (\<lambda>c. c\<lparr>cell_value := moved (cell_value c)\<rparr>) q,
      PopRelease (cell_value (cell_at q pos)) pos)"
| "qstep moved spurious q (PopRelease v pos) =
     (cell_update pos (\<lambda>c. c\<lparr>sequence := pos + q_capacity q\<rparr>) q, PopRet (Some v))"
| "qstep moved spurious q (PushRet b) = (q, PushRet b)"
| "qstep moved spurious q (PopRet r) = (q, PopRet r)"

fun returned :: "'a qpc \<Rightarrow> bool" where
  "returned (PushRet _) = True"
| "returned (PopRet _) = True"
| "returned _ = False"

text \<open>A thread that runs alone; its loop may run forever, which is \<open>None\<close>.\<close>

partial_function (option) run_alone ::
  "('a \<Rightarrow> 'a) \<Rightarrow> 'a MpmcQueue \<Rightarrow> 'a qpc \<Rightarrow> ('a MpmcQueue \<times> 'a qpc) option" where
  "run_alone moved q pc =
     (if returned pc then Some (q, pc)
      else run_alone moved (fst (qstep moved False q pc)) (snd (qstep moved False q pc)))"

definition try_push :: "('a \<Rightarrow> 'a) \<Rightarrow> 'a \<Rightarrow> 'a MpmcQueue \<Rightarrow> (bool \<times> 'a MpmcQueue) option" where
  "try_push moved v q = (case run_alone moved q (PushLoad v) of
     Some (q', PushRet b) \<Rightarrow> Some (b, q') | _ \<Rightarrow> None)"

definition try_pop :: "('a \<Rightarrow> 'a) \<Rightarrow> 'a MpmcQueue \<Rightarrow> ('a option \<times> 'a MpmcQueue) option" where
  "try_pop moved q = (case run_alone moved q PopLoad of
     Some (q', PopRet r) \<Rightarrow> Some (r, q') | _ \<Rightarrow> None)"

definition size_approx :: "'a MpmcQueue \<Rightarrow> u64" where
  "size_approx q = (if enqueue_pos q \<ge> dequeue_pos q then enqueue_pos q - dequeue_pos q else 0)"

section \<open>Interleaved threads\<close>

text \<open>
  Histories: \<open>qs_log\<close> lists the pushed values in the order in which their positions were claimed,
  \<open>qs_taken\<close> the positions and values consumers have taken out.
\<close>

record 'a QSystem =
  qs_queue :: "'a MpmcQueue"
  qs_pcs :: "nat \<Rightarrow> 'a qpc option"
  qs_log :: "'a list"
  qs_taken :: "(nat \<times> 'a) list"

fun log_step :: "'a qpc \<Rightarrow> 'a qpc \<Rightarrow> 'a list \<Rightarrow> 'a list" where
  "log_step (PushCas v pos) (PushWrite w _) l = l @ [v]"
| "log_step _ _ l = l"

fun taken_step :: "'a qpc \<Rightarrow> 'a qpc \<Rightarrow> (nat \<times> 'a) list \<Rightarrow> (nat \<times> 'a) list" where
  "taken_step (PopRead pos) (PopRelease v _) l = l @ [(unat pos, v)]"
| "taken_step _ _ l = l"

inductive qsys_step :: "('a \<Rightarrow> 'a) \<Rightarrow> 'a QSystem \<Rightarrow> 'a QSystem \<Rightarrow> bool" for moved where
  start_push: "qs_pcs s i = None \<Longrightarrow>
    qsys_step moved s (s\<lparr>qs_pcs := (qs_pcs s)(i \<mapsto> PushLoad v)\<rparr>)"
| start_pop: "qs_pcs s i = None \<Longrightarrow>
    qsys_step moved s (s\<lparr>qs_pcs := (qs_pcs s)(i \<mapsto> PopLoad)\<rparr>)"
| access: "qs_pcs s i = Some pc \<Longrightarrow> \<not> returned pc \<Longrightarrow> qstep moved spurious (qs_queue s) pc = (q', pc') \<Longrightarrow>
    qsys_step moved s (s\<lparr>qs_queue := q', qs_pcs := (qs_pcs s)(i \<mapsto> pc'),
      qs_log := log_step pc pc' (qs_log s), qs_taken := taken_step pc pc' (qs_taken s)\<rparr>)"
| return: "qs_pcs s i = Some pc \<Longrightarrow> returned pc \<Longrightarrow>
    qsys_step moved s (s\<lparr>qs_pcs := (qs_pcs s)(i := None)\<rparr>)"

inductive qsys_reach :: "('a \<Rightarrow> 'a) \<Rightarrow> 'a \<Rightarrow> u64 \<Rightarrow> nat \<Rightarrow> 'a QSystem \<Rightarrow> bool" for moved dflt capacity where
  init: "qsys_reach moved dflt capacity 0
    \<lparr>qs_queue = new_queue dflt capacity, qs_pcs = (\<lambda>_. None), qs_log = [], qs_taken = []\<rparr>"
| step: "qsys_reach moved dflt capacity n s \<Longrightarrow> qsys_step moved s s' \<Longrightarrow>
    qsys_reach moved dflt capacity (Suc n) s'"

section \<open>Positions and cells\<close>

abbreviation enq :: "'a MpmcQueue \<Rightarrow> nat" where "enq q \<equiv> unat (enqueue_pos q)"
abbreviation deq :: "'a MpmcQueue \<Rightarrow> nat" where "deq q \<equiv> unat (dequeue_pos q)"
abbreviation cap :: "'a MpmcQueue \<Rightarrow> nat" where "cap q \<equiv> unat (q_capacity q)"

definition seqn :: "'a MpmcQueue \<Rightarrow> nat \<Rightarrow> nat" where
  "seqn q c = unat (sequence (q_cells q ! c))"

definition valn :: "'a MpmcQueue \<Rightarrow> nat \<Rightarrow> 'a" where
  "valn q c = cell_value (q_cells q ! c)"

text \<open>The shape the constructor gives the ring, and counters far from the end of their range.\<close>

definition ring_ok :: "'a MpmcQueue \<Rightarrow> bool" where
  "ring_ok q \<longleftrightarrow> (\<exists>k. 1 \<le> k \<and> k < 63 \<and> q_capacity q = 2 ^ k) \<and> q_mask q = q_capacity q - 1 \<and>
     length (q_cells q) = cap q \<and> enq q + cap q < 2 ^ 63 \<and> deq q \<le> enq q"

text \<open>The cell of position \<open>p\<close> is free on the lap of \<open>p\<close>, or holds the item of \<open>p\<close>.\<close>

definition free_at :: "'a MpmcQueue \<Rightarrow> nat \<Rightarrow> bool" where
  "free_at q p \<longleftrightarrow> seqn q (p mod cap q) = p"

definition full_at :: "'a MpmcQueue \<Rightarrow> nat \<Rightarrow> bool" where
  "full_at q p \<longleftrightarrow> seqn q (p mod cap q) = Suc p"

lemma unat_power2: "k < 64 \<Longrightarrow> unat (2 ^ k :: u64) = 2 ^ k"
proof -
  assume "k < 64"
  then have "unat (of_nat (2 ^ k) :: u64) = 2 ^ k"
    using power_strict_increasing [of k 64 "2 :: nat"] by (simp only: unat_of_nat) simp
  then show ?thesis by simp
qed

lemma ring_cap:
  assumes "ring_ok q"
  shows "2 \<le> cap q" "cap q < 2 ^ 63"
proof -
  obtain k where k: "1 \<le> k" "k < 63" "q_capacity q = 2 ^ k" using assms by (auto simp: ring_ok_def)
  then have "cap q = 2 ^ k" by (simp add: unat_power2)
  moreover have "(2 :: nat) ^ 1 \<le> 2 ^ k" using k(1) by (intro power_increasing) simp_all
  moreover have "(2 :: nat) ^ k < 2 ^ 63" using k(2) by (intro power_strict_increasing) simp_all
  ultimately show "2 \<le> cap q" "cap q < 2 ^ 63" by simp_all
qed

lemma cell_index_mod: "ring_ok q \<Longrightarrow> cell_index q pos = unat pos mod cap q"
proof -
  assume "ring_ok q"
  then obtain k where k: "k < 63" "q_capacity q = 2 ^ k" "q_mask q = 2 ^ k - 1" by (auto simp: ring_ok_def)
  have "pos AND q_mask q = take_bit k pos" by (simp add: k(3) take_bit_eq_mask mask_eq_exp_minus_1)
  then have "cell_index q pos = take_bit k (unat pos)" by (simp add: cell_index_def unsigned_take_bit_eq)
  then show ?thesis using k by (simp add: take_bit_eq_mod unat_power2)
qed

lemma mod_eq_between:
  assumes "p mod c = p' mod c" "p \<le> p'" "p' < p + (c :: nat)"
  shows "p = p'"
proof -
  have "c dvd p' - p" using assms(2) assms(1) [symmetric] by (simp add: mod_eq_dvd_iff_nat)
  moreover have "p' - p < c" using assms(2,3) by simp
  ultimately have "p' - p = 0" using dvd_imp_le [of c "p' - p"] by linarith
  then show ?thesis using assms(2) by simp
qed

lemma Suc_mod_neq: "2 \<le> c \<Longrightarrow> Suc p mod c \<noteq> p mod c"
  using mod_eq_between [of p c "Suc p"] by force

lemma cell_update_simps [simp]:
  "enqueue_pos (cell_update pos f q) = enqueue_pos q" "dequeue_pos (cell_update pos f q) = dequeue_pos q"
  "q_capacity (cell_update pos f q) = q_capacity q" "q_mask (cell_update pos f q) = q_mask q"
  "length (q_cells (cell_update pos f q)) = length (q_cells q)"
  "ring_ok (cell_update pos f q) = ring_ok q"
  by (simp_all add: cell_update_def ring_ok_def)

lemma counter_update_simps [simp]:
  "valn (q\<lparr>enqueue_pos := x\<rparr>) c = valn q c" "valn (q\<lparr>dequeue_pos := y\<rparr>) c = valn q c"
  "free_at (q\<lparr>enqueue_pos := x\<rparr>) p = free_at q p" "full_at (q\<lparr>enqueue_pos := x\<rparr>) p = full_at q p"
  "free_at (q\<lparr>dequeue_pos := y\<rparr>) p = free_at q p" "full_at (q\<lparr>dequeue_pos := y\<rparr>) p = full_at q p"
  by (simp_all add: seqn_def valn_def free_at_def full_at_def)

lemma cell_update_nth:
  assumes "ring_ok q"
  shows "seqn (cell_update pos f q) (p mod cap q) =
      (if p mod cap q = unat pos mod cap q then unat (sequence (f (q_cells q ! (p mod cap q)))) else seqn q (p mod cap q))"
    and "valn (cell_update pos f q) (p mod cap q) =
      (if p mod cap q = unat pos mod cap q then cell_value (f (q_cells q ! (p mod cap q))) else valn q (p mod cap q))"
proof -
  have "p mod cap q < length (q_cells q)"
    using assms ring_cap(1) [OF assms] by (simp add: ring_ok_def)
  then show "seqn (cell_update pos f q) (p mod cap q) =
      (if p mod cap q = unat pos mod cap q then unat (sequence (f (q_cells q ! (p mod cap q)))) else seqn q (p mod cap q))"
    "valn (cell_update pos f q) (p mod cap q) =
      (if p mod cap q = unat pos mod cap q then cell_value (f (q_cells q ! (p mod cap q))) else valn q (p mod cap q))"
    by (auto simp: seqn_def valn_def cell_update_def cell_index_mod [OF assms] nth_list_update)
qed

text \<open>What the two kinds of store do to the cells.\<close>

lemma value_store:
  assumes "ring_ok q"
  shows "free_at (cell_update pos (\<lambda>c. c\<lparr>cell_value := g c\<rparr>) q) p = free_at q p"
    and "full_at (cell_update pos (\<lambda>c. c\<lparr>cell_value := g c\<rparr>) q) p = full_at q p"
    and "valn (cell_update pos (\<lambda>c. c\<lparr>cell_value := g c\<rparr>) q) (p mod cap q) =
      (if p mod cap q = unat pos mod cap q then g (q_cells q ! (p mod cap q)) else valn q (p mod cap q))"
  by (simp_all add: free_at_def full_at_def cell_update_nth [OF assms]) (simp_all add: seqn_def)

lemma sequence_store:
  assumes "ring_ok q"
  shows "free_at (cell_update pos (\<lambda>c. c\<lparr>sequence := x\<rparr>) q) p =
      (if p mod cap q = unat pos mod cap q then unat x = p else free_at q p)"
    and "full_at (cell_update pos (\<lambda>c. c\<lparr>sequence := x\<rparr>) q) p =
      (if p mod cap q = unat pos mod cap q then unat x = Suc p else full_at q p)"
    and "valn (cell_update pos (\<lambda>c. c\<lparr>sequence := x\<rparr>) q) (p mod cap q) = valn q (p mod cap q)"
  by (simp_all add: free_at_def full_at_def cell_update_nth [OF assms]) (simp_all add: valn_def)

lemma unat_pos_plus:
  assumes "unat pos + unat d < 2 ^ 63"
  shows "unat (pos + d :: u64) = unat pos + unat d"
  using assms by (subst unat_add_lem [THEN iffD1]) simp_all

lemma unat_Suc_pos: "unat pos < 2 ^ 63 - 1 \<Longrightarrow> unat (pos + 1 :: u64) = Suc (unat pos)"
  using unat_pos_plus [of pos 1] by simp

lemma sint_unat: "unat x < 2 ^ 63 \<Longrightarrow> sint (x :: u64) = int (unat x)"
proof -
  assume "unat x < 2 ^ 63"
  then have "int (unat x) < int (2 ^ 63)" by (simp only: of_nat_less_iff)
  then have "int (unat x) < 2 ^ 63" by (simp only: of_nat_power of_nat_numeral)
  then have "uint x < 2 ^ 63" by (simp only: uint_nat)
  moreover have "0 \<le> uint x" by simp
  ultimately have "signed_take_bit 63 (uint x) = uint x" by (intro signed_take_bit_int_eq_self) linarith+
  then show ?thesis by (simp add: sint_uint)
qed

section \<open>Invariant\<close>

definition queue_inv :: "'a list \<Rightarrow> 'a MpmcQueue \<Rightarrow> bool" where
  "queue_inv l q \<longleftrightarrow> ring_ok q \<and> length l = enq q \<and>
     (\<forall>x. \<exists>p. p mod cap q = x mod cap q \<and> (free_at q p \<or> full_at q p)) \<and>
     (\<forall>p. free_at q p \<longrightarrow> deq q \<le> p \<and> enq q \<le> p + cap q \<and> p < enq q + cap q) \<and>
     (\<forall>p. full_at q p \<longrightarrow> p < enq q \<and> enq q \<le> p + cap q \<and>
        (deq q \<le> p \<longrightarrow> valn q (p mod cap q) = l ! p)) \<and>
     (\<forall>p. deq q \<le> p \<longrightarrow> p < enq q \<longrightarrow> free_at q p \<or> full_at q p)"

fun qpc_inv :: "'a list \<Rightarrow> 'a MpmcQueue \<Rightarrow> 'a qpc \<Rightarrow> bool" where
  "qpc_inv l q (PushCheck v pos) = (unat pos \<le> enq q)"
| "qpc_inv l q (PushCas v pos) = (unat pos \<le> enq q \<and> (unat pos = enq q \<longrightarrow> free_at q (unat pos)))"
| "qpc_inv l q (PushWrite v pos) = (unat pos < enq q \<and> free_at q (unat pos) \<and> l ! unat pos = v)"
| "qpc_inv l q (PushPublish pos) = (unat pos < enq q \<and> free_at q (unat pos) \<and>
     valn q (unat pos mod cap q) = l ! unat pos)"
| "qpc_inv l q (PopCheck pos) = (unat pos \<le> deq q)"
| "qpc_inv l q (PopCas pos) = (unat pos \<le> deq q \<and> (unat pos = deq q \<longrightarrow> full_at q (unat pos)))"
| "qpc_inv l q (PopRead pos) = (unat pos < deq q \<and> full_at q (unat pos) \<and>
     valn q (unat pos mod cap q) = l ! unat pos)"
| "qpc_inv l q (PopRelease v pos) = (unat pos < deq q \<and> full_at q (unat pos) \<and> v = l ! unat pos)"
| "qpc_inv l q _ = True"

text \<open>The position whose cell a thread owns, as a producer or as a consumer.\<close>

fun push_owner :: "'a qpc \<Rightarrow> nat option" where
  "push_owner (PushWrite v pos) = Some (unat pos)"
| "push_owner (PushPublish pos) = Some (unat pos)"
| "push_owner _ = None"

fun pop_owner :: "'a qpc \<Rightarrow> nat option" where
  "pop_owner (PopRead pos) = Some (unat pos)"
| "pop_owner (PopRelease v pos) = Some (unat pos)"
| "pop_owner _ = None"

lemma queue_invD:
  assumes "queue_inv l q"
  shows "ring_ok q" "length l = enq q" "2 \<le> cap q" "enq q + cap q < 2 ^ 63" "deq q \<le> enq q"
    and "\<And>p. free_at q p \<Longrightarrow> deq q \<le> p \<and> enq q \<le> p + cap q \<and> p < enq q + cap q"
    and "\<And>p. full_at q p \<Longrightarrow> p < enq q \<and> enq q \<le> p + cap q"
    and "\<And>p. full_at q p \<Longrightarrow> deq q \<le> p \<Longrightarrow> valn q (p mod cap q) = l ! p"
    and "\<And>x. \<exists>p. p mod cap q = x mod cap q \<and> (free_at q p \<or> full_at q p)"
    and "\<And>p. deq q \<le> p \<Longrightarrow> p < enq q \<Longrightarrow> free_at q p \<or> full_at q p"
    and "enq q \<le> deq q + cap q"
proof -
  show r: "ring_ok q" using assms by (simp add: queue_inv_def)
  show c: "2 \<le> cap q" using ring_cap(1) [OF r] .
  show "\<exists>p. p mod cap q = x mod cap q \<and> (free_at q p \<or> full_at q p)" for x
    using assms c by (auto simp: queue_inv_def)
  show "enq q \<le> deq q + cap q"
  proof (cases "deq q < enq q")
    case True
    then have "free_at q (deq q) \<or> full_at q (deq q)" using assms by (simp add: queue_inv_def)
    then show ?thesis using assms by (auto simp: queue_inv_def)
  qed simp
qed (use assms in \<open>auto simp: queue_inv_def ring_ok_def\<close>)

text \<open>Two positions that share a cell and its sequence number are the same.\<close>

lemma same_cell:
  assumes "2 \<le> cap q" "p mod cap q = p' mod cap q"
  shows "free_at q p \<Longrightarrow> free_at q p' \<Longrightarrow> p = p'" "full_at q p \<Longrightarrow> full_at q p' \<Longrightarrow> p = p'"
    and "free_at q p \<Longrightarrow> \<not> full_at q p'"
proof -
  have "seqn q (p mod cap q) = seqn q (p' mod cap q)" using assms(2) by simp
  then show "free_at q p \<Longrightarrow> free_at q p' \<Longrightarrow> p = p'" "full_at q p \<Longrightarrow> full_at q p' \<Longrightarrow> p = p'"
    "free_at q p \<Longrightarrow> \<not> full_at q p'"
    using assms Suc_mod_neq [of "cap q" p'] by (auto simp: free_at_def full_at_def)
qed

lemma queue_invI:
  assumes "ring_ok q" "length l = enq q"
    and "\<And>x. \<exists>p. p mod cap q = x mod cap q \<and> (free_at q p \<or> full_at q p)"
    and "\<And>p. free_at q p \<Longrightarrow> deq q \<le> p \<and> enq q \<le> p + cap q \<and> p < enq q + cap q"
    and "\<And>p. full_at q p \<Longrightarrow> p < enq q \<and> enq q \<le> p + cap q"
    and "\<And>p. full_at q p \<Longrightarrow> deq q \<le> p \<Longrightarrow> valn q (p mod cap q) = l ! p"
    and "\<And>p. deq q \<le> p \<Longrightarrow> p < enq q \<Longrightarrow> free_at q p \<or> full_at q p"
  shows "queue_inv l q"
  using assms by (simp add: queue_inv_def)

lemma claim_push_inv:
  assumes inv: "queue_inv l q" and bound: "Suc (enq q) + cap q < 2 ^ 63" and free: "free_at q (enq q)"
  shows "queue_inv (l @ [v]) (q\<lparr>enqueue_pos := enqueue_pos q + 1\<rparr>)"
proof -
  note d = queue_invD [OF inv]
  have e: "unat (enqueue_pos q + 1) = Suc (enq q)" using bound by (intro unat_Suc_pos) simp
  have wide: "Suc (enq q) \<le> p + cap q" if "free_at q p \<or> full_at q p" for p
  proof (rule ccontr)
    assume "\<not> ?thesis"
    with that d(6,7) [of p] have "enq q = p + cap q" by auto
    then have "p mod cap q = enq q mod cap q" by simp
    with that free have "p = enq q" using same_cell(1) [OF d(3)] same_cell(3) [OF d(3), of "enq q" p] by metis
    with \<open>enq q = p + cap q\<close> d(3) show False by simp
  qed
  have "(l @ [v]) ! p = l ! p" if "full_at q p" for p using d(7) [OF that] d(2) by (simp add: nth_append)
  moreover have "ring_ok (q\<lparr>enqueue_pos := enqueue_pos q + 1\<rparr>)" using d(1,5) bound e by (auto simp: ring_ok_def)
  moreover have "free_at q p \<or> full_at q p" if "deq q \<le> p" "p < Suc (enq q)" for p
    using d(10) [of p] free that by (cases "p = enq q") simp_all
  moreover have "deq q \<le> p \<and> Suc (enq q) \<le> p + cap q \<and> p < Suc (enq q) + cap q" if "free_at q p" for p
    using d(6) [OF that] wide that by auto
  moreover have "p < Suc (enq q) \<and> Suc (enq q) \<le> p + cap q" if "full_at q p" for p
    using d(7) [OF that] wide that by auto
  ultimately show ?thesis
    using d(2,8,9) e by (intro queue_invI) simp_all
qed

lemma claim_pop_inv:
  assumes inv: "queue_inv l q" and full: "full_at q (deq q)"
  shows "queue_inv l (q\<lparr>dequeue_pos := dequeue_pos q + 1\<rparr>)"
proof -
  note d = queue_invD [OF inv]
  have less: "deq q < enq q" using d(7) [OF full] by simp
  then have e: "unat (dequeue_pos q + 1) = Suc (deq q)" using d(4) by (intro unat_Suc_pos) simp
  have "Suc (deq q) \<le> p" if "free_at q p" for p
    using d(6) [OF that] full that same_cell(3) [OF d(3) refl that] by (metis le_antisym not_less_eq_eq)
  moreover have "ring_ok (q\<lparr>dequeue_pos := dequeue_pos q + 1\<rparr>)" using d(1) less e by (auto simp: ring_ok_def)
  moreover have "Suc (deq q) \<le> p \<and> enq q \<le> p + cap q \<and> p < enq q + cap q" if "free_at q p" for p
    using d(6) [OF that] calculation(1) [OF that] by simp
  ultimately show ?thesis using d(2,7-10) e by (intro queue_invI) simp_all
qed

lemma value_store_inv:
  assumes inv: "queue_inv l q" and unread: "\<not> full_at q (unat pos) \<or> unat pos < deq q"
    and here: "free_at q (unat pos) \<or> full_at q (unat pos)"
  shows "queue_inv l (cell_update pos (\<lambda>c. c\<lparr>cell_value := g c\<rparr>) q)"
proof -
  note d = queue_invD [OF inv] and st = value_store [OF queue_invD(1) [OF inv], of pos g]
  have "p mod cap q \<noteq> unat pos mod cap q" if "full_at q p" "deq q \<le> p" for p
    using that unread here same_cell(2,3) [OF d(3), of p "unat pos"] same_cell(3) [OF d(3), of "unat pos" p] by (metis not_le)
  with d st show ?thesis by (intro queue_invI) auto
qed

lemma publish_inv:
  assumes inv: "queue_inv l q" and pos: "unat pos < enq q" "free_at q (unat pos)"
    and val: "valn q (unat pos mod cap q) = l ! unat pos"
  shows "queue_inv l (cell_update pos (\<lambda>c. c\<lparr>sequence := pos + 1\<rparr>) q)"
proof -
  let ?q' = "cell_update pos (\<lambda>c. c\<lparr>sequence := pos + 1\<rparr>) q"
  note d = queue_invD [OF inv] and st = sequence_store [OF queue_invD(1) [OF inv], of pos "pos + 1"]
  have e: "unat (pos + 1) = Suc (unat pos)" using d(4) pos(1) by (intro unat_Suc_pos) simp
  have no: "p mod cap q \<noteq> unat pos mod cap q" if "p = Suc (unat pos)" for p
    using that Suc_mod_neq [OF d(3), of "unat pos"] by metis
  have ex: "\<exists>p. p mod cap q = x mod cap q \<and> (free_at ?q' p \<or>
      full_at ?q' p)" for x
  proof (cases "x mod cap q = unat pos mod cap q")
    case True
    then show ?thesis by (intro exI [of _ "unat pos"]) (simp add: st e)
  next
    case False
    obtain p where "p mod cap q = x mod cap q" "free_at q p \<or> full_at q p" using d(9) [of x] by blast
    with False show ?thesis by (intro exI [of _ p]) (simp add: st)
  qed
  show ?thesis
  proof (intro queue_invI)
    fix p assume "full_at ?q' p"
    then have p: "p = unat pos \<or> full_at q p" using st(2) e by (auto split: if_splits)
    then show "p < enq ?q' \<and>
      enq ?q' \<le> p + cap ?q'"
      using d(6) [OF pos(2)] d(7) [of p] pos(1) by auto
    show "valn ?q' (p mod cap ?q') = l ! p"
      if "deq ?q' \<le> p"
      using that p val d(8) [of p] by (auto simp: st(3))
  next
    fix p assume "deq ?q' \<le> p" "p < enq ?q'"
    then have p: "free_at q p \<or> full_at q p" using d(10) by simp
    then have "p mod cap q = unat pos mod cap q \<Longrightarrow> p = unat pos"
      using same_cell(1) [OF d(3) _ _ pos(2)] same_cell(3) [OF d(3) _ pos(2)] by metis
    then show "free_at ?q' p \<or> full_at ?q' p" using p by (auto simp: st e)
  qed (use d ex no in \<open>auto simp: st e split: if_splits\<close>)
qed

lemma release_inv:
  assumes inv: "queue_inv l q" and pos: "unat pos < deq q" "full_at q (unat pos)"
  shows "queue_inv l (cell_update pos (\<lambda>c. c\<lparr>sequence := pos + q_capacity q\<rparr>) q)"
proof -
  let ?q' = "cell_update pos (\<lambda>c. c\<lparr>sequence := pos + q_capacity q\<rparr>) q"
  note d = queue_invD [OF inv] and st = sequence_store [OF queue_invD(1) [OF inv], of pos "pos + q_capacity q"]
  have e: "unat (pos + q_capacity q) = unat pos + cap q"
    using d(4,7) pos(2) by (intro unat_pos_plus) (meson add_less_mono1 less_trans)
  have no: "p mod cap q \<noteq> unat pos mod cap q" if "unat pos + cap q = Suc p" for p
    using Suc_mod_neq [OF d(3), of p] unfolding that [symmetric] by simp
  have ex: "\<exists>p. p mod cap q = x mod cap q \<and> (free_at ?q' p \<or>
      full_at ?q' p)" for x
  proof (cases "x mod cap q = unat pos mod cap q")
    case True
    then show ?thesis by (intro exI [of _ "unat pos + cap q"]) (simp add: st e)
  next
    case False
    obtain p where "p mod cap q = x mod cap q" "free_at q p \<or> full_at q p" using d(9) [of x] by blast
    with False show ?thesis by (intro exI [of _ p]) (simp add: st)
  qed
  show ?thesis
  proof (intro queue_invI)
    fix p assume "free_at ?q' p"
    then have "p = unat pos + cap q \<or> free_at q p" using st(1) e by (auto split: if_splits)
    then show "deq ?q' \<le> p \<and>
      enq ?q' \<le> p + cap ?q' \<and>
      p < enq ?q' + cap ?q'"
      using d(5) d(6) [of p] d(7) [OF pos(2)] by auto
  next
    fix p assume "deq ?q' \<le> p" "p < enq ?q'"
    then have p: "free_at q p \<or> full_at q p" "p \<noteq> unat pos" using d(10) pos(1) by simp_all
    then have "p mod cap q \<noteq> unat pos mod cap q"
      using same_cell(2) [OF d(3) _ _ pos(2)] same_cell(3) [OF d(3), of p "unat pos"] pos(2) by metis
    then show "free_at ?q' p \<or> full_at ?q' p" using p by (auto simp: st)
  qed (use d ex no in \<open>auto simp: st e split: if_splits\<close>)
qed

section \<open>One step of one thread\<close>

text \<open>The position whose cell the next steps of a thread rely on.\<close>

fun watched :: "'a MpmcQueue \<Rightarrow> 'a qpc \<Rightarrow> nat option" where
  "watched q (PushCas v pos) = (if unat pos = enq q then Some (unat pos) else None)"
| "watched q (PopCas pos) = (if unat pos = deq q then Some (unat pos) else None)"
| "watched q (PushWrite v pos) = Some (unat pos)"
| "watched q (PushPublish pos) = Some (unat pos)"
| "watched q (PopRead pos) = Some (unat pos)"
| "watched q (PopRelease v pos) = Some (unat pos)"
| "watched q _ = None"

lemma owner_cell:
  assumes "qpc_inv l q pc"
  shows "push_owner pc = Some p \<Longrightarrow> free_at q p \<and> p < enq q" "pop_owner pc = Some p \<Longrightarrow> full_at q p \<and> p < deq q"
  using assms by (cases pc; auto)+

lemma watched_cell:
  assumes "qpc_inv l q pc" "watched q pc = Some p"
  shows "free_at q p \<and> (p = enq q \<or> push_owner pc = Some p) \<or> full_at q p \<and> (p = deq q \<or> pop_owner pc = Some p)"
  using assms by (cases pc) (auto split: if_splits)

lemma owner_apart:
  assumes "2 \<le> cap q" "qpc_inv l q pc" "qpc_inv l q pc2" "watched q pc2 = Some p2"
    and "push_owner pc = Some p \<or> pop_owner pc = Some p"
    and "push_owner pc2 = Some p \<Longrightarrow> push_owner pc \<noteq> Some p" "pop_owner pc2 = Some p \<Longrightarrow> pop_owner pc \<noteq> Some p"
  shows "p2 mod cap q \<noteq> p mod cap q"
proof
  assume eq: "p2 mod cap q = p mod cap q"
  from assms(5) show False
  proof
    assume own: "push_owner pc = Some p"
    then have p: "free_at q p" "p < enq q" using owner_cell(1) [OF assms(2)] by simp_all
    with watched_cell [OF assms(3,4)] same_cell(3) [OF assms(1) eq [symmetric]] same_cell(1) [OF assms(1) eq] assms(6) own
    show False by auto
  next
    assume own: "pop_owner pc = Some p"
    then have p: "full_at q p" "p < deq q" using owner_cell(2) [OF assms(2)] by simp_all
    with watched_cell [OF assms(3,4)] same_cell(3) [OF assms(1) eq] same_cell(2) [OF assms(1) eq] assms(7) own
    show False by auto
  qed
qed

lemma store_other:
  assumes "ring_ok q" "qpc_inv l q pc" "\<And>p. watched q pc = Some p \<Longrightarrow> p mod cap q \<noteq> unat pos mod cap q"
  shows "qpc_inv l (cell_update pos (\<lambda>c. c\<lparr>cell_value := g c\<rparr>) q) pc"
    and "qpc_inv l (cell_update pos (\<lambda>c. c\<lparr>sequence := x\<rparr>) q) pc"
  using assms(2,3)
  by (cases pc; auto simp: value_store [OF assms(1)] sequence_store [OF assms(1)] split: if_splits)+

lemma claim_other:
  assumes "queue_inv l q" "qpc_inv l q pc"
  shows "unat (enqueue_pos q + 1) = Suc (enq q) \<Longrightarrow> qpc_inv (l @ [v]) (q\<lparr>enqueue_pos := enqueue_pos q + 1\<rparr>) pc"
    and "unat (dequeue_pos q + 1) = Suc (deq q) \<Longrightarrow> qpc_inv l (q\<lparr>dequeue_pos := dequeue_pos q + 1\<rparr>) pc"
  using queue_invD(2,5) [OF assms(1)] assms(2) by (cases pc; auto simp: nth_append)+

lemma seq_diff:
  assumes "queue_inv l q" "unat (x :: u64) < 2 ^ 63"
  shows "sint (sequence (cell_at q pos)) - sint x = 0 \<longleftrightarrow> seqn q (unat pos mod cap q) = unat x"
    and "sint (sequence (cell_at q pos)) - sint x < 0 \<longleftrightarrow> seqn q (unat pos mod cap q) < unat x"
proof -
  note d = queue_invD [OF assms(1)]
  obtain p where "p mod cap q = unat pos mod cap q" "free_at q p \<or> full_at q p" using d(9) [of "unat pos"] by blast
  then have "seqn q (unat pos mod cap q) = p \<or> seqn q (unat pos mod cap q) = Suc p" "p < enq q + cap q"
    using d(6,7) [of p] by (auto simp: free_at_def full_at_def)
  then have "seqn q (unat pos mod cap q) < 2 ^ 63" using d(4) by auto
  then have "sint (sequence (cell_at q pos)) - sint x = int (seqn q (unat pos mod cap q)) - int (unat x)"
    unfolding seqn_def cell_at_def cell_index_mod [OF d(1)] by (simp only: sint_unat [OF assms(2)] sint_unat)
  then show "sint (sequence (cell_at q pos)) - sint x = 0 \<longleftrightarrow> seqn q (unat pos mod cap q) = unat x"
    "sint (sequence (cell_at q pos)) - sint x < 0 \<longleftrightarrow> seqn q (unat pos mod cap q) < unat x"
    by linarith+
qed

text \<open>The thread's own invariant, and the queue's, after one of its steps.\<close>

lemma qstep_inv:
  assumes inv: "queue_inv l q" and bound: "Suc (enq q) + cap q < 2 ^ 63" and pc: "qpc_inv l q pc"
    and step: "qstep moved sp q pc = (q', pc')"
  shows "queue_inv (log_step pc pc' l) q' \<and> qpc_inv (log_step pc pc' l) q' pc'"
proof -
  note d = queue_invD [OF inv]
  have small: "unat pos < 2 ^ 63" "unat (pos + 1) = Suc (unat pos)" "unat (pos + 1) < 2 ^ 63"
    if "unat pos \<le> enq q" for pos :: u64
  proof -
    show "unat pos < 2 ^ 63" using that bound by simp
    show e: "unat (pos + 1) = Suc (unat pos)" using that bound by (intro unat_Suc_pos) simp
    then show "unat (pos + 1) < 2 ^ 63" using that bound by simp
  qed
  show ?thesis
  proof (cases pc)
    case (PushCheck v pos)
    then have "unat pos \<le> enq q" using pc by simp
    with PushCheck show ?thesis using inv pc step
      by (auto simp only: qstep.simps Let_def seq_diff [OF inv small(1)] prod.inject qpc_inv.simps log_step.simps
          free_at_def split: if_splits)
  next
    case (PopCheck pos)
    then have "unat pos \<le> enq q" using pc d(5) by simp
    with PopCheck show ?thesis using inv pc step
      by (auto simp only: qstep.simps Let_def seq_diff [OF inv small(3)] prod.inject qpc_inv.simps log_step.simps
          full_at_def small(2) split: if_splits)
  next
    case (PushCas v pos)
    then show ?thesis
      using inv pc step d(2) claim_push_inv [OF inv bound, of v] small(2) [of "enqueue_pos q"]
      by (auto simp: nth_append split: if_splits)
  next
    case (PopCas pos)
    then show ?thesis
      using inv pc step claim_pop_inv [OF inv] small(2) [of "dequeue_pos q"] d(5) d(7,8) [of "deq q"]
      by (auto split: if_splits)
  next
    case (PushWrite v pos)
    then have "\<not> full_at q (unat pos)" using pc same_cell(3) [OF d(3) refl] by auto
    with PushWrite show ?thesis
      using pc step value_store_inv [OF inv, of pos] value_store [OF d(1), of pos] by auto
  next
    case (PopRead pos)
    then show ?thesis
      using pc step value_store_inv [OF inv, of pos] value_store [OF d(1), of pos]
      by (auto simp: cell_at_def cell_index_mod [OF d(1)] valn_def)
  next
    case (PushPublish pos)
    then show ?thesis using pc step publish_inv [OF inv, of pos] by auto
  next
    case (PopRelease v pos)
    then show ?thesis using pc step release_inv [OF inv, of pos] by auto
  qed (use inv step d(5) in auto)
qed

lemma qstep_other:
  assumes inv: "queue_inv l q" and bound: "Suc (enq q) + cap q < 2 ^ 63"
    and pc: "qpc_inv l q pc" "qpc_inv l q pc2" and step: "qstep moved sp q pc = (q', pc')"
    and own: "\<And>p. push_owner pc2 = Some p \<Longrightarrow> push_owner pc \<noteq> Some p" "\<And>p. pop_owner pc2 = Some p \<Longrightarrow> pop_owner pc \<noteq> Some p"
  shows "qpc_inv (log_step pc pc' l) q' pc2"
proof -
  note d = queue_invD [OF inv]
  have apart: "p mod cap q \<noteq> unat pos mod cap q"
    if "watched q pc2 = Some p" "push_owner pc = Some (unat pos) \<or> pop_owner pc = Some (unat pos)" for p pos
    using owner_apart [OF d(3) pc that(1,2)] own by blast
  show ?thesis
  proof (cases pc)
    case (PushCas v pos)
    then show ?thesis
      using pc step claim_other(1) [OF inv pc(2), of v] unat_Suc_pos [of "enqueue_pos q"] bound by (auto split: if_splits)
  next
    case (PopCas pos)
    then show ?thesis
      using pc step claim_other(2) [OF inv pc(2)] unat_Suc_pos [of "dequeue_pos q"] bound d(5) by (auto split: if_splits)
  next
    case (PushWrite v pos)
    then show ?thesis using step store_other(1) [OF d(1) pc(2) apart, of pos] by auto
  next
    case (PopRead pos)
    then show ?thesis using step store_other(1) [OF d(1) pc(2) apart, of pos] by auto
  next
    case (PushPublish pos)
    then show ?thesis using step store_other(2) [OF d(1) pc(2) apart, of pos] by auto
  next
    case (PopRelease v pos)
    then show ?thesis using step store_other(2) [OF d(1) pc(2) apart, of pos] by auto
  qed (use pc step in \<open>auto simp: Let_def\<close>)
qed

text \<open>How a step changes who owns what.\<close>

fun reading :: "'a qpc \<Rightarrow> nat option" where
  "reading (PopRead pos) = Some (unat pos)"
| "reading _ = None"

lemma new_owner:
  assumes "qstep moved sp q pc = (q', pc')"
  shows "push_owner pc' = Some p \<Longrightarrow> push_owner pc = Some p \<or> p = enq q"
    and "pop_owner pc' = Some p \<Longrightarrow> pop_owner pc = Some p \<or> p = deq q"
  using assms by (cases pc; auto simp: Let_def split: if_splits)+

lemma free_has_owner:
  assumes inv: "queue_inv l q" "Suc (enq q) + cap q < 2 ^ 63" "qpc_inv l q pc"
    and step: "qstep moved sp q pc = (q', pc')" and free: "free_at q' p" "p < enq q'"
  shows "push_owner pc' = Some p \<or> (free_at q p \<and> p < enq q \<and> push_owner pc \<noteq> Some p)"
proof -
  note d = queue_invD [OF inv(1)]
  show ?thesis
  proof (cases pc)
    case (PushCas v pos)
    then show ?thesis
      using step free unat_Suc_pos [of "enqueue_pos q"] inv(2) by (auto simp: less_Suc_eq split: if_splits)
  next
    case (PushPublish pos)
    then have "unat (pos + 1) = Suc (unat pos)" using inv(2,3) by (intro unat_Suc_pos) simp
    then show ?thesis
      using PushPublish step free Suc_mod_neq [OF d(3), of "unat pos"] by (auto simp: sequence_store [OF d(1)] split: if_splits)
  next
    case (PopRelease v pos)
    then have "unat (pos + q_capacity q) = unat pos + cap q" "enq q \<le> unat pos + cap q"
      using d(4) d(7) [of "unat pos"] inv(3) by (auto intro!: unat_pos_plus)
    then show ?thesis
      using PopRelease step free by (auto simp: sequence_store [OF d(1)] split: if_splits)
  qed (use step free in \<open>auto simp: Let_def value_store [OF d(1)] split: if_splits\<close>)
qed

lemma full_has_owner:
  assumes inv: "queue_inv l q" "Suc (enq q) + cap q < 2 ^ 63" "qpc_inv l q pc"
    and step: "qstep moved sp q pc = (q', pc')" and full: "full_at q' p" "p < deq q'"
  shows "pop_owner pc' = Some p \<or> (full_at q p \<and> p < deq q \<and> pop_owner pc \<noteq> Some p)"
proof -
  note d = queue_invD [OF inv(1)]
  show ?thesis
  proof (cases pc)
    case (PopCas pos)
    then show ?thesis
      using step full unat_Suc_pos [of "dequeue_pos q"] inv(2) d(5) by (auto simp: less_Suc_eq split: if_splits)
  next
    case (PushPublish pos)
    then have "unat (pos + 1) = Suc (unat pos)" "deq q \<le> unat pos"
      using inv(2,3) d(6) [of "unat pos"] by (auto intro!: unat_Suc_pos)
    then show ?thesis
      using PushPublish step full by (auto simp: sequence_store [OF d(1)] split: if_splits)
  next
    case (PopRelease v pos)
    then have "unat (pos + q_capacity q) = unat pos + cap q"
      using d(4) d(7) [of "unat pos"] inv(3) by (auto intro!: unat_pos_plus)
    then show ?thesis
      using PopRelease step full Suc_mod_neq [OF d(3), of p] by (auto simp: sequence_store [OF d(1)] split: if_splits)
  qed (use step full in \<open>auto simp: Let_def value_store [OF d(1)] split: if_splits\<close>)
qed

section \<open>All threads together\<close>

definition holds :: "('a qpc \<Rightarrow> nat option) \<Rightarrow> (nat \<Rightarrow> 'a qpc option) \<Rightarrow> nat \<Rightarrow> nat \<Rightarrow> bool" where
  "holds f pcs i p \<longleftrightarrow> (\<exists>pc. pcs i = Some pc \<and> f pc = Some p)"

definition threads_inv :: "'a QSystem \<Rightarrow> bool" where
  "threads_inv s \<longleftrightarrow>
     (\<forall>i pc. qs_pcs s i = Some pc \<longrightarrow> qpc_inv (qs_log s) (qs_queue s) pc) \<and>
     (\<forall>i j p. holds push_owner (qs_pcs s) i p \<longrightarrow> holds push_owner (qs_pcs s) j p \<longrightarrow> i = j) \<and>
     (\<forall>i j p. holds pop_owner (qs_pcs s) i p \<longrightarrow> holds pop_owner (qs_pcs s) j p \<longrightarrow> i = j) \<and>
     (\<forall>p. free_at (qs_queue s) p \<longrightarrow> p < enq (qs_queue s) \<longrightarrow> (\<exists>i. holds push_owner (qs_pcs s) i p)) \<and>
     (\<forall>p. full_at (qs_queue s) p \<longrightarrow> p < deq (qs_queue s) \<longrightarrow> (\<exists>i. holds pop_owner (qs_pcs s) i p))"

definition readers :: "(nat \<Rightarrow> 'a qpc option) \<Rightarrow> nat set" where
  "readers pcs = {p. \<exists>i. holds reading pcs i p}"

definition taken_inv :: "'a QSystem \<Rightarrow> bool" where
  "taken_inv s \<longleftrightarrow> distinct (map fst (qs_taken s)) \<and>
     (\<forall>(p, v) \<in> set (qs_taken s). v = qs_log s ! p) \<and>
     um_keys (qs_taken s) \<union> readers (qs_pcs s) = {..<deq (qs_queue s)} \<and>
     um_keys (qs_taken s) \<inter> readers (qs_pcs s) = {}"

lemma reading_pop_owner: "reading pc = Some p \<Longrightarrow> pop_owner pc = Some p"
  by (cases pc) auto

text \<open>A thread that enters or leaves an operation owns nothing.\<close>

lemma holds_idle:
  assumes "\<And>pc. pcs i = Some pc \<Longrightarrow> f pc = None" "\<And>pc. x = Some pc \<Longrightarrow> f pc = None"
  shows "holds f (pcs(i := x)) = holds f pcs"
  using assms by (auto simp: holds_def fun_eq_iff)

lemma idle_inv:
  assumes "threads_inv s" "taken_inv s"
    and "\<And>pc. qs_pcs s i = Some pc \<Longrightarrow> returned pc" "x = None \<or> x = Some PopLoad \<or> (\<exists>v. x = Some (PushLoad v))"
  shows "threads_inv (s\<lparr>qs_pcs := (qs_pcs s)(i := x)\<rparr>) \<and> taken_inv (s\<lparr>qs_pcs := (qs_pcs s)(i := x)\<rparr>)"
proof -
  have no: "push_owner pc = None \<and> pop_owner pc = None \<and> reading pc = None" if "qs_pcs s i = Some pc \<or> x = Some pc" for pc
  proof -
    have "returned pc \<or> pc = PopLoad \<or> (\<exists>v. pc = PushLoad v)" using that assms(3,4) by auto
    then show ?thesis by (cases pc) auto
  qed
  have "holds f ((qs_pcs s)(i := x)) = holds f (qs_pcs s)" if "f \<in> {push_owner, pop_owner, reading}" for f
    using that no by (intro holds_idle) auto
  then show ?thesis
    using assms(1,2,4) by (auto simp: threads_inv_def taken_inv_def readers_def)
qed

lemma holds_update: "holds f (pcs(i \<mapsto> pc')) j p \<longleftrightarrow> (if j = i then f pc' = Some p else holds f pcs j p)"
  by (auto simp: holds_def)

lemma access_threads:
  assumes inv: "queue_inv (qs_log s) (qs_queue s)" "threads_inv s" "Suc (enq (qs_queue s)) + cap (qs_queue s) < 2 ^ 63"
    and pc: "qs_pcs s i = Some pc" and step: "qstep moved sp (qs_queue s) pc = (q', pc')"
  shows "threads_inv (s\<lparr>qs_queue := q', qs_pcs := (qs_pcs s)(i \<mapsto> pc'), qs_log := log_step pc pc' (qs_log s), qs_taken := t'\<rparr>)"
    (is "threads_inv ?s")
proof -
  let ?q = "qs_queue s"
  have ok: "\<And>j pc2. qs_pcs s j = Some pc2 \<Longrightarrow> qpc_inv (qs_log s) ?q pc2"
    and upush: "\<And>j k p. holds push_owner (qs_pcs s) j p \<Longrightarrow> holds push_owner (qs_pcs s) k p \<Longrightarrow> j = k"
    and upop: "\<And>j k p. holds pop_owner (qs_pcs s) j p \<Longrightarrow> holds pop_owner (qs_pcs s) k p \<Longrightarrow> j = k"
    and epush: "\<And>p. free_at ?q p \<Longrightarrow> p < enq ?q \<Longrightarrow> \<exists>j. holds push_owner (qs_pcs s) j p"
    and epop: "\<And>p. full_at ?q p \<Longrightarrow> p < deq ?q \<Longrightarrow> \<exists>j. holds pop_owner (qs_pcs s) j p"
    using inv(2) unfolding threads_inv_def by blast+
  have bound: "p < enq ?q" if "holds push_owner (qs_pcs s) j p" for j p using that ok owner_cell(1) by (fastforce simp: holds_def)
  have bound': "p < deq ?q" if "holds pop_owner (qs_pcs s) j p" for j p using that ok owner_cell(2) by (fastforce simp: holds_def)
  have mine: "push_owner pc = Some p \<longleftrightarrow> holds push_owner (qs_pcs s) i p" "pop_owner pc = Some p \<longleftrightarrow> holds pop_owner (qs_pcs s) i p" for p
    using pc by (simp_all add: holds_def)
  have "qpc_inv (log_step pc pc' (qs_log s)) q' pc2" if "j \<noteq> i" "qs_pcs s j = Some pc2" for j pc2
  proof (rule qstep_other [OF inv(1,3) ok [OF pc] ok [OF that(2)] step])
    fix p
    show "push_owner pc \<noteq> Some p" if "push_owner pc2 = Some p"
      using that upush [of j p i] \<open>j \<noteq> i\<close> \<open>qs_pcs s j = Some pc2\<close> mine(1) by (auto simp: holds_def)
    show "pop_owner pc \<noteq> Some p" if "pop_owner pc2 = Some p"
      using that upop [of j p i] \<open>j \<noteq> i\<close> \<open>qs_pcs s j = Some pc2\<close> mine(2) by (auto simp: holds_def)
  qed
  moreover have "j = k" if "holds push_owner (qs_pcs ?s) j p" "holds push_owner (qs_pcs ?s) k p" for j k p
    using that new_owner(1) [OF step, of p] mine(1) [of p] bound [of _ p] upush [of _ p]
    by (auto simp: holds_update split: if_splits)
  moreover have "j = k" if "holds pop_owner (qs_pcs ?s) j p" "holds pop_owner (qs_pcs ?s) k p" for j k p
    using that new_owner(2) [OF step, of p] mine(2) [of p] bound' [of _ p] upop [of _ p]
    by (auto simp: holds_update split: if_splits)
  moreover have "\<exists>j. holds push_owner (qs_pcs ?s) j p" if "free_at q' p" "p < enq q'" for p
    using free_has_owner [OF inv(1,3) ok [OF pc] step that] epush [of p] mine(1) [of p]
    by (auto simp: holds_update)
  moreover have "\<exists>j. holds pop_owner (qs_pcs ?s) j p" if "full_at q' p" "p < deq q'" for p
    using full_has_owner [OF inv(1,3) ok [OF pc] step that] epop [of p] mine(2) [of p]
    by (auto simp: holds_update)
  ultimately show ?thesis
    using qstep_inv [OF inv(1,3) ok [OF pc] step] unfolding threads_inv_def by auto
qed

lemma log_step_nth: "p < length l \<Longrightarrow> log_step pc pc' l ! p = l ! p"
  by (cases "(pc, pc', l)" rule: log_step.cases) (auto simp: nth_append)

lemma taken_step_other: "reading pc = None \<Longrightarrow> taken_step pc pc' t = t"
  by (cases pc) auto

lemma no_reading:
  assumes "qstep moved sp q pc = (q', pc')" "\<And>pos. pc \<noteq> PopCas pos" "\<And>pos. pc \<noteq> PopRead pos"
  shows "reading pc = None" "reading pc' = None" "dequeue_pos q' = dequeue_pos q"
  using assms by (cases pc; auto simp: Let_def split: if_splits)+

lemma step_kinds:
  assumes "qstep moved sp q pc = (q', pc')" "ring_ok q"
  obtains (claim) pos where "pc = PopCas pos" "pc' = PopRead pos" "dequeue_pos q = pos" "q' = q\<lparr>dequeue_pos := pos + 1\<rparr>"
    | (read) pos where "pc = PopRead pos" "pc' = PopRelease (valn q (unat pos mod cap q)) pos" "dequeue_pos q' = dequeue_pos q"
    | (other) "reading pc = None" "reading pc' = None" "dequeue_pos q' = dequeue_pos q"
proof (cases pc)
  case (PopCas pos)
  show ?thesis
  proof (cases "dequeue_pos q = pos \<and> \<not> sp")
    case True
    show ?thesis by (rule claim [of pos]) (use assms(1) PopCas True in auto)
  next
    case False
    show ?thesis by (rule other) (use assms(1) PopCas False in auto)
  qed
next
  case (PopRead pos)
  show ?thesis
    by (rule read [of pos]) (use assms PopRead in \<open>auto simp: cell_at_def cell_index_mod valn_def\<close>)
qed (rule other; use no_reading [OF assms(1)] in simp)+

lemma readers_split:
  "readers (pcs(i \<mapsto> pc')) = set_option (reading pc') \<union> {p. \<exists>j. j \<noteq> i \<and> holds reading pcs j p}"
  "pcs i = Some pc \<Longrightarrow> readers pcs = set_option (reading pc) \<union> {p. \<exists>j. j \<noteq> i \<and> holds reading pcs j p}"
  by (auto simp: readers_def holds_def split: if_splits) (metis option.inject)

lemma access_taken:
  assumes inv: "queue_inv (qs_log s) (qs_queue s)" "threads_inv s" "taken_inv s"
    and pc: "qs_pcs s i = Some pc" and step: "qstep moved sp (qs_queue s) pc = (q', pc')"
  shows "taken_inv (s\<lparr>qs_queue := q', qs_pcs := (qs_pcs s)(i \<mapsto> pc'), qs_log := log_step pc pc' (qs_log s),
    qs_taken := taken_step pc pc' (qs_taken s)\<rparr>)"
proof -
  let ?q = "qs_queue s" and ?t = "qs_taken s" and ?R = "readers (qs_pcs s)"
  note d = queue_invD [OF inv(1)]
  have ok: "qpc_inv (qs_log s) ?q pc" using inv(2) pc unfolding threads_inv_def by blast
  have upop: "\<And>j k p. holds pop_owner (qs_pcs s) j p \<Longrightarrow> holds pop_owner (qs_pcs s) k p \<Longrightarrow> j = k"
    using inv(2) unfolding threads_inv_def by blast
  have t: "distinct (map fst ?t)" "\<And>p v. (p, v) \<in> set ?t \<Longrightarrow> v = qs_log s ! p"
    "um_keys ?t \<union> ?R = {..<deq ?q}" "um_keys ?t \<inter> ?R = {}"
    using inv(3) unfolding taken_inv_def by auto
  have old: "(p, v) \<in> set ?t \<Longrightarrow> v = log_step pc pc' (qs_log s) ! p" for p v
  proof -
    assume "(p, v) \<in> set ?t"
    moreover from this have "p \<in> um_keys ?t" unfolding um_keys_def by (metis fst_conv image_eqI)
    moreover from this have "p \<in> {..<deq ?q}" using t(3) by blast
    then have "p < length (qs_log s)" using d(2,5) by simp
    ultimately show ?thesis using t(2) [of p v] by (simp add: log_step_nth)
  qed
  have mine: "holds reading (qs_pcs s) i p \<longleftrightarrow> reading pc = Some p" for p using pc by (simp add: holds_def)
  from step d(1) show ?thesis
  proof (cases rule: step_kinds)
    case (claim pos)
    then have less: "deq ?q < enq ?q" using ok d(7) by auto
    then have e: "unat (pos + 1) = Suc (deq ?q)" using claim d(4) by (auto intro!: unat_Suc_pos)
    have "readers ((qs_pcs s)(i \<mapsto> pc')) = insert (deq ?q) ?R"
      using claim readers_split(2) [of "qs_pcs s", OF pc] by (simp add: readers_split(1))
    then show ?thesis
      using t old claim e unfolding taken_inv_def by (auto simp: taken_step_other)
  next
    case (read pos)
    then have read': "pc' = PopRelease (qs_log s ! unat pos) pos" using ok by simp
    have r: "holds reading (qs_pcs s) i (unat pos)" using read mine by simp
    have "\<not> holds reading (qs_pcs s) j (unat pos)" if "j \<noteq> i" for j
      using that r upop [of i "unat pos" j] reading_pop_owner by (auto simp: holds_def)
    then have "readers ((qs_pcs s)(i \<mapsto> pc')) = ?R - {unat pos}"
      using read(1) read' readers_split(2) [of "qs_pcs s", OF pc] by (auto simp: readers_split(1))
    moreover have "unat pos \<in> ?R" using r by (auto simp: readers_def)
    ultimately show ?thesis
      using t old read(1,3) read' unfolding taken_inv_def by auto
  next
    case other
    then have "readers ((qs_pcs s)(i \<mapsto> pc')) = ?R"
      using readers_split(2) [of "qs_pcs s", OF pc] by (simp add: readers_split(1))
    with other show ?thesis
      using t old unfolding taken_inv_def by (auto simp: taken_step_other)
  qed
qed

section \<open>The constructor\<close>

lemma bit_ceil_cases:
  assumes "2 \<le> n" "n \<le> 2 ^ 62"
  obtains k where "1 \<le> k" "k < 63" "bit_ceil n = 2 ^ k"
proof (rule that)
  have "bitlen (int n - 1) \<le> 62" using assms by (intro bitlen_le_iff_power [THEN iffD2]) (simp_all add: nat_less_iff)
  then show "nat (bitlen (int n - 1)) < 63" by simp
  have "0 < bitlen (int n - 1)" using assms(1) by (simp add: bitlen_eq_zero_iff bitlen_nonneg less_le)
  then show "1 \<le> nat (bitlen (int n - 1))" by linarith
qed (simp add: bit_ceil_def)

definition request :: "u64 \<Rightarrow> nat" where
  "request capacity = unat (if capacity < 2 then 2 else capacity)"

lemma new_queue_fields:
  assumes "unat capacity \<le> 2 ^ 62"
  shows "cap (new_queue dflt capacity) = bit_ceil (request capacity)" "enq (new_queue dflt capacity) = 0"
    "deq (new_queue dflt capacity) = 0" "ring_ok (new_queue dflt capacity)"
    and "c < cap (new_queue dflt capacity) \<Longrightarrow> seqn (new_queue dflt capacity) c = c"
    and "cap (new_queue dflt capacity) \<le> 2 ^ 62"
proof -
  have r: "2 \<le> request capacity" "request capacity \<le> 2 ^ 62"
    using assms by (auto simp: request_def word_less_nat_alt not_less)
  then obtain k where k: "1 \<le> k" "k < 63" "bit_ceil (request capacity) = 2 ^ k" by (rule bit_ceil_cases)
  have p: "(2 :: nat) ^ k \<le> 2 ^ 62" using k(2) by (intro power_increasing) simp_all
  have q: "new_queue dflt capacity = \<lparr>q_capacity = 2 ^ k, q_mask = 2 ^ k - 1,
      q_cells = map (\<lambda>i. \<lparr>sequence = of_nat i, cell_value = dflt\<rparr>) [0..<2 ^ k], enqueue_pos = 0, dequeue_pos = 0\<rparr>"
    using k(3) by (simp add: new_queue_def request_def)
  show c: "cap (new_queue dflt capacity) = bit_ceil (request capacity)" using k by (simp add: q unat_power2)
  show "enq (new_queue dflt capacity) = 0" "deq (new_queue dflt capacity) = 0" by (simp_all add: q)
  show "cap (new_queue dflt capacity) \<le> 2 ^ 62" using c k(3) p by simp
  show "ring_ok (new_queue dflt capacity)"
    using k p by (auto simp: ring_ok_def q unat_power2)
  show "seqn (new_queue dflt capacity) c = c" if "c < cap (new_queue dflt capacity)"
    using that k p c by (simp add: seqn_def q unat_of_nat)
qed

lemma new_queue_inv:
  assumes "unat capacity \<le> 2 ^ 62"
  shows "queue_inv [] (new_queue dflt capacity)"
proof -
  let ?q = "new_queue dflt capacity"
  note f = new_queue_fields [OF assms, where dflt = dflt]
  have c: "2 \<le> cap ?q" using ring_cap(1) [OF f(4)] .
  then have s: "seqn ?q (p mod cap ?q) = p mod cap ?q" for p using f(5) by simp
  have free: "free_at ?q p \<longleftrightarrow> p < cap ?q" for p
    using c by (auto simp: free_at_def s mod_less_divisor intro: mod_less)
      (metis mod_less_divisor less_le_trans zero_less_numeral)
  have full: "\<not> full_at ?q p" for p
    unfolding full_at_def s using mod_less_eq_dividend [of p "cap ?q"] by linarith
  show ?thesis
  proof (rule queue_invI)
    fix x
    show "\<exists>p. p mod cap ?q = x mod cap ?q \<and> (free_at ?q p \<or> full_at ?q p)"
      using c by (intro exI [of _ "x mod cap ?q"]) (simp add: free)
  qed (use f free full in auto)
qed

section \<open>Reachable states\<close>

lemma qstep_counters:
  assumes "qstep moved sp q pc = (q', pc')" "Suc (enq q) < 2 ^ 63"
  shows "q_capacity q' = q_capacity q" "enq q' \<le> Suc (enq q)"
  using assms unat_Suc_pos [of "enqueue_pos q"] by (cases pc; auto simp: Let_def split: if_splits)+

definition qsys_inv :: "u64 \<Rightarrow> nat \<Rightarrow> 'a QSystem \<Rightarrow> bool" where
  "qsys_inv capacity n s \<longleftrightarrow> queue_inv (qs_log s) (qs_queue s) \<and> threads_inv s \<and> taken_inv s \<and>
     enq (qs_queue s) \<le> n \<and> cap (qs_queue s) = bit_ceil (request capacity) \<and> cap (qs_queue s) \<le> 2 ^ 62"

lemma qsys_step_inv:
  assumes "qsys_step moved s s'" "qsys_inv capacity n s" "n < 2 ^ 62 - 1"
  shows "qsys_inv capacity (Suc n) s'"
  using assms(1)
proof cases
  case (start_push i v)
  then show ?thesis
    using assms(2) idle_inv [of s i "Some (PushLoad v)"] by (auto simp: qsys_inv_def)
next
  case (start_pop i)
  then show ?thesis
    using assms(2) idle_inv [of s i "Some PopLoad"] by (auto simp: qsys_inv_def)
next
  case (access i pc sp q' pc')
  have inv: "queue_inv (qs_log s) (qs_queue s)" "threads_inv s" "taken_inv s" and small: "enq (qs_queue s) \<le> n" "cap (qs_queue s) \<le> 2 ^ 62"
    using assms(2) by (auto simp: qsys_inv_def)
  have bound: "Suc (enq (qs_queue s)) + cap (qs_queue s) < 2 ^ 63" using small assms(3) by simp
  have ok: "qpc_inv (qs_log s) (qs_queue s) pc" using inv(2) access(2) unfolding threads_inv_def by blast
  have "Suc (enq (qs_queue s)) < 2 ^ 63" using bound by simp
  note cnt = qstep_counters [OF access(4) this]
  have "queue_inv (qs_log s') (qs_queue s')"
    using qstep_inv [OF inv(1) bound ok access(4)] by (simp add: access(1))
  moreover have "threads_inv s'" unfolding access(1) by (rule access_threads [OF inv(1,2) bound access(2,4)])
  moreover have "taken_inv s'" unfolding access(1) by (rule access_taken [OF inv access(2,4)])
  ultimately show ?thesis
    using assms(2) cnt small by (simp add: qsys_inv_def access(1))
next
  case (return i pc)
  then show ?thesis
    using assms(2) idle_inv [of s i None] by (auto simp: qsys_inv_def)
qed

lemma qsys_reach_inv:
  assumes "qsys_reach moved dflt capacity n s" "unat capacity \<le> 2 ^ 62" "n < 2 ^ 62"
  shows "qsys_inv capacity n s"
  using assms(1,3)
proof (induction rule: qsys_reach.induct)
  case init
  note f = new_queue_fields [OF assms(2), where dflt = dflt]
  have "\<not> full_at (new_queue dflt capacity) p" "free_at (new_queue dflt capacity) p \<Longrightarrow> \<not> p < 0" for p
    using queue_invD(7) [OF new_queue_inv [OF assms(2)], of dflt p] f(2) by auto
  then show ?case
    using new_queue_inv [OF assms(2)] f
    by (auto simp: qsys_inv_def threads_inv_def taken_inv_def readers_def holds_def)
next
  case (step n s s')
  then show ?case by (intro qsys_step_inv) simp_all
qed

section \<open>A thread that runs alone\<close>

definition solo :: "'a list \<Rightarrow> 'a MpmcQueue \<Rightarrow> 'a qpc \<Rightarrow> bool" where
  "solo l q pc \<longleftrightarrow> queue_inv l q \<and> qpc_inv l q pc \<and>
     (\<forall>p. free_at q p \<longrightarrow> p < enq q \<longrightarrow> push_owner pc = Some p) \<and>
     (\<forall>p. full_at q p \<longrightarrow> p < deq q \<longrightarrow> pop_owner pc = Some p)"

lemma solo_step:
  assumes "solo l q pc" "Suc (enq q) + cap q < 2 ^ 63" "qstep moved sp q pc = (q', pc')"
  shows "solo (log_step pc pc' l) q' pc'"
proof -
  have inv: "queue_inv l q" "qpc_inv l q pc" using assms(1) by (simp_all add: solo_def)
  have "push_owner pc' = Some p" if "free_at q' p" "p < enq q'" for p
    using free_has_owner [OF inv(1) assms(2) inv(2) assms(3) that] assms(1) by (auto simp: solo_def)
  moreover have "pop_owner pc' = Some p" if "full_at q' p" "p < deq q'" for p
    using full_has_owner [OF inv(1) assms(2) inv(2) assms(3) that] assms(1) by (auto simp: solo_def)
  ultimately show ?thesis
    using qstep_inv [OF inv(1) assms(2) inv(2) assms(3)] by (simp add: solo_def)
qed

lemma run_alone_step:
  "\<not> returned pc \<Longrightarrow> qstep moved False q pc = (q', pc') \<Longrightarrow> run_alone moved q pc = run_alone moved q' pc'"
  by (subst run_alone.simps) simp

lemma run_alone_returned: "returned pc \<Longrightarrow> run_alone moved q pc = Some (q, pc)"
  by (subst run_alone.simps) simp

text \<open>Without another thread the cell at the next position tells exactly whether there is room, or an item.\<close>

lemma solo_room:
  assumes "solo l q pc" "push_owner pc = None" "pop_owner pc = None"
  shows "enq q < deq q + cap q \<Longrightarrow> free_at q (enq q)"
    and "enq q = deq q + cap q \<Longrightarrow> seqn q (enq q mod cap q) < enq q"
    and "deq q < enq q \<Longrightarrow> full_at q (deq q)"
    and "deq q = enq q \<Longrightarrow> seqn q (deq q mod cap q) = deq q"
proof -
  have inv: "queue_inv l q" using assms(1) by (simp add: solo_def)
  note d = queue_invD [OF inv]
  have free: "enq q \<le> p" if "free_at q p" for p using assms that by (force simp: solo_def not_less [symmetric])
  have full: "deq q \<le> p" if "full_at q p" for p using assms that by (force simp: solo_def not_less [symmetric])
  obtain p where p: "p mod cap q = enq q mod cap q" "free_at q p \<or> full_at q p" using d(9) by blast
  have p_free: "p = enq q" if "free_at q p" using mod_eq_between [of "enq q" "cap q" p] p(1) free [OF that] d(6) [OF that] by simp
  have p_full: "p + cap q = enq q" if "full_at q p"
    using mod_eq_between [of "p" "cap q" "enq q"] p(1) d(7) [OF that] by (metis le_neq_implies_less less_irrefl order_less_imp_le)
  have eq: "seqn q (enq q mod cap q) = seqn q (p mod cap q)" using p(1) by simp
  show "enq q < deq q + cap q \<Longrightarrow> free_at q (enq q)"
    using p(2) p_free p_full full by fastforce
  show "seqn q (enq q mod cap q) < enq q" if "enq q = deq q + cap q"
  proof -
    have "deq q < enq q" "deq q mod cap q = enq q mod cap q" using that d(3) by simp_all
    then have "full_at q (deq q)" using d(10) [of "deq q"] free [of "deq q"] by auto
    then have "seqn q (enq q mod cap q) = Suc (deq q)" using \<open>deq q mod cap q = enq q mod cap q\<close> by (simp add: full_at_def)
    then show ?thesis using that d(3) by simp
  qed
  show "deq q < enq q \<Longrightarrow> full_at q (deq q)" using d(10) [of "deq q"] free [of "deq q"] by auto
  show "seqn q (deq q mod cap q) = deq q" if "deq q = enq q"
    using that p(2) p_free p_full full [of p] d(3) eq by (auto simp: free_at_def)
qed

definition quiet :: "'a list \<Rightarrow> 'a MpmcQueue \<Rightarrow> bool" where
  "quiet l q \<longleftrightarrow> solo l q PopLoad"

lemma quiet_solo: "quiet l q \<longleftrightarrow> solo l q (PushLoad v)" "quiet l q \<longleftrightarrow> solo l q (PushRet b)" "quiet l q \<longleftrightarrow> solo l q (PopRet r)"
  by (auto simp: quiet_def solo_def)

lemma try_push_alone:
  assumes "quiet l q" "Suc (Suc (enq q)) + cap q < 2 ^ 63"
  shows "enq q < deq q + cap q \<Longrightarrow> \<exists>q'. try_push moved v q = Some (True, q') \<and> quiet (l @ [v]) q' \<and>
      enq q' = Suc (enq q) \<and> deq q' = deq q \<and> cap q' = cap q"
    and "enq q = deq q + cap q \<Longrightarrow> try_push moved v q = Some (False, q)"
proof -
  let ?pos = "enqueue_pos q"
  have b: "Suc (enq q) + cap q < 2 ^ 63" "enq q < 2 ^ 63" using assms(2) by simp_all
  have s0: "solo l q (PushLoad v)" using assms(1) by (simp only: quiet_solo(1) [symmetric])
  then have inv: "queue_inv l q" by (simp add: solo_def)
  have "push_owner (PushLoad v) = None" "pop_owner (PushLoad v) = None" by simp_all
  note room = solo_room [OF s0 this] and diff = seq_diff [OF inv b(2), of ?pos]
  have e: "unat (?pos + 1) = Suc (enq q)" using b by (intro unat_Suc_pos) simp
  have s1: "solo l q (PushCheck v ?pos)" using solo_step [OF s0 b(1), of moved False] by simp
  show "try_push moved v q = Some (False, q)" if "enq q = deq q + cap q"
  proof -
    have "qstep moved False q (PushCheck v ?pos) = (q, PushRet False)"
      unfolding qstep.simps Let_def diff using room(2) [OF that] by simp
    then have "run_alone moved q (PushLoad v) = Some (q, PushRet False)"
      by (simp add: run_alone_step [of "PushLoad v"] run_alone_step [of "PushCheck v ?pos"] run_alone_returned)
    then show ?thesis by (simp add: try_push_def)
  qed
  show "\<exists>q'. try_push moved v q = Some (True, q') \<and> quiet (l @ [v]) q' \<and>
      enq q' = Suc (enq q) \<and> deq q' = deq q \<and> cap q' = cap q" if "enq q < deq q + cap q"
  proof -
    let ?q1 = "q\<lparr>enqueue_pos := ?pos + 1\<rparr>"
    let ?q2 = "cell_update ?pos (\<lambda>c. c\<lparr>cell_value := v\<rparr>) ?q1"
    let ?q3 = "cell_update ?pos (\<lambda>c. c\<lparr>sequence := ?pos + 1\<rparr>) ?q2"
    have check: "qstep moved False q (PushCheck v ?pos) = (q, PushCas v ?pos)"
      unfolding qstep.simps Let_def diff using room(1) [OF that] by (simp add: free_at_def)
    then have s2: "solo l q (PushCas v ?pos)" using solo_step [OF s1 b(1) check] by simp
    have s3: "solo (l @ [v]) ?q1 (PushWrite v ?pos)" using solo_step [OF s2 b(1), of moved False] by simp
    have b': "Suc (enq ?q1) + cap ?q1 < 2 ^ 63" "Suc (enq ?q2) + cap ?q2 < 2 ^ 63" using e assms(2) by simp_all
    have s4: "solo (l @ [v]) ?q2 (PushPublish ?pos)" using solo_step [OF s3 b'(1), of moved False] by simp
    have s5: "solo (l @ [v]) ?q3 (PushRet True)" using solo_step [OF s4 b'(2), of moved False] by simp
    have "run_alone moved q (PushLoad v) = Some (?q3, PushRet True)"
      using check by (simp add: run_alone_step [of "PushLoad v"] run_alone_step [of "PushCheck v ?pos"]
          run_alone_step [of "PushCas v ?pos"] run_alone_step [of "PushWrite v ?pos"]
          run_alone_step [of "PushPublish ?pos"] run_alone_returned)
    then have "try_push moved v q = Some (True, ?q3)" by (simp add: try_push_def)
    moreover have "quiet (l @ [v]) ?q3" using s5 by (simp only: quiet_solo(2) [symmetric])
    ultimately show ?thesis using e by simp
  qed
qed

lemma try_pop_alone:
  fixes l :: "'a list"
  assumes "quiet l q" "Suc (enq q) + cap q < 2 ^ 63"
  shows "deq q < enq q \<Longrightarrow> \<exists>q'. try_pop moved q = Some (Some (l ! deq q), q') \<and> quiet l q' \<and>
      deq q' = Suc (deq q) \<and> enq q' = enq q \<and> cap q' = cap q"
    and "deq q = enq q \<Longrightarrow> try_pop moved q = Some (None, q)"
proof -
  let ?pos = "dequeue_pos q"
  have s0: "solo l q PopLoad" using assms(1) by (simp add: quiet_def)
  then have inv: "queue_inv l q" by (simp add: solo_def)
  note d = queue_invD [OF inv]
  have e: "unat (?pos + 1) = Suc (deq q)" using assms(2) d(5) by (intro unat_Suc_pos) simp
  have e': "unat (?pos + 1) < 2 ^ 63" using e assms(2) d(5) by simp
  have "push_owner (PopLoad :: 'a qpc) = None" "pop_owner (PopLoad :: 'a qpc) = None" by simp_all
  note room = solo_room [OF s0 this] and diff = seq_diff [OF inv e', of ?pos]
  have s1: "solo l q (PopCheck ?pos)" using solo_step [OF s0 assms(2), of moved False] by simp
  show "try_pop moved q = Some (None, q)" if "deq q = enq q"
  proof -
    have "qstep moved False q (PopCheck ?pos) = (q, PopRet None)"
      unfolding qstep.simps Let_def diff using room(4) [OF that] e by simp
    then have "run_alone moved q PopLoad = Some (q, PopRet None)"
      by (simp add: run_alone_step [of PopLoad] run_alone_step [of "PopCheck ?pos"] run_alone_returned)
    then show ?thesis by (simp add: try_pop_def)
  qed
  show "\<exists>q'. try_pop moved q = Some (Some (l ! deq q), q') \<and> quiet l q' \<and>
      deq q' = Suc (deq q) \<and> enq q' = enq q \<and> cap q' = cap q" if "deq q < enq q"
  proof -
    let ?q1 = "q\<lparr>dequeue_pos := ?pos + 1\<rparr>"
    let ?q2 = "cell_update ?pos (\<lambda>c. c\<lparr>cell_value := moved (cell_value c)\<rparr>) ?q1"
    let ?q3 = "cell_update ?pos (\<lambda>c. c\<lparr>sequence := ?pos + q_capacity q\<rparr>) ?q2"
    have check: "qstep moved False q (PopCheck ?pos) = (q, PopCas ?pos)"
      unfolding qstep.simps Let_def diff using room(3) [OF that] e by (simp add: full_at_def)
    then have s2: "solo l q (PopCas ?pos)" using solo_step [OF s1 assms(2) check] by simp
    have s3: "solo l ?q1 (PopRead ?pos)" using solo_step [OF s2 assms(2), of moved False] by simp
    have b': "Suc (enq ?q1) + cap ?q1 < 2 ^ 63" "Suc (enq ?q2) + cap ?q2 < 2 ^ 63" using assms(2) by simp_all
    have s4: "solo l ?q2 (PopRelease (cell_value (cell_at ?q1 ?pos)) ?pos)"
      using solo_step [OF s3 b'(1), of moved False] by simp
    then have v: "cell_value (cell_at ?q1 ?pos) = l ! deq q" by (simp add: solo_def)
    have s5: "solo l ?q3 (PopRet (Some (l ! deq q)))" using solo_step [OF s4 b'(2), of moved False] v by simp
    have "run_alone moved q PopLoad = Some (?q3, PopRet (Some (l ! deq q)))"
      using check v by (simp add: run_alone_step [of PopLoad] run_alone_step [of "PopCheck ?pos"]
          run_alone_step [of "PopCas ?pos"] run_alone_step [of "PopRead ?pos"]
          run_alone_step [of "PopRelease (l ! deq q) ?pos"] run_alone_returned)
    then have "try_pop moved q = Some (Some (l ! deq q), ?q3)" by (simp add: try_pop_def)
    moreover have "quiet l ?q3" using s5 by (simp only: quiet_solo(3) [symmetric])
    ultimately show ?thesis using e by simp
  qed
qed

section \<open>The contract of a bounded queue\<close>

datatype 'a queue_op = Push 'a | Pop
datatype 'a queue_out = Pushed bool | Popped "'a option"

text \<open>The specification: a list that takes at most \<open>limit\<close> items.\<close>

fun list_queue :: "nat \<Rightarrow> 'a queue_op list \<Rightarrow> 'a list \<Rightarrow> 'a queue_out list \<times> 'a list" where
  "list_queue limit [] xs = ([], xs)"
| "list_queue limit (Push v # ops) xs =
     (let ok = length xs < limit; (outs, ys) = list_queue limit ops (if ok then xs @ [v] else xs)
      in (Pushed ok # outs, ys))"
| "list_queue limit (Pop # ops) xs =
     (case xs of
        [] \<Rightarrow> (let (outs, ys) = list_queue limit ops [] in (Popped None # outs, ys))
      | x # xs' \<Rightarrow> (let (outs, ys) = list_queue limit ops xs' in (Popped (Some x) # outs, ys)))"

text \<open>A sequence of calls, one after the other.\<close>

fun run_ops ::
  "('a \<Rightarrow> 'q \<Rightarrow> (bool \<times> 'q) option) \<Rightarrow> ('q \<Rightarrow> ('a option \<times> 'q) option) \<Rightarrow> 'a queue_op list \<Rightarrow> 'q
     \<Rightarrow> ('a queue_out list \<times> 'q) option" where
  "run_ops push pop [] q = Some ([], q)"
| "run_ops push pop (Push v # ops) q = (case push v q of None \<Rightarrow> None | Some (b, q') \<Rightarrow>
     map_option (apfst (Cons (Pushed b))) (run_ops push pop ops q'))"
| "run_ops push pop (Pop # ops) q = (case pop q of None \<Rightarrow> None | Some (r, q') \<Rightarrow>
     map_option (apfst (Cons (Popped r))) (run_ops push pop ops q'))"

text \<open>
  What a client of the queue may rely on. \<open>inv n\<close> holds of a queue that can serve \<open>n\<close> more calls
  before its counters run out.
\<close>

locale bounded_fifo =
  fixes push :: "'a \<Rightarrow> 'q \<Rightarrow> (bool \<times> 'q) option" and pop :: "'q \<Rightarrow> ('a option \<times> 'q) option"
    and content :: "'q \<Rightarrow> 'a list" and limit :: "'q \<Rightarrow> nat" and inv :: "nat \<Rightarrow> 'q \<Rightarrow> bool"
  assumes push_room: "inv (Suc n) q \<Longrightarrow> length (content q) < limit q \<Longrightarrow>
      \<exists>q'. push v q = Some (True, q') \<and> inv n q' \<and> content q' = content q @ [v] \<and> limit q' = limit q"
    and push_full: "inv (Suc n) q \<Longrightarrow> \<not> length (content q) < limit q \<Longrightarrow> push v q = Some (False, q)"
    and pop_item: "inv (Suc n) q \<Longrightarrow> content q = x # xs \<Longrightarrow>
      \<exists>q'. pop q = Some (Some x, q') \<and> inv n q' \<and> content q' = xs \<and> limit q' = limit q"
    and pop_empty: "inv (Suc n) q \<Longrightarrow> content q = [] \<Longrightarrow> pop q = Some (None, q)"
    and inv_weaken: "inv (Suc n) q \<Longrightarrow> inv n q"
begin

lemma run_ops_refines:
  "inv (length ops) q \<Longrightarrow> \<exists>q'. run_ops push pop ops q = Some (fst (list_queue (limit q) ops (content q)), q') \<and>
     content q' = snd (list_queue (limit q) ops (content q)) \<and> limit q' = limit q \<and> inv 0 q'"
proof (induction ops arbitrary: q)
  case (Cons op ops)
  then have inv: "inv (Suc (length ops)) q" by simp
  show ?case
  proof (cases op)
    case (Push v)
    show ?thesis
    proof (cases "length (content q) < limit q")
      case True
      then obtain q' where q': "push v q = Some (True, q')" "inv (length ops) q'"
        "content q' = content q @ [v]" "limit q' = limit q" using push_room [OF inv] by blast
      then show ?thesis using Cons.IH [of q'] True Push by (auto simp: Let_def split: prod.splits)
    next
      case False
      then show ?thesis
        using Cons.IH [of q] push_full [OF inv False] inv_weaken [OF inv] Push by (auto simp: Let_def split: prod.splits)
    qed
  next
    case Pop
    show ?thesis
    proof (cases "content q")
      case Nil
      then show ?thesis
        using Cons.IH [of q] pop_empty [OF inv Nil] inv_weaken [OF inv] Pop by (auto simp: Let_def split: prod.splits)
    next
      case (Cons x xs)
      then obtain q' where q': "pop q = Some (Some x, q')" "inv (length ops) q'" "content q' = xs" "limit q' = limit q"
        using pop_item [OF inv] by blast
      then show ?thesis using Cons.IH [of q'] Cons Pop by (auto simp: Let_def split: prod.splits)
    qed
  qed
qed simp

end

definition content :: "'a MpmcQueue \<Rightarrow> 'a list" where
  "content q = map (\<lambda>p. valn q (p mod cap q)) [deq q..<enq q]"

definition ready :: "nat \<Rightarrow> 'a MpmcQueue \<Rightarrow> bool" where
  "ready n q \<longleftrightarrow> (\<exists>l. quiet l q) \<and> enq q + cap q + n < 2 ^ 63 - 2"

lemma content_log:
  assumes "quiet l q"
  shows "content q = drop (deq q) l" "length (content q) \<le> cap q"
proof -
  have s: "solo l q PopLoad" using assms by (simp add: quiet_def)
  then have inv: "queue_inv l q" by (simp add: solo_def)
  note d = queue_invD [OF inv]
  have "valn q (p mod cap q) = l ! p" if "deq q \<le> p" "p < enq q" for p
    using d(8) [of p] d(10) [OF that] that s by (auto simp: solo_def)
  then show "content q = drop (deq q) l"
    using d(2) by (intro nth_equalityI) (simp_all add: content_def)
  show "length (content q) \<le> cap q" using d(11) by (simp add: content_def)
qed

interpretation mpmc: bounded_fifo "try_push moved" "try_pop moved" content cap ready for moved
proof
  fix n v and q :: "'a MpmcQueue"
  assume "ready (Suc n) q"
  then obtain l where l: "quiet l q" and b: "enq q + cap q + Suc n < 2 ^ 63 - 2" by (auto simp: ready_def)
  have inv: "queue_inv l q" using l by (simp add: quiet_def solo_def)
  note d = queue_invD [OF inv] and c = content_log [OF l]
  have b': "Suc (Suc (enq q)) + cap q < 2 ^ 63" "Suc (enq q) + cap q < 2 ^ 63" using b by simp_all
  have len: "length (content q) = enq q - deq q" by (simp add: content_def)
  show "ready n q" using l b by (auto simp: ready_def)
  show "\<exists>q'. try_push moved v q = Some (True, q') \<and> ready n q' \<and> content q' = content q @ [v] \<and> cap q' = cap q"
    if "length (content q) < cap q"
  proof -
    have "enq q < deq q + cap q" using that len d(5) by simp
    then obtain q' where q': "try_push moved v q = Some (True, q')" "quiet (l @ [v]) q'" "enq q' = Suc (enq q)"
      "deq q' = deq q" "cap q' = cap q" using try_push_alone(1) [OF l b'(1)] by blast
    then have "content q' = content q @ [v]" using content_log(1) [OF q'(2)] c(1) d(2,5) by simp
    moreover have "ready n q'" using q' b by (auto simp: ready_def)
    ultimately show ?thesis using q' by blast
  qed
  show "try_push moved v q = Some (False, q)" if "\<not> length (content q) < cap q"
    using that len d(5,11) by (intro try_push_alone(2) [OF l b'(1)]) simp
  show "try_pop moved q = Some (None, q)" if "content q = []"
    using that d(5) by (intro try_pop_alone(2) [OF l b'(2)]) (auto simp: content_def)
  show "\<exists>q'. try_pop moved q = Some (Some x, q') \<and> ready n q' \<and> content q' = xs \<and> cap q' = cap q"
    if "content q = x # xs" for x xs
  proof -
    have "deq q < enq q" using that by (auto simp: content_def dest: arg_cong [where f = length])
    then obtain q' where q': "try_pop moved q = Some (Some (l ! deq q), q')" "quiet l q'" "deq q' = Suc (deq q)"
      "enq q' = enq q" "cap q' = cap q" using try_pop_alone(1) [OF l b'(2)] by blast
    have "drop (deq q) l = l ! deq q # drop (Suc (deq q)) l"
      using \<open>deq q < enq q\<close> d(2) by (simp add: Cons_nth_drop_Suc)
    then have "x = l ! deq q" "content q' = xs" using that c(1) content_log(1) [OF q'(2)] q'(3) by simp_all
    moreover have "ready n q'" using q' b by (auto simp: ready_def)
    ultimately show ?thesis using q' by blast
  qed
qed

section \<open>Properties\<close>

lemma mset_taken:
  assumes "taken_inv s" "readers (qs_pcs s) = {}" "deq (qs_queue s) \<le> length (qs_log s)"
  shows "mset (map snd (qs_taken s)) = mset (take (deq (qs_queue s)) (qs_log s))"
proof -
  let ?n = "deq (qs_queue s)" and ?t = "qs_taken s"
  have t: "distinct (map fst ?t)" "\<forall>(p, v) \<in> set ?t. v = qs_log s ! p" "um_keys ?t = {..<?n}"
    using assms(1,2) by (auto simp: taken_inv_def)
  have "map snd ?t = map ((!) (qs_log s)) (map fst ?t)" using t(2) by auto
  moreover have "mset (map fst ?t) = mset [0..<?n]"
    using t(1,3) by (intro set_eq_iff_mset_eq_distinct [THEN iffD1]) (simp_all add: lessThan_atLeast0)
  moreover have "map ((!) (qs_log s)) [0..<?n] = take ?n (qs_log s)"
    using assms(3) by (intro nth_equalityI) simp_all
  ultimately show ?thesis by (metis mset_map)
qed

text \<open>
  C22. First in, first out under every interleaving: a consumer takes out exactly the value that was
  pushed at the position it claimed, no position is taken twice, and whenever no consumer is between
  its claim and its read, the values taken are the values of the oldest pushes, none lost and none
  duplicated. Never more than the capacity is claimed at a time.
\<close>

theorem mpmc_fifo:
  assumes "qsys_reach moved dflt capacity n s" "unat capacity \<le> 2 ^ 62" "n < 2 ^ 62"
  shows "distinct (map fst (qs_taken s)) \<and>
    list_all (\<lambda>(p, v). p < length (qs_log s) \<and> v = qs_log s ! p) (qs_taken s) \<and>
    (readers (qs_pcs s) = {} \<longrightarrow>
       mset (map snd (qs_taken s)) = mset (take (deq (qs_queue s)) (qs_log s))) \<and>
    length (qs_log s) = enq (qs_queue s) \<and> enq (qs_queue s) \<le> deq (qs_queue s) + bit_ceil (request capacity)"
proof -
  have inv: "queue_inv (qs_log s) (qs_queue s)" "taken_inv s" "cap (qs_queue s) = bit_ceil (request capacity)"
    using qsys_reach_inv [OF assms] by (simp_all add: qsys_inv_def)
  note d = queue_invD [OF inv(1)]
  have "p < length (qs_log s) \<and> v = qs_log s ! p" if "(p, v) \<in> set (qs_taken s)" for p v
  proof -
    have "p \<in> um_keys (qs_taken s)" unfolding um_keys_def using that by (metis fst_conv image_eqI)
    then have "p \<in> {..<deq (qs_queue s)}" using inv(2) unfolding taken_inv_def by blast
    then show ?thesis using inv(2) that d(2,5) by (auto simp: taken_inv_def)
  qed
  then show ?thesis
    using inv d(2,5,11) mset_taken [OF inv(2)] by (auto simp: taken_inv_def list_all_iff)
qed

text \<open>A concrete run: thread 0 pushes 7, thread 1 pops it.\<close>

definition run_access :: "nat \<Rightarrow> nat QSystem \<Rightarrow> nat QSystem" where
  "run_access i s = (case qs_pcs s i of None \<Rightarrow> s | Some pc \<Rightarrow>
     (if returned pc then s else
      (case qstep id False (qs_queue s) pc of (q', pc') \<Rightarrow>
         s\<lparr>qs_queue := q', qs_pcs := (qs_pcs s)(i \<mapsto> pc'), qs_log := log_step pc pc' (qs_log s),
           qs_taken := taken_step pc pc' (qs_taken s)\<rparr>)))"

definition sample_qinit :: "nat QSystem" where
  "sample_qinit = \<lparr>qs_queue = new_queue 0 4, qs_pcs = (\<lambda>_. None), qs_log = [], qs_taken = []\<rparr>"

definition sample_qsys :: "nat QSystem" where
  "sample_qsys =
     fold run_access [0, 0, 0, 0, 0, 1, 1, 1, 1]
       (sample_qinit\<lparr>qs_pcs := (\<lambda>_. None)(0 \<mapsto> PushLoad 7, 1 \<mapsto> PopLoad)\<rparr>)"

definition qreach_within :: "nat \<Rightarrow> nat QSystem \<Rightarrow> bool" where
  "qreach_within n s \<longleftrightarrow> (\<exists>m \<le> n. qsys_reach id 0 4 m s)"

lemma qreach_within_run: "qreach_within n s \<Longrightarrow> qreach_within (n + length is) (fold run_access is s)"
proof (induction "is" arbitrary: n s)
  case (Cons i js)
  then obtain m where m: "m \<le> n" "qsys_reach id 0 4 m s" by (auto simp: qreach_within_def)
  have "qreach_within (Suc n) (run_access i s)"
  proof (cases "\<exists>pc. qs_pcs s i = Some pc \<and> \<not> returned pc")
    case True
    then obtain pc where pc: "qs_pcs s i = Some pc" "\<not> returned pc" by blast
    obtain q' pc' where st: "qstep id False (qs_queue s) pc = (q', pc')" by (cases "qstep id False (qs_queue s) pc")
    have "qsys_reach id 0 4 (Suc m) (run_access i s)"
      using qsys_reach.step [OF m(2) qsys_step.access [OF pc st]] pc st by (simp add: run_access_def)
    then show ?thesis using m(1) unfolding qreach_within_def by (meson Suc_le_mono)
  next
    case False
    then have "run_access i s = s" by (auto simp: run_access_def split: option.splits)
    then show ?thesis using m unfolding qreach_within_def by (metis le_SucI)
  qed
  from Cons.IH [OF this] show ?case by simp
qed simp

lemma sample_qsys_reach: "\<exists>n \<le> 11. qsys_reach id 0 4 n sample_qsys"
proof -
  have init: "qsys_reach id 0 4 0 sample_qinit" unfolding sample_qinit_def by (rule qsys_reach.init)
  have "qsys_step id sample_qinit (sample_qinit\<lparr>qs_pcs := (qs_pcs sample_qinit)(0 \<mapsto> PushLoad 7)\<rparr>)"
    by (rule qsys_step.start_push) (simp add: sample_qinit_def)
  note one = qsys_reach.step [OF init this]
  have "qsys_step id (sample_qinit\<lparr>qs_pcs := (\<lambda>_. None)(0 \<mapsto> PushLoad 7)\<rparr>)
      (sample_qinit\<lparr>qs_pcs := (\<lambda>_. None)(0 \<mapsto> PushLoad 7, 1 \<mapsto> PopLoad)\<rparr>)"
    using qsys_step.start_pop [of "sample_qinit\<lparr>qs_pcs := (\<lambda>_. None)(0 \<mapsto> PushLoad 7)\<rparr>" 1 id] by simp
  then have "qsys_reach id 0 4 2 (sample_qinit\<lparr>qs_pcs := (\<lambda>_. None)(0 \<mapsto> PushLoad 7, 1 \<mapsto> PopLoad)\<rparr>)"
    using qsys_reach.step [OF one] by (simp add: sample_qinit_def numeral_2_eq_2)
  then have "qreach_within 2 (sample_qinit\<lparr>qs_pcs := (\<lambda>_. None)(0 \<mapsto> PushLoad 7, 1 \<mapsto> PopLoad)\<rparr>)"
    by (auto simp: qreach_within_def)
  from qreach_within_run [OF this, of "[0, 0, 0, 0, 0, 1, 1, 1, 1]"] show ?thesis
    by (simp add: qreach_within_def sample_qsys_def)
qed

lemma sample_qsys_eval:
  "qs_log sample_qsys = [7]" "qs_taken sample_qsys = [(0, 7)]" "deq (qs_queue sample_qsys) = 1"
  by code_simp+

theorem mpmc_fifo_witness:
  "qs_taken sample_qsys = [(0, 7)] \<and> qs_log sample_qsys = [7] \<and>
   list_all (\<lambda>(p, v). p < length (qs_log sample_qsys) \<and> v = qs_log sample_qsys ! p) (qs_taken sample_qsys)"
proof -
  obtain n where "n \<le> 11" "qsys_reach id 0 4 n sample_qsys" using sample_qsys_reach by blast
  then show ?thesis using mpmc_fifo [of id 0 4 n sample_qsys] sample_qsys_eval by simp
qed

text \<open>
  A refusal is justified: a push is refused only if the ring holds as many items as it has cells
  or a consumer is still inside the cell that comes next; a pop is refused only if the ring is empty
  or a producer has claimed the next position and not published it yet.
\<close>

theorem mpmc_refusals:
  assumes "qsys_reach moved dflt capacity n s" "unat capacity \<le> 2 ^ 62" "n < 2 ^ 62"
    and "qs_pcs s i = Some pc" "qstep moved sp (qs_queue s) pc = (q', pc')" "\<not> returned pc"
  shows "(pc' = PushRet False \<longrightarrow> enq (qs_queue s) = deq (qs_queue s) + cap (qs_queue s) \<or>
      (\<exists>j. holds pop_owner (qs_pcs s) j (enq (qs_queue s) - cap (qs_queue s)))) \<and>
    (pc' = PopRet None \<longrightarrow> enq (qs_queue s) = deq (qs_queue s) \<or>
      (\<exists>j. holds push_owner (qs_pcs s) j (deq (qs_queue s))))"
proof -
  let ?q = "qs_queue s"
  have inv: "queue_inv (qs_log s) ?q" "threads_inv s" and small: "enq ?q \<le> n" "cap ?q \<le> 2 ^ 62"
    using qsys_reach_inv [OF assms(1-3)] by (simp_all add: qsys_inv_def)
  note d = queue_invD [OF inv(1)]
  have ok: "qpc_inv (qs_log s) ?q pc" using inv(2) assms(4) unfolding threads_inv_def by blast
  have epush: "\<And>p. free_at ?q p \<Longrightarrow> p < enq ?q \<Longrightarrow> \<exists>j. holds push_owner (qs_pcs s) j p"
    and epop: "\<And>p. full_at ?q p \<Longrightarrow> p < deq ?q \<Longrightarrow> \<exists>j. holds pop_owner (qs_pcs s) j p"
    using inv(2) unfolding threads_inv_def by blast+
  have less: "a + cap ?q \<le> b" if "a mod cap ?q = b mod cap ?q" "a < b" for a b
    using mod_eq_between [OF that(1)] that(2) by (metis less_irrefl less_imp_le not_le)
  have "enq ?q = deq ?q + cap ?q \<or> (\<exists>j. holds pop_owner (qs_pcs s) j (enq ?q - cap ?q))" if no: "pc' = PushRet False"
  proof -
    obtain v pos where pc: "pc = PushCheck v pos" using no assms(5,6) by (cases pc) (auto simp: Let_def split: if_splits)
    have le: "unat pos \<le> enq ?q" using ok pc by simp
    then have "unat pos < 2 ^ 63" using small assms(3) by simp
    then have "seqn ?q (unat pos mod cap ?q) < unat pos"
      using no assms(5) pc seq_diff(2) [OF inv(1), of pos pos] by (auto simp: Let_def split: if_splits)
    moreover obtain p where p: "p mod cap ?q = unat pos mod cap ?q" "free_at ?q p \<or> full_at ?q p" using d(9) by blast
    ultimately have "p < unat pos" by (auto simp: free_at_def full_at_def)
    then have "p + cap ?q \<le> enq ?q" using less [OF p(1)] le by simp
    then have "p + cap ?q = enq ?q" using d(6,7) p(2) by force
    then have pe: "enq ?q - cap ?q = p" "enq ?q = p + cap ?q" by simp_all
    show ?thesis
    proof (cases "p < deq ?q")
      case True
      then have "full_at ?q p" using p(2) d(6) [of p] by auto
      then show ?thesis using True epop pe(1) by blast
    next
      case False
      then show ?thesis using pe(2) d(11) by simp
    qed
  qed
  moreover have "enq ?q = deq ?q \<or> (\<exists>j. holds push_owner (qs_pcs s) j (deq ?q))" if no: "pc' = PopRet None"
  proof -
    obtain pos where pc: "pc = PopCheck pos" using no assms(5,6) by (cases pc) (auto simp: Let_def split: if_splits)
    have le: "unat pos \<le> deq ?q" using ok pc by simp
    then have e: "unat (pos + 1) = Suc (unat pos)" using small assms(3) d(5) by (intro unat_Suc_pos) simp
    then have "unat (pos + 1) < 2 ^ 63" using small assms(3) d(5) le by simp
    then have "seqn ?q (unat pos mod cap ?q) < Suc (unat pos)"
      using no assms(5) pc e seq_diff(2) [OF inv(1), of "pos + 1" pos] by (auto simp: Let_def split: if_splits)
    moreover obtain p where p: "p mod cap ?q = unat pos mod cap ?q" "free_at ?q p \<or> full_at ?q p" using d(9) by blast
    ultimately consider "free_at ?q p" "p \<le> unat pos" | "full_at ?q p" "p < unat pos"
      by (auto simp: free_at_def full_at_def)
    then show ?thesis
    proof cases
      case 1
      then have "p = deq ?q" using d(6) [of p] le by simp
      then show ?thesis using 1 epush [of p] d(5) by fastforce
    next
      case 2
      then show ?thesis using less [OF p(1)] d(7) [of p] d(5) le by simp
    qed
  qed
  ultimately show ?thesis by blast
qed

definition sample_qpop :: "nat QSystem" where
  "sample_qpop = sample_qinit\<lparr>qs_pcs := (\<lambda>_. None)(1 \<mapsto> PopCheck 0)\<rparr>"

lemma sample_qpop_reach: "qsys_reach id 0 4 2 sample_qpop"
proof -
  have init: "qsys_reach id 0 4 0 sample_qinit" unfolding sample_qinit_def by (rule qsys_reach.init)
  have "qsys_step id sample_qinit (sample_qinit\<lparr>qs_pcs := (qs_pcs sample_qinit)(1 \<mapsto> PopLoad)\<rparr>)"
    by (rule qsys_step.start_pop) (simp add: sample_qinit_def)
  note one = qsys_reach.step [OF init this]
  have "qsys_step id (sample_qinit\<lparr>qs_pcs := (qs_pcs sample_qinit)(1 \<mapsto> PopLoad)\<rparr>) sample_qpop"
    using qsys_step.access [of "sample_qinit\<lparr>qs_pcs := (qs_pcs sample_qinit)(1 \<mapsto> PopLoad)\<rparr>" 1 PopLoad id False]
    by (simp add: sample_qinit_def sample_qpop_def new_queue_def Let_def)
  from qsys_reach.step [OF one this] show ?thesis by (simp add: numeral_2_eq_2)
qed

theorem mpmc_refusals_witness:
  "snd (qstep id False (qs_queue sample_qpop) (PopCheck 0)) = PopRet None \<and>
   (enq (qs_queue sample_qpop) = deq (qs_queue sample_qpop) \<or>
     (\<exists>j. holds push_owner (qs_pcs sample_qpop) j (deq (qs_queue sample_qpop))))"
proof -
  have "snd (qstep id False (qs_queue sample_qpop) (PopCheck 0)) = PopRet None" by code_simp
  then show ?thesis
    using mpmc_refusals [OF sample_qpop_reach, of 1 "PopCheck 0" False
      "fst (qstep id False (qs_queue sample_qpop) (PopCheck 0))" "PopRet None"]
    by (simp add: sample_qpop_def prod_eq_iff del: qstep.simps)
qed

text \<open>
  C23. Called from one thread, the queue is a bounded list: any sequence of pushes and pops on a fresh
  queue returns, answers what the list specification answers, and leaves the ring holding the
  specification's list.
\<close>

theorem mpmc_refines_list_queue:
  assumes "unat capacity \<le> 2 ^ 62" "length ops < 2 ^ 61"
  shows "\<exists>q'. run_ops (try_push moved) (try_pop moved) ops (new_queue dflt capacity) =
      Some (fst (list_queue (bit_ceil (request capacity)) ops []), q') \<and>
    content q' = snd (list_queue (bit_ceil (request capacity)) ops [])"
proof -
  let ?q = "new_queue dflt capacity"
  note f = new_queue_fields [OF assms(1), where dflt = dflt]
  have "quiet [] ?q"
    using new_queue_inv [OF assms(1)] f(2,3) by (auto simp: quiet_def solo_def)
  then have "ready (length ops) ?q" using f(2,6) assms(2) by (auto simp: ready_def)
  moreover have "content ?q = []" by (simp add: content_def f(2,3))
  ultimately show ?thesis using mpmc.run_ops_refines [of ops ?q moved] f(1) by auto
qed

theorem mpmc_refines_list_queue_witness:
  "\<exists>q'. run_ops (try_push id) (try_pop id) [Push 5, Push 6, Push 9, Pop, Pop] (new_queue (0 :: nat) 1) =
      Some ([Pushed True, Pushed True, Pushed False, Popped (Some 5), Popped (Some 6)], q') \<and> content q' = []"
proof -
  have "bit_ceil (request 1) = 2" by code_simp
  then show ?thesis
    using mpmc_refines_list_queue [of 1 "[Push 5, Push 6, Push 9, Pop, Pop]" id "0 :: nat"] by simp
qed

end
