(* ===== verification/Thread_Pool.thy ===== *)
theory Thread_Pool
  imports Mpmc_Queue
begin

text \<open>
  The thread pool (\<^verbatim>\<open>src/executor/thread_pool.cpp\<close>, \<^verbatim>\<open>thread_pool.hpp\<close>): producers that run \<^verbatim>\<open>enqueue\<close>, workers
  that run \<^verbatim>\<open>worker_loop\<close>, and the destructor, interleaved over the lock-free queue and a counting
  semaphore. Threads below the number of workers are workers, the others are producers. Three
  histories are kept beside the state: the tasks submitted, the tasks started, and how many pops
  found nothing.
\<close>

section \<open>Threads and their steps\<close>

datatype 'a tpc =
    Idle | Pushing 'a | Releasing
  | Sleeping | Popping | Running 'a | Deciding | Exited

record 'a ThreadPool =
  tp_qs :: "'a QSystem"
  tasks_available :: nat
  active_tasks :: u64
  num_workers :: nat
  stops :: nat
  woken :: bool
  tp_pc :: "nat \<Rightarrow> 'a tpc"
  tp_submitted :: "'a list"
  tp_started :: "'a list"
  tp_refused :: nat

definition QUEUE_CAPACITY :: u64 where
  "QUEUE_CAPACITY = 1024"

text \<open>The constructor; \<open>hardware\<close> is \<^verbatim>\<open>hardware_concurrency()\<close>, which may be zero when unknown.\<close>

definition pool_size :: "nat \<Rightarrow> nat \<Rightarrow> nat" where
  "pool_size hardware num_threads =
     (if num_threads = 0 then if hardware = 0 then 4 else hardware else num_threads)"

definition new_thread_pool :: "'a \<Rightarrow> nat \<Rightarrow> nat \<Rightarrow> 'a ThreadPool" where
  "new_thread_pool dflt hardware num_threads =
     \<lparr>tp_qs = \<lparr>qs_queue = new_queue dflt QUEUE_CAPACITY, qs_pcs = (\<lambda>_. None), qs_log = [], qs_taken = []\<rparr>,
      tasks_available = 0, active_tasks = 0, num_workers = pool_size hardware num_threads,
      stops = 0, woken = False,
      tp_pc = (\<lambda>i. if i < pool_size hardware num_threads then Sleeping else Idle),
      tp_submitted = [], tp_started = [], tp_refused = 0\<rparr>"

abbreviation set_tpc :: "nat \<Rightarrow> 'a tpc \<Rightarrow> 'a ThreadPool \<Rightarrow> 'a ThreadPool" where
  "set_tpc i c s \<equiv> s\<lparr>tp_pc := (tp_pc s)(i := c)\<rparr>"

abbreviation set_qpc :: "nat \<Rightarrow> 'a qpc option \<Rightarrow> 'a ThreadPool \<Rightarrow> 'a ThreadPool" where
  "set_qpc i c s \<equiv> s\<lparr>tp_qs := (tp_qs s)\<lparr>qs_pcs := (qs_pcs (tp_qs s))(i := c)\<rparr>\<rparr>"

datatype 'a action =
    Enqueue nat 'a | Access nat bool | PushDone nat | Release nat
  | Acquire nat | PopDone nat | Finish nat | Decide nat | RequestStop | WakeWorkers

text \<open>One atomic access inside \<^verbatim>\<open>try_push\<close> or \<^verbatim>\<open>try_pop\<close>.\<close>

definition queue_access :: "('a \<Rightarrow> 'a) \<Rightarrow> nat \<Rightarrow> bool \<Rightarrow> 'a ThreadPool \<Rightarrow> 'a ThreadPool option" where
  "queue_access moved i spurious s = (case qs_pcs (tp_qs s) i of None \<Rightarrow> None | Some pc \<Rightarrow>
     (if returned pc then None
      else let (q', pc') = qstep moved spurious (qs_queue (tp_qs s)) pc
           in Some (s\<lparr>tp_qs := (tp_qs s)\<lparr>qs_queue := q', qs_pcs := (qs_pcs (tp_qs s))(i \<mapsto> pc'),
                qs_log := log_step pc pc' (qs_log (tp_qs s)),
                qs_taken := taken_step pc pc' (qs_taken (tp_qs s))\<rparr>\<rparr>)))"

text \<open>The producer: push until accepted, then release one permit.\<close>

definition enqueue_start :: "nat \<Rightarrow> 'a \<Rightarrow> 'a ThreadPool \<Rightarrow> 'a ThreadPool option" where
  "enqueue_start i task s = (case tp_pc s i of
     Idle \<Rightarrow> if qs_pcs (tp_qs s) i = None then
         Some (set_tpc i (Pushing task) (set_qpc i (Some (PushLoad task)) (s\<lparr>tp_submitted := tp_submitted s @ [task]\<rparr>)))
       else None
   | _ \<Rightarrow> None)"

definition enqueue_pushed :: "nat \<Rightarrow> 'a ThreadPool \<Rightarrow> 'a ThreadPool option" where
  "enqueue_pushed i s = (case (tp_pc s i, qs_pcs (tp_qs s) i) of
     (Pushing task, Some (PushRet True)) \<Rightarrow> Some (set_tpc i Releasing (set_qpc i None s))
   | (Pushing task, Some (PushRet False)) \<Rightarrow> Some (set_qpc i (Some (PushLoad task)) s)
   | _ \<Rightarrow> None)"

definition enqueue_release :: "nat \<Rightarrow> 'a ThreadPool \<Rightarrow> 'a ThreadPool option" where
  "enqueue_release i s = (case tp_pc s i of
     Releasing \<Rightarrow> Some (set_tpc i Idle (s\<lparr>tasks_available := Suc (tasks_available s)\<rparr>)) | _ \<Rightarrow> None)"

text \<open>The worker: take a permit, pop, run the task; without a task look at the stop token.\<close>

definition worker_acquire :: "nat \<Rightarrow> 'a ThreadPool \<Rightarrow> 'a ThreadPool option" where
  "worker_acquire i s = (case (tp_pc s i, tasks_available s) of
     (Sleeping, Suc n) \<Rightarrow>
       if qs_pcs (tp_qs s) i = None then Some (set_tpc i Popping (set_qpc i (Some PopLoad) (s\<lparr>tasks_available := n\<rparr>))) else None
   | _ \<Rightarrow> None)"

definition worker_popped :: "nat \<Rightarrow> 'a ThreadPool \<Rightarrow> 'a ThreadPool option" where
  "worker_popped i s = (case (tp_pc s i, qs_pcs (tp_qs s) i) of
     (Popping, Some (PopRet (Some task))) \<Rightarrow>
       Some (set_tpc i (Running task) (set_qpc i None
         (s\<lparr>active_tasks := active_tasks s + 1, tp_started := tp_started s @ [task]\<rparr>)))
   | (Popping, Some (PopRet None)) \<Rightarrow> 
       Some (set_tpc i Deciding (set_qpc i None (s\<lparr>tp_refused := Suc (tp_refused s)\<rparr>)))
   | _ \<Rightarrow> None)"

definition worker_finish :: "nat \<Rightarrow> 'a ThreadPool \<Rightarrow> 'a ThreadPool option" where
  "worker_finish i s = (case tp_pc s i of
     Running task \<Rightarrow> Some (set_tpc i Sleeping (s\<lparr>active_tasks := active_tasks s - 1\<rparr>)) | _ \<Rightarrow> None)"

definition worker_decide :: "nat \<Rightarrow> 'a ThreadPool \<Rightarrow> 'a ThreadPool option" where
  "worker_decide i s = (case tp_pc s i of
     Deciding \<Rightarrow> Some (set_tpc i (if i < stops s then Exited else Sleeping) s) | _ \<Rightarrow> None)"

text \<open>
  The destructor up to the joins: it asks the workers to stop, one after the other, and then releases
  one permit per worker. The workers below \<open>stops\<close> have been asked, \<open>woken\<close> says that the permits are out.
\<close>

definition destroy_request_stop :: "'a ThreadPool \<Rightarrow> 'a ThreadPool option" where
  "destroy_request_stop s = (if stops s < num_workers s then Some (s\<lparr>stops := Suc (stops s)\<rparr>) else None)"

definition destroy_release :: "'a ThreadPool \<Rightarrow> 'a ThreadPool option" where
  "destroy_release s = (if stops s = num_workers s \<and> \<not> woken s
     then Some (s\<lparr>woken := True, tasks_available := tasks_available s + num_workers s\<rparr>) else None)"

text \<open>The joins come after that, and return when every worker has left its loop.\<close>

definition joined :: "'a ThreadPool \<Rightarrow> bool" where
  "joined s \<longleftrightarrow> woken s \<and> list_all (\<lambda>i. case tp_pc s i of Exited \<Rightarrow> True | _ \<Rightarrow> False) [0..<num_workers s]"

fun tp_step :: "('a \<Rightarrow> 'a) \<Rightarrow> 'a action \<Rightarrow> 'a ThreadPool \<Rightarrow> 'a ThreadPool option" where
  "tp_step moved (Enqueue i task) s = enqueue_start i task s"
| "tp_step moved (Access i spurious) s = queue_access moved i spurious s"
| "tp_step moved (PushDone i) s = enqueue_pushed i s"
| "tp_step moved (Release i) s = enqueue_release i s"
| "tp_step moved (Acquire i) s = worker_acquire i s"
| "tp_step moved (PopDone i) s = worker_popped i s"
| "tp_step moved (Finish i) s = worker_finish i s"
| "tp_step moved (Decide i) s = worker_decide i s"
| "tp_step moved RequestStop s = destroy_request_stop s"
| "tp_step moved WakeWorkers s = destroy_release s"

fun tp_run :: "('a \<Rightarrow> 'a) \<Rightarrow> 'a action list \<Rightarrow> 'a ThreadPool \<Rightarrow> 'a ThreadPool option" where
  "tp_run moved [] s = Some s"
| "tp_run moved (a # as) s = (case tp_step moved a s of None \<Rightarrow> None | Some s' \<Rightarrow> tp_run moved as s')"

definition queued_count :: "'a ThreadPool \<Rightarrow> u64" where
  "queued_count s = size_approx (qs_queue (tp_qs s))"

definition active_count :: "'a ThreadPool \<Rightarrow> u64" where
  "active_count s = active_tasks s"

definition tp_thread_count :: "'a ThreadPool \<Rightarrow> nat" where
  "tp_thread_count s = num_workers s"

section \<open>Sums over the threads\<close>

text \<open>A quantity that finitely many threads contribute to.\<close>

definition over_threads :: "(nat \<Rightarrow> 'b::comm_monoid_add) \<Rightarrow> 'b" where
  "over_threads f = (\<Sum>i \<in> {i. f i \<noteq> 0}. f i)"

definition few :: "(nat \<Rightarrow> 'b::comm_monoid_add) \<Rightarrow> bool" where
  "few f \<longleftrightarrow> finite {i. f i \<noteq> 0}"

lemma over_threads_update:
  fixes f :: "nat \<Rightarrow> 'b::comm_monoid_add"
  assumes "few f"
  shows "few (f(i := x))" "over_threads (f(i := x)) + f i = over_threads f + x"
proof -
  have assms: "finite {i. f i \<noteq> 0}" using assms by (simp add: few_def)
  let ?S = "insert i {j. f j \<noteq> 0}"
  have fin: "finite ?S" using assms by simp
  have sub: "{j. (f(i := x)) j \<noteq> 0} \<subseteq> ?S" by auto
  show "few (f(i := x))" unfolding few_def using finite_subset [OF sub fin] .
  have "over_threads (f(i := x)) = sum (f(i := x)) ?S"
    unfolding over_threads_def by (rule sum.mono_neutral_left [OF fin sub]) auto
  also have "\<dots> = x + sum f ({j. f j \<noteq> 0} - {i})"
    using assms by (subst sum.insert_remove) (auto intro!: sum.cong)
  finally have u: "over_threads (f(i := x)) = x + sum f ({j. f j \<noteq> 0} - {i})" .
  have "over_threads f = sum f ?S" unfolding over_threads_def by (rule sum.mono_neutral_left [OF fin]) auto
  also have "\<dots> = f i + sum f ({j. f j \<noteq> 0} - {i})" using assms by (subst sum.insert_remove) auto
  finally show "over_threads (f(i := x)) + f i = over_threads f + x" using u by (simp add: ac_simps)
qed

text \<open>One account, whose balance a thread changes along with its own contribution.\<close>

lemma balance:
  fixes a :: "'b::cancel_comm_monoid_add"
  assumes "a' + l + w = a + l' + x" "a = l + t" "t' + w = t + x"
  shows "a' = l' + t'"
proof -
  have "a' + (l + w) = a + l' + x" using assms(1) by (simp add: add.assoc)
  also have "\<dots> = l' + l + (t + x)" unfolding assms(2) by (simp add: ac_simps)
  also have "\<dots> = l' + t' + (l + w)" unfolding assms(3) [symmetric] by (simp add: ac_simps)
  finally show ?thesis by simp
qed

section \<open>What each thread holds\<close>

text \<open>Where a call on the queue stands: still trying to claim a cell, or past its claim.\<close>

fun trying :: "'a qpc \<Rightarrow> bool" where
  "trying (PushLoad _) = True" | "trying (PushCheck _ _) = True" | "trying (PushCas _ _) = True"
| "trying (PushRet b) = (\<not> b)"
| "trying PopLoad = True" | "trying (PopCheck _) = True" | "trying (PopCas _) = True"
| "trying (PopRet r) = (r = None)"
| "trying _ = False"

fun held :: "'a qpc \<Rightarrow> 'a multiset" where
  "held (PopRelease v _) = {#v#}"
| "held (PopRet (Some v)) = {#v#}"
| "held _ = {#}"

fun push_call :: "'a \<Rightarrow> 'a qpc \<Rightarrow> bool" where
  "push_call v (PushLoad w) = (w = v)" | "push_call v (PushCheck w _) = (w = v)" | "push_call v (PushCas w _) = (w = v)"
| "push_call v (PushWrite w _) = (w = v)" | "push_call v (PushPublish _) = True" | "push_call v (PushRet _) = True"
| "push_call v _ = False"

fun pop_call :: "'a qpc \<Rightarrow> bool" where
  "pop_call PopLoad = True" | "pop_call (PopCheck _) = True" | "pop_call (PopCas _) = True"
| "pop_call (PopRead _) = True" | "pop_call (PopRelease _ _) = True" | "pop_call (PopRet _) = True"
| "pop_call _ = False"

text \<open>
  A task submitted but not yet in the queue; a task taken from the queue but not yet started; a push
  whose permit is outstanding, or a permit whose pop has claimed nothing yet; a running task.
\<close>

definition waiting :: "'a tpc \<Rightarrow> 'a qpc option \<Rightarrow> 'a multiset" where
  "waiting t c = (case (t, c) of (Pushing v, Some p) \<Rightarrow> if trying p then {#v#} else {#} | _ \<Rightarrow> {#})"

definition in_hand :: "'a tpc \<Rightarrow> 'a qpc option \<Rightarrow> 'a multiset" where
  "in_hand t c = (case c of Some p \<Rightarrow> held p | None \<Rightarrow> {#})"

definition owed :: "'a tpc \<Rightarrow> 'a qpc option \<Rightarrow> nat" where
  "owed t c = (case (t, c) of (Pushing _, Some p) \<Rightarrow> if trying p then 0 else 1
     | (Popping, Some p) \<Rightarrow> if trying p then 1 else 0 | (Releasing, _) \<Rightarrow> 1 | _ \<Rightarrow> 0)"

definition busy :: "'a tpc \<Rightarrow> 'a qpc option \<Rightarrow> nat" where
  "busy t c = (case t of Running _ \<Rightarrow> 1 | _ \<Rightarrow> 0)"

text \<open>Which calls on the queue belong to which place in the loops.\<close>

definition pc_ok :: "'a tpc \<Rightarrow> 'a qpc option \<Rightarrow> bool" where
  "pc_ok t c \<longleftrightarrow> (case t of Pushing v \<Rightarrow> \<exists>p. c = Some p \<and> push_call v p
     | Popping \<Rightarrow> \<exists>p. c = Some p \<and> pop_call p | _ \<Rightarrow> c = None)"

lemmas holdings = waiting_def in_hand_def owed_def busy_def pc_ok_def

abbreviation per_thread :: "('a tpc \<Rightarrow> 'a qpc option \<Rightarrow> 'b) \<Rightarrow> 'a ThreadPool \<Rightarrow> nat \<Rightarrow> 'b" where
  "per_thread f s \<equiv> \<lambda>i. f (tp_pc s i) (qs_pcs (tp_qs s) i)"

definition tp_inv :: "nat \<Rightarrow> 'a ThreadPool \<Rightarrow> bool" where
  "tp_inv n s \<longleftrightarrow> qsys_inv QUEUE_CAPACITY n (tp_qs s) \<and> (\<forall>i. pc_ok (tp_pc s i) (qs_pcs (tp_qs s) i)) \<and>
     few (per_thread waiting s) \<and> few (per_thread in_hand s) \<and>
     few (per_thread owed s) \<and> few (per_thread busy s) \<and>
     mset (tp_submitted s) = mset (qs_log (tp_qs s)) + over_threads (per_thread waiting s) \<and>
     mset (map snd (qs_taken (tp_qs s))) = mset (tp_started s) + over_threads (per_thread in_hand s) \<and>
     active_tasks s = of_nat (over_threads (per_thread busy s)) \<and>
     (\<not> woken s \<longrightarrow> enq (qs_queue (tp_qs s)) =
        deq (qs_queue (tp_qs s)) + tasks_available s + tp_refused s + over_threads (per_thread owed s))"

lemma per_thread_update:
  assumes "tp_pc s' = (tp_pc s)(i := t')" "qs_pcs (tp_qs s') = (qs_pcs (tp_qs s))(i := c')"
  shows "per_thread f s' = (per_thread f s)(i := f t' c')"
  using assms by auto

text \<open>A step of one thread keeps the invariant when the books of that thread balance.\<close>

lemma tp_inv_update:
  assumes "tp_inv n s" "tp_pc s' = (tp_pc s)(i := t')" "qs_pcs (tp_qs s') = (qs_pcs (tp_qs s))(i := c')"
    and "qsys_inv QUEUE_CAPACITY n' (tp_qs s')" "pc_ok t' c'"
    and "mset (tp_submitted s') + mset (qs_log (tp_qs s)) + per_thread waiting s i =
      mset (tp_submitted s) + mset (qs_log (tp_qs s')) + waiting t' c'"
    and "mset (map snd (qs_taken (tp_qs s'))) + mset (tp_started s) + per_thread in_hand s i =
      mset (map snd (qs_taken (tp_qs s))) + mset (tp_started s') + in_hand t' c'"
    and "active_tasks s' + of_nat (per_thread busy s i) = active_tasks s + of_nat (busy t' c')"
    and "\<not> woken s' \<Longrightarrow> \<not> woken s \<and>
      enq (qs_queue (tp_qs s')) + deq (qs_queue (tp_qs s)) + tasks_available s + tp_refused s + per_thread owed s i =
      enq (qs_queue (tp_qs s)) + deq (qs_queue (tp_qs s')) + tasks_available s' + tp_refused s' + owed t' c'"
  shows "tp_inv n' s'"
proof -
  have fin: "few (per_thread waiting s)" "few (per_thread in_hand s)"
    "few (per_thread owed s)" "few (per_thread busy s)"
    using assms(1) by (simp_all add: tp_inv_def)
  have eqs: "mset (tp_submitted s) = mset (qs_log (tp_qs s)) + over_threads (per_thread waiting s)"
    "mset (map snd (qs_taken (tp_qs s))) = mset (tp_started s) + over_threads (per_thread in_hand s)"
    "active_tasks s = of_nat (over_threads (per_thread busy s))"
    "\<not> woken s \<Longrightarrow> enq (qs_queue (tp_qs s)) =
        deq (qs_queue (tp_qs s)) + tasks_available s + tp_refused s + over_threads (per_thread owed s)"
    using assms(1) by (simp_all add: tp_inv_def)
  have w: "few (per_thread waiting s')" "over_threads (per_thread waiting s') + per_thread waiting s i = over_threads (per_thread waiting s) + waiting t' c'"
    unfolding per_thread_update [OF assms(2,3), of waiting] by (rule over_threads_update [OF fin(1)])+
  have h: "few (per_thread in_hand s')" "over_threads (per_thread in_hand s') + per_thread in_hand s i = over_threads (per_thread in_hand s) + in_hand t' c'"
    unfolding per_thread_update [OF assms(2,3), of in_hand] by (rule over_threads_update [OF fin(2)])+
  have o: "few (per_thread owed s')" "over_threads (per_thread owed s') + per_thread owed s i = over_threads (per_thread owed s) + owed t' c'"
    unfolding per_thread_update [OF assms(2,3), of owed] by (rule over_threads_update [OF fin(3)])+
  have b: "few (per_thread busy s')" "over_threads (per_thread busy s') + per_thread busy s i = over_threads (per_thread busy s) + busy t' c'"
    unfolding per_thread_update [OF assms(2,3), of busy] by (rule over_threads_update [OF fin(4)])+
  have "mset (tp_submitted s') = mset (qs_log (tp_qs s')) + over_threads (per_thread waiting s')"
    using assms(6) eqs(1) w(2) by (rule balance)
  moreover have "mset (map snd (qs_taken (tp_qs s'))) = mset (tp_started s') + over_threads (per_thread in_hand s')"
    using assms(7) eqs(2) h(2) by (rule balance)
  moreover have "active_tasks s' = of_nat (over_threads (per_thread busy s'))"
  proof -
    have "(of_nat (over_threads (per_thread busy s')) :: u64) + of_nat (per_thread busy s i) = of_nat (over_threads (per_thread busy s)) + of_nat (busy t' c')"
      using arg_cong [OF b(2), of "of_nat :: nat \<Rightarrow> u64"] by (simp only: of_nat_add)
    then show ?thesis using balance [of "active_tasks s'" 0 _ "active_tasks s" 0] assms(8) eqs(3) by simp
  qed
  moreover have "enq (qs_queue (tp_qs s')) = deq (qs_queue (tp_qs s')) + tasks_available s' + tp_refused s' + over_threads (per_thread owed s')"
    if "\<not> woken s'"
    using assms(9) [OF that] eqs(4) o(2) by linarith
  moreover have "pc_ok (tp_pc s' j) (qs_pcs (tp_qs s') j)" for j
    using assms(1,2,3,5) by (auto simp: tp_inv_def)
  ultimately show ?thesis using assms(4) w(1) h(1) o(1) b(1) unfolding tp_inv_def by blast
qed

section \<open>Every step keeps the books\<close>

lemma qsys_inv_mono: "qsys_inv c n q \<Longrightarrow> n \<le> m \<Longrightarrow> qsys_inv c m q"
  by (auto simp: qsys_inv_def)

lemma qsys_inv_start:
  assumes "qsys_inv c n q" "n < 2 ^ 62 - 1" "qs_pcs q i = None"
  shows "qsys_inv c (Suc n) (q\<lparr>qs_pcs := (qs_pcs q)(i \<mapsto> PushLoad v)\<rparr>)" "qsys_inv c (Suc n) (q\<lparr>qs_pcs := (qs_pcs q)(i \<mapsto> PopLoad)\<rparr>)"
  using qsys_step_inv [OF qsys_step.start_push [OF assms(3)] assms(1,2)]
    qsys_step_inv [OF qsys_step.start_pop [OF assms(3)] assms(1,2)] by blast+

lemma qsys_inv_return:
  assumes "qsys_inv c n q" "n < 2 ^ 62 - 1" "qs_pcs q i = Some pc" "returned pc"
  shows "qsys_inv c (Suc n) (q\<lparr>qs_pcs := (qs_pcs q)(i := None)\<rparr>)"
  by (rule qsys_step_inv [OF qsys_step.return [OF assms(3,4)] assms(1,2)])

lemma tp_invD:
  assumes "tp_inv n s"
  shows "qsys_inv QUEUE_CAPACITY n (tp_qs s)" "pc_ok (tp_pc s i) (qs_pcs (tp_qs s) i)"
  using assms by (simp_all add: tp_inv_def)

lemma enqueue_start_inv:
  assumes "enqueue_start i v s = Some s'" "tp_inv n s" "n < 2 ^ 62 - 4"
  shows "tp_inv (n + 2) s'"
proof -
  have pcs: "tp_pc s i = Idle" "qs_pcs (tp_qs s) i = None"
    and s': "s' = set_tpc i (Pushing v) (set_qpc i (Some (PushLoad v)) (s\<lparr>tp_submitted := tp_submitted s @ [v]\<rparr>))"
    using assms(1) by (auto simp: enqueue_start_def split: tpc.splits if_splits)
  have "qsys_inv QUEUE_CAPACITY (n + 2) (tp_qs s')"
    using qsys_inv_start(1) [OF tp_invD(1) [OF assms(2)] _ pcs(2), of v] assms(3) by (auto simp: s' intro: qsys_inv_mono)
  then show ?thesis
    by (intro tp_inv_update [OF assms(2), of s' i "Pushing v" "Some (PushLoad v)"]) (simp_all add: s' pcs holdings)
qed

lemma enqueue_pushed_inv:
  assumes "enqueue_pushed i s = Some s'" "tp_inv n s" "n < 2 ^ 62 - 4"
  shows "tp_inv (n + 2) s'"
proof -
  obtain v b where pcs: "tp_pc s i = Pushing v" "qs_pcs (tp_qs s) i = Some (PushRet b)"
    using assms(1) by (auto simp: enqueue_pushed_def split: tpc.splits option.splits qpc.splits bool.splits)
  have ret: "qsys_inv QUEUE_CAPACITY (Suc n) ((tp_qs s)\<lparr>qs_pcs := (qs_pcs (tp_qs s))(i := None)\<rparr>)"
    using qsys_inv_return [OF tp_invD(1) [OF assms(2)] _ pcs(2)] assms(3) by simp
  show ?thesis
  proof (cases b)
    case True
    then have s': "s' = set_tpc i Releasing (set_qpc i None s)" using assms(1) pcs by (simp add: enqueue_pushed_def)
    have "qsys_inv QUEUE_CAPACITY (n + 2) (tp_qs s')" using ret by (auto simp: s' intro: qsys_inv_mono)
    then show ?thesis
      using True by (intro tp_inv_update [OF assms(2), of s' i Releasing None]) (simp_all add: s' pcs holdings)
  next
    case False
    then have s': "s' = set_qpc i (Some (PushLoad v)) s" using assms(1) pcs by (simp add: enqueue_pushed_def)
    have "qsys_inv QUEUE_CAPACITY (n + 2) (tp_qs s')"
      using qsys_inv_start(1) [OF ret, of i v] assms(3) by (simp add: s')
    then show ?thesis
      using False by (intro tp_inv_update [OF assms(2), of s' i "Pushing v" "Some (PushLoad v)"]) (simp_all add: s' pcs holdings fun_upd_idem)
  qed
qed

lemma worker_acquire_inv:
  assumes "worker_acquire i s = Some s'" "tp_inv n s" "n < 2 ^ 62 - 4"
  shows "tp_inv (n + 2) s'"
proof -
  obtain k where pcs: "tp_pc s i = Sleeping" "tasks_available s = Suc k" "qs_pcs (tp_qs s) i = None"
    and s': "s' = set_tpc i Popping (set_qpc i (Some PopLoad) (s\<lparr>tasks_available := k\<rparr>))"
    using assms(1) by (auto simp: worker_acquire_def split: tpc.splits nat.splits if_splits)
  have "qsys_inv QUEUE_CAPACITY (n + 2) (tp_qs s')"
    using qsys_inv_start(2) [OF tp_invD(1) [OF assms(2)] _ pcs(3)] assms(3) by (auto simp: s' intro: qsys_inv_mono)
  then show ?thesis
    by (intro tp_inv_update [OF assms(2), of s' i Popping "Some PopLoad"]) (simp_all add: s' pcs holdings)
qed

lemma worker_popped_inv:
  assumes "worker_popped i s = Some s'" "tp_inv n s" "n < 2 ^ 62 - 4"
  shows "tp_inv (n + 2) s'"
proof -
  obtain r where pcs: "tp_pc s i = Popping" "qs_pcs (tp_qs s) i = Some (PopRet r)"
    using assms(1) by (auto simp: worker_popped_def split: tpc.splits option.splits qpc.splits)
  have ret: "qsys_inv QUEUE_CAPACITY (n + 2) ((tp_qs s)\<lparr>qs_pcs := (qs_pcs (tp_qs s))(i := None)\<rparr>)"
    using qsys_inv_return [OF tp_invD(1) [OF assms(2)] _ pcs(2)] assms(3) by (auto intro: qsys_inv_mono)
  show ?thesis
  proof (cases r)
    case None
    then have s': "s' = set_tpc i Deciding (set_qpc i None (s\<lparr>tp_refused := Suc (tp_refused s)\<rparr>))"
      using assms(1) pcs by (simp add: worker_popped_def)
    show ?thesis
      using None ret by (intro tp_inv_update [OF assms(2), of s' i Deciding None]) (simp_all add: s' pcs holdings)
  next
    case (Some v)
    then have s': "s' = set_tpc i (Running v) (set_qpc i None (s\<lparr>active_tasks := active_tasks s + 1, tp_started := tp_started s @ [v]\<rparr>))"
      using assms(1) pcs by (simp add: worker_popped_def)
    show ?thesis
      using Some ret by (intro tp_inv_update [OF assms(2), of s' i "Running v" None]) (simp_all add: s' pcs holdings)
  qed
qed

lemma local_steps_inv:
  assumes "enqueue_release i s = Some s' \<or> worker_finish i s = Some s' \<or> worker_decide i s = Some s'" "tp_inv n s"
  shows "tp_inv (n + 2) s'"
proof -
  have q: "qsys_inv QUEUE_CAPACITY (n + 2) (tp_qs s)" using tp_invD(1) [OF assms(2)] by (rule qsys_inv_mono) simp
  have "\<exists>t'. tp_pc s' = (tp_pc s)(i := t') \<and> tp_qs s' = tp_qs s \<and> qs_pcs (tp_qs s) i = None \<and>
      (tp_pc s i = Releasing \<and> s' = set_tpc i Idle (s\<lparr>tasks_available := Suc (tasks_available s)\<rparr>) \<and> t' = Idle \<or>
       (\<exists>v. tp_pc s i = Running v) \<and> s' = set_tpc i Sleeping (s\<lparr>active_tasks := active_tasks s - 1\<rparr>) \<and> t' = Sleeping \<or>
       tp_pc s i = Deciding \<and> s' = set_tpc i t' s \<and> t' \<in> {Exited, Sleeping})"
    using assms(1) tp_invD(2) [OF assms(2), of i]
    by (auto simp: enqueue_release_def worker_finish_def worker_decide_def pc_ok_def split: tpc.splits)
  then obtain t' where t: "tp_pc s' = (tp_pc s)(i := t')" "tp_qs s' = tp_qs s" "qs_pcs (tp_qs s) i = None"
      "tp_pc s i = Releasing \<and> s' = set_tpc i Idle (s\<lparr>tasks_available := Suc (tasks_available s)\<rparr>) \<and> t' = Idle \<or>
       (\<exists>v. tp_pc s i = Running v) \<and> s' = set_tpc i Sleeping (s\<lparr>active_tasks := active_tasks s - 1\<rparr>) \<and> t' = Sleeping \<or>
       tp_pc s i = Deciding \<and> s' = set_tpc i t' s \<and> t' \<in> {Exited, Sleeping}" by blast
  have idem: "qs_pcs (tp_qs s') = (qs_pcs (tp_qs s))(i := None)" using t(2,3) by (simp add: fun_upd_idem)
  have "qsys_inv QUEUE_CAPACITY (n + 2) (tp_qs s')" using q t(2) by simp
  then show ?thesis
    using t(4) by (intro tp_inv_update [OF assms(2) t(1) idem]) (auto simp: t(2,3) holdings)
qed

text \<open>What one atomic access does to the counters and histories, by the kind of call.\<close>

lemma add_between: "a + c = b + d \<Longrightarrow> a + x + c = b + x + (d :: 'b::comm_monoid_add)"
  by (simp add: add.assoc add.commute [of x]) (simp add: add.assoc [symmetric])

lemma push_access:
  assumes "qstep moved sp q pc = (q', pc')" "push_call v pc" "\<not> returned pc" "Suc (enq q) < 2 ^ 63"
  shows "push_call v pc'" "held pc' = {#}" "held pc = {#}" "taken_step pc pc' t = t" "deq q' = deq q"
    and "mset (log_step pc pc' l) + (if trying pc' then {#v#} else {#}) = mset l + (if trying pc then {#v#} else {#})"
    and "enq q' + (if trying pc' then 1 else 0) = enq q + (if trying pc then 1 else 0)"
  using assms unat_Suc_pos [of "enqueue_pos q"] by (cases pc; auto simp: Let_def split: if_splits)+

lemma pop_access:
  assumes "qstep moved sp q pc = (q', pc')" "pop_call pc" "\<not> returned pc" "Suc (deq q) < 2 ^ 63"
  shows "pop_call pc'" "log_step pc pc' l = l" "enq q' = enq q"
    and "mset (map snd (taken_step pc pc' t)) + held pc = mset (map snd t) + held pc'"
    and "deq q' + (if trying pc' then 1 else 0) = deq q + (if trying pc then 1 else 0)"
  using assms unat_Suc_pos [of "dequeue_pos q"] by (cases pc; auto simp: Let_def split: if_splits)+

lemma queue_access_inv:
  assumes "queue_access moved i sp s = Some s'" "tp_inv n s" "n < 2 ^ 62 - 4"
  shows "tp_inv (n + 2) s'"
proof -
  let ?q = "tp_qs s"
  obtain pc q' pc' where pc: "qs_pcs ?q i = Some pc" "\<not> returned pc" and st: "qstep moved sp (qs_queue ?q) pc = (q', pc')"
    and s': "s' = s\<lparr>tp_qs := ?q\<lparr>qs_queue := q', qs_pcs := (qs_pcs ?q)(i \<mapsto> pc'),
      qs_log := log_step pc pc' (qs_log ?q), qs_taken := taken_step pc pc' (qs_taken ?q)\<rparr>\<rparr>"
    using assms(1) by (auto simp: queue_access_def split: option.splits if_splits prod.splits)
  note inv = tp_invD(1) [OF assms(2)]
  have q: "qsys_inv QUEUE_CAPACITY (n + 2) (tp_qs s')"
    using qsys_step_inv [OF qsys_step.access [OF pc st] inv] assms(3) by (auto simp: s' intro: qsys_inv_mono)
  have small: "Suc (enq (qs_queue ?q)) < 2 ^ 63" "Suc (deq (qs_queue ?q)) < 2 ^ 63"
    using inv assms(3) queue_invD(5) [of "qs_log ?q" "qs_queue ?q"] by (auto simp: qsys_inv_def)
  from tp_invD(2) [OF assms(2), of i] pc(1) consider v where "tp_pc s i = Pushing v" "push_call v pc"
    | "tp_pc s i = Popping" "pop_call pc"
    by (auto simp: pc_ok_def split: tpc.splits)
  then show ?thesis
  proof cases
    case (1 v)
    note a = push_access [OF st 1(2) pc(2) small(1)]
    show ?thesis
      using a(1,2,3,6,7) by (intro tp_inv_update [where i = i and t' = "Pushing v" and c' = "Some pc'", OF assms(2) _ _ q])
        (simp_all add: s' pc 1 holdings a(4,5) fun_upd_idem ac_simps split: if_splits)
  next
    case 2
    note a = pop_access [OF st 2(2) pc(2) small(2)]
    show ?thesis
    proof (rule tp_inv_update [where i = i and t' = Popping and c' = "Some pc'", OF assms(2) _ _ q])
      show "mset (map snd (qs_taken (tp_qs s'))) + mset (tp_started s) + per_thread in_hand s i =
        mset (map snd (qs_taken ?q)) + mset (tp_started s') + in_hand Popping (Some pc')"
        using add_between [OF a(4) [of "qs_taken ?q"], of "mset (tp_started s)"] by (simp add: s' pc in_hand_def)
      show "\<not> woken s \<and>
        enq (qs_queue (tp_qs s')) + deq (qs_queue ?q) + tasks_available s + tp_refused s + per_thread owed s i =
        enq (qs_queue ?q) + deq (qs_queue (tp_qs s')) + tasks_available s' + tp_refused s' + owed Popping (Some pc')"
        if "\<not> woken s'"
        using that a(5) by (simp add: s' pc 2 owed_def a(3) split: if_splits)
    qed (simp_all add: s' pc 2 holdings a(1,2) fun_upd_idem)
  qed
qed

lemma destroy_inv:
  "destroy_request_stop s = Some s' \<Longrightarrow> tp_inv n s \<Longrightarrow> tp_inv (n + 2) s'"
  "destroy_release s = Some s' \<Longrightarrow> tp_inv n s \<Longrightarrow> tp_inv (n + 2) s'"
  by (auto simp: destroy_request_stop_def destroy_release_def tp_inv_def intro: qsys_inv_mono split: if_splits)

lemma tp_step_inv:
  assumes "tp_step moved a s = Some s'" "tp_inv n s" "n < 2 ^ 62 - 4"
  shows "tp_inv (n + 2) s'"
  using assms(1) enqueue_start_inv [OF _ assms(2,3)] enqueue_pushed_inv [OF _ assms(2,3)] local_steps_inv [OF _ assms(2)]
    worker_acquire_inv [OF _ assms(2,3)] worker_popped_inv [OF _ assms(2,3)] queue_access_inv [OF _ assms(2,3)]
    destroy_inv [OF _ assms(2)]
  by (cases a) (simp_all only: tp_step.simps simp_thms, blast+)

lemma tp_run_inv:
  assumes "tp_run moved as s = Some s'" "tp_inv n s" "n + 2 * length as < 2 ^ 62 - 2"
  shows "tp_inv (n + 2 * length as) s'"
  using assms
proof (induction as arbitrary: s n)
  case (Cons a as)
  obtain s1 where s1: "tp_step moved a s = Some s1" "tp_run moved as s1 = Some s'"
    using Cons.prems(1) by (auto split: option.splits)
  have "tp_inv (n + 2) s1" using Cons.prems(3) by (intro tp_step_inv [OF s1(1) Cons.prems(2)]) simp
  then show ?case using Cons.IH [OF s1(2), of "n + 2"] Cons.prems(3) by simp
qed simp

lemma new_thread_pool_inv: "tp_inv 0 (new_thread_pool dflt hardware num_threads)"
proof -
  have c: "unat QUEUE_CAPACITY \<le> 2 ^ 62" by (simp add: QUEUE_CAPACITY_def)
  have q: "qsys_inv QUEUE_CAPACITY 0 \<lparr>qs_queue = new_queue dflt QUEUE_CAPACITY, qs_pcs = (\<lambda>_. None), qs_log = [], qs_taken = []\<rparr>"
    by (rule qsys_reach_inv [OF qsys_reach.init c]) simp
  have z: "per_thread waiting (new_thread_pool dflt hardware num_threads) = (\<lambda>_. 0)"
    "per_thread in_hand (new_thread_pool dflt hardware num_threads) = (\<lambda>_. 0)"
    "per_thread owed (new_thread_pool dflt hardware num_threads) = (\<lambda>_. 0)"
    "per_thread busy (new_thread_pool dflt hardware num_threads) = (\<lambda>_. 0)"
    by (auto simp: new_thread_pool_def holdings split: if_splits)
  have n: "few (\<lambda>_. 0)" "over_threads (\<lambda>_. 0) = 0" by (simp_all add: few_def over_threads_def)
  have f: "enq (new_queue dflt QUEUE_CAPACITY) = 0" "deq (new_queue dflt QUEUE_CAPACITY) = 0"
    using new_queue_fields [OF c, where dflt = dflt] by simp_all
  show ?thesis
    unfolding tp_inv_def z using q by (auto simp: n f new_thread_pool_def pc_ok_def)
qed

section \<open>Sample runs\<close>

text \<open>A pool of one worker; the trace in which a permit is spent on a task that is not published yet.\<close>

definition push_trace :: "nat \<Rightarrow> nat action list" where
  "push_trace i = [Access i False, Access i False, Access i False, Access i False, Access i False, PushDone i, Release i]"

definition lost_wakeup_trace :: "nat action list" where
  "lost_wakeup_trace =
     [Enqueue 1 101, Access 1 False, Access 1 False, Access 1 False, Enqueue 2 102] @ push_trace 2 @
     [Acquire 0, Access 0 False, Access 0 False, PopDone 0, Decide 0,
      Access 1 False, Access 1 False, PushDone 1, Release 1,
      Acquire 0, Access 0 False, Access 0 False, Access 0 False, Access 0 False, Access 0 False, PopDone 0, Finish 0]"

definition shutdown_trace :: "nat action list" where
  "shutdown_trace = [RequestStop, WakeWorkers, Acquire 0, Access 0 False, Access 0 False, Access 0 False, Access 0 False, Access 0 False,
     PopDone 0, Finish 0]"

lemma tp_run_append: "tp_run moved (as @ bs) s = (case tp_run moved as s of None \<Rightarrow> None | Some s' \<Rightarrow> tp_run moved bs s')"
  by (induction as arbitrary: s) (simp_all split: option.splits)

lemma sample_queue:
  obtains cs where "new_queue (0::nat) QUEUE_CAPACITY =
      \<lparr>q_capacity = 1024, q_mask = 1023, q_cells = cs, enqueue_pos = 0, dequeue_pos = 0\<rparr>"
    "length cs = 1024" "cs ! 0 = \<lparr>sequence = 0, cell_value = 0\<rparr>" "cs ! Suc 0 = \<lparr>sequence = 1, cell_value = 0\<rparr>"
proof -
  have "bit_ceil 1024 = 1024" by code_simp
  then show ?thesis
    by (intro that [of "map (\<lambda>i. \<lparr>sequence = of_nat i, cell_value = 0\<rparr>) [0..<1024]"])
      (simp_all add: new_queue_def QUEUE_CAPACITY_def del: upt_rec_numeral upt_Suc)
qed

lemmas tp_exec = queue_access_def enqueue_start_def enqueue_pushed_def enqueue_release_def worker_acquire_def
  worker_popped_def worker_finish_def worker_decide_def destroy_request_stop_def destroy_release_def cell_at_def cell_update_def cell_index_def

definition only_worker :: "nat tpc \<Rightarrow> nat \<Rightarrow> nat tpc" where
  "only_worker t i = (if i = 0 then t else Idle)"

lemma lost_wakeup_states:
  obtains s s' where
    "tp_run id lost_wakeup_trace (new_thread_pool 0 hardware 1) = Some s"
    "tp_pc s = only_worker Sleeping" "tasks_available s = 0" "queued_count s = 1" "tp_refused s = 1"
    "tp_submitted s = [101, 102]" "tp_started s = [101]" "\<not> woken s" "qs_pcs (tp_qs s) = (\<lambda>_. None)" "stops s \<noteq> num_workers s"
    "tp_run id shutdown_trace s = Some s'"
    "tp_pc s' = only_worker Sleeping" "tasks_available s' = 0" "woken s'" "stops s' = 1" "num_workers s' = 1"
    "qs_pcs (tp_qs s') = (\<lambda>_. None)" "tp_started s' = [101, 102]"
proof -
  obtain cs where cs: "new_queue (0::nat) QUEUE_CAPACITY =
      \<lparr>q_capacity = 1024, q_mask = 1023, q_cells = cs, enqueue_pos = 0, dequeue_pos = 0\<rparr>"
    "length cs = 1024" "cs ! 0 = \<lparr>sequence = 0, cell_value = 0\<rparr>" "cs ! Suc 0 = \<lparr>sequence = 1, cell_value = 0\<rparr>"
    by (rule sample_queue)
  define s :: "nat ThreadPool" where "s = \<lparr>tp_qs = \<lparr>qs_queue = \<lparr>q_capacity = 1024, q_mask = 1023,
      q_cells = cs[Suc 0 := \<lparr>sequence = 2, cell_value = 102\<rparr>, 0 := \<lparr>sequence = 1024, cell_value = 101\<rparr>],
      enqueue_pos = 2, dequeue_pos = 1\<rparr>, qs_pcs = (\<lambda>_. None), qs_log = [101, 102], qs_taken = [(0, 101)]\<rparr>,
    tasks_available = 0, active_tasks = 0, num_workers = 1, stops = 0, woken = False, tp_pc = only_worker Sleeping,
    tp_submitted = [101, 102], tp_started = [101], tp_refused = 1\<rparr>"
  have pc: "(\<lambda>i. if i = 0 then Sleeping else Idle)(2 := Idle, Suc 0 := Idle, 0 := Sleeping) = only_worker Sleeping"
    "(only_worker Sleeping)(0 := Sleeping) = only_worker Sleeping"
    by (auto simp: only_worker_def)
  have run: "tp_run id lost_wakeup_trace (new_thread_pool 0 hardware 1) = Some s"
    using cs(2-4) by (simp add: new_thread_pool_def pool_size_def cs(1) lost_wakeup_trace_def push_trace_def tp_exec
        nth_list_update s_def pc)
  have "\<exists>s'. tp_run id shutdown_trace s = Some s' \<and> tp_pc s' = only_worker Sleeping \<and> tasks_available s' = 0 \<and>
      woken s' \<and> stops s' = 1 \<and> num_workers s' = 1 \<and> qs_pcs (tp_qs s') = (\<lambda>_. None) \<and> tp_started s' = [101, 102]"
    using cs(2-4) by (simp add: s_def shutdown_trace_def tp_exec nth_list_update pc only_worker_def [of _ 0])
  then show ?thesis
    using run by (elim exE conjE) (rule that [of s]; simp add: s_def queued_count_def size_approx_def)
qed

text \<open>
  The lost wake-up. A worker that spends a permit while the next position is claimed but not yet
  published finds no task and goes back to sleep; when the producers are done one task is left in the
  queue without a permit, and no step of the pool starts it. At shutdown the worker's only permit goes
  to that task, so the worker sleeps forever and the join does not return.
\<close>

theorem lost_wakeup:
  "\<exists>s s'. tp_run id lost_wakeup_trace (new_thread_pool 0 hardware 1) = Some s \<and>
     tp_pc s = only_worker Sleeping \<and> tasks_available s = 0 \<and> queued_count s = 1 \<and>
     tp_submitted s = [101, 102] \<and> tp_started s = [101] \<and>
     (\<forall>a s1. tp_step id a s = Some s1 \<longrightarrow> (\<exists>i t. a = Enqueue i t) \<or> a = RequestStop) \<and>
     tp_run id shutdown_trace s = Some s' \<and> \<not> joined s' \<and>
     (\<forall>a s1. tp_step id a s' = Some s1 \<longrightarrow> (\<exists>i t. a = Enqueue i t))"
proof -
  obtain s s' where s: "tp_run id lost_wakeup_trace (new_thread_pool 0 hardware 1) = Some s"
    "tp_pc s = only_worker Sleeping" "tasks_available s = 0" "queued_count s = 1"
    "tp_submitted s = [101, 102]" "tp_started s = [101]" "qs_pcs (tp_qs s) = (\<lambda>_. None)" "stops s \<noteq> num_workers s"
    and s': "tp_run id shutdown_trace s = Some s'" "tp_pc s' = only_worker Sleeping" "tasks_available s' = 0"
    "woken s'" "stops s' = 1" "num_workers s' = 1" "qs_pcs (tp_qs s') = (\<lambda>_. None)"
    by (rule lost_wakeup_states)
  have stuck: "(\<exists>i t. a = Enqueue i t) \<or> a = RequestStop \<or> a = WakeWorkers"
    if "tp_pc r = only_worker Sleeping" "tasks_available r = 0" "qs_pcs (tp_qs r) = (\<lambda>_. None)" "tp_step id a r = Some s1"
    for a r s1
    using that by (cases a) (auto simp: tp_exec only_worker_def split: if_splits)
  have "\<not> joined s'" by (simp add: joined_def s' only_worker_def)
  moreover have "\<exists>i t. a = Enqueue i t" if "tp_step id a s' = Some s1" for a s1
    using stuck [OF s'(2,3,7) that] that s'(4-6) by (auto simp: destroy_request_stop_def destroy_release_def)
  moreover have "(\<exists>i t. a = Enqueue i t) \<or> a = RequestStop" if "tp_step id a s = Some s1" for a s1
    using stuck [OF s(2,3,7) that] that s(8) by (auto simp: destroy_release_def)
  ultimately show ?thesis using s s'(1) by blast
qed

section \<open>Properties\<close>

lemma taken_subset_log:
  assumes "taken_inv q" "deq (qs_queue q) \<le> length (qs_log q)"
  shows "mset (map snd (qs_taken q)) \<subseteq># mset (qs_log q)"
proof -
  let ?t = "qs_taken q" and ?l = "qs_log q"
  have "um_keys ?t \<subseteq> {..<deq (qs_queue q)}" using assms(1) unfolding taken_inv_def by blast
  then have t: "distinct (map fst ?t)" "\<forall>(p, v) \<in> set ?t. v = ?l ! p" "set (map fst ?t) \<subseteq> {..<length ?l}"
    using assms by (simp_all add: taken_inv_def subset_iff) fastforce
  have "map snd ?t = map ((!) ?l) (map fst ?t)" using t(2) by auto
  moreover have "mset (map fst ?t) \<subseteq># mset [0..<length ?l]"
  proof -
    have "mset (map fst ?t) = mset_set (set (map fst ?t))" using t(1) by (rule mset_set_set [symmetric])
    also have "\<dots> \<subseteq># mset_set {..<length ?l}" using t(3) by (intro subset_imp_msubset_mset_set) simp_all
    finally show ?thesis by (simp add: mset_set_set [symmetric] lessThan_atLeast0)
  qed
  moreover have "map ((!) ?l) [0..<length ?l] = ?l" by (rule map_nth)
  ultimately show ?thesis by (metis image_mset_subseteq_mono mset_map)
qed

lemma busy_count:
  assumes "few (per_thread busy s)"
  shows "over_threads (per_thread busy s) = card {i. \<exists>t. tp_pc s i = Running t}"
proof -
  have "per_thread busy s i \<noteq> 0 \<longleftrightarrow> (\<exists>t. tp_pc s i = Running t)" for i by (cases "tp_pc s i") (simp_all add: busy_def)
  then have e: "{i. per_thread busy s i \<noteq> 0} = {i. \<exists>t. tp_pc s i = Running t}" by simp
  have "over_threads (per_thread busy s) = (\<Sum>i \<in> {i. \<exists>t. tp_pc s i = Running t}. 1)"
    unfolding over_threads_def e by (rule sum.cong) (auto simp: busy_def)
  then show ?thesis by simp
qed

lemma no_calls_nothing_held:
  fixes s :: "'a ThreadPool"
  assumes "qs_pcs (tp_qs s) = (\<lambda>_. None)"
  shows "over_threads (per_thread waiting s) = {#}" "over_threads (per_thread in_hand s) = {#}"
    "(\<forall>i. tp_pc s i \<noteq> Releasing) \<Longrightarrow> over_threads (per_thread owed s) = 0"
proof -
  have z: "waiting t None = {#}" "in_hand t None = {#}" "t \<noteq> Releasing \<Longrightarrow> owed t None = 0" for t :: "'a tpc"
    by (cases t; simp add: holdings)+
  show "over_threads (per_thread waiting s) = {#}" "over_threads (per_thread in_hand s) = {#}"
    "(\<forall>i. tp_pc s i \<noteq> Releasing) \<Longrightarrow> over_threads (per_thread owed s) = 0"
    by (simp_all add: over_threads_def assms z)
qed

lemma queue_length:
  assumes "qsys_inv c n q"
  shows "unat (size_approx (qs_queue q)) = enq (qs_queue q) - deq (qs_queue q)" "deq (qs_queue q) \<le> enq (qs_queue q)"
    "length (qs_log q) = enq (qs_queue q)"
  using queue_invD(2,5) [of "qs_log q" "qs_queue q"] assms
  by (auto simp: qsys_inv_def size_approx_def word_le_nat_alt unat_sub)

lemma workers_reach_inv:
  assumes "tp_run moved as (new_thread_pool dflt hardware k) = Some s" "length as < 2 ^ 60"
  shows "tp_inv (2 * length as) s"
  using tp_run_inv [OF assms(1) new_thread_pool_inv] assms(2) by simp

text \<open>
  C24. No task is run twice or made up, whatever the interleaving of producers, workers and shutdown: the
  tasks started are among the tasks submitted, each as often at most as it was submitted, and when
  the queue is empty and no thread is inside a queue operation they are exactly the tasks submitted.
  The active count is the number of workers inside a task.
\<close>

theorem pool_runs_each_task_once:
  assumes "tp_run moved as (new_thread_pool dflt hardware k) = Some s" "length as < 2 ^ 60"
  shows "mset (tp_started s) \<subseteq># mset (tp_submitted s) \<and>
    (queued_count s = 0 \<and> qs_pcs (tp_qs s) = (\<lambda>_. None) \<longrightarrow> mset (tp_started s) = mset (tp_submitted s)) \<and>
    active_count s = of_nat (card {i. \<exists>t. tp_pc s i = Running t})"
proof (intro conjI impI; (elim conjE)?)
  note inv = workers_reach_inv [OF assms]
  let ?q = "tp_qs s"
  have b: "mset (tp_submitted s) = mset (qs_log ?q) + over_threads (per_thread waiting s)"
    "mset (map snd (qs_taken ?q)) = mset (tp_started s) + over_threads (per_thread in_hand s)"
    "active_tasks s = of_nat (over_threads (per_thread busy s))" "few (per_thread busy s)"
    and q: "qsys_inv QUEUE_CAPACITY (2 * length as) ?q" "taken_inv ?q"
    using inv by (auto simp: tp_inv_def qsys_inv_def)
  note len = queue_length [OF q(1)]
  have sub: "mset (map snd (qs_taken ?q)) \<subseteq># mset (qs_log ?q)" using taken_subset_log [OF q(2)] len by simp
  show "mset (tp_started s) \<subseteq># mset (tp_submitted s)"
    using sub unfolding b(1,2) by (meson mset_subset_eq_add_left subset_mset.order_trans)
  show "active_count s = of_nat (card {i. \<exists>t. tp_pc s i = Running t})"
    using b(3) busy_count [OF b(4)] by (simp add: active_count_def)
  show "mset (tp_started s) = mset (tp_submitted s)" if "queued_count s = 0" "qs_pcs ?q = (\<lambda>_. None)"
  proof -
    have e: "deq (qs_queue ?q) = length (qs_log ?q)" using that(1) len by (simp add: queued_count_def)
    have "readers (qs_pcs ?q) = {}" by (simp add: readers_def holds_def that(2))
    from mset_taken [OF q(2) this] have "mset (map snd (qs_taken ?q)) = mset (qs_log ?q)" using e by simp
    then show ?thesis using b(1,2) no_calls_nothing_held(1,2) [OF that(2)] by simp
  qed
qed

theorem pool_runs_each_task_once_witness:
  "\<exists>s. tp_run id (lost_wakeup_trace @ shutdown_trace) (new_thread_pool (0::nat) 0 1) = Some s \<and>
     mset (tp_started s) \<subseteq># mset (tp_submitted s) \<and> tp_started s = [101, 102]"
proof -
  obtain s s' where "tp_run id lost_wakeup_trace (new_thread_pool 0 0 1) = Some s" "tp_run id shutdown_trace s = Some s'"
    "tp_started s' = [101, 102]" by (rule lost_wakeup_states)
  then have run: "tp_run id (lost_wakeup_trace @ shutdown_trace) (new_thread_pool 0 0 1) = Some s'"
    and "tp_started s' = [101, 102]" by (simp_all add: tp_run_append)
  then show ?thesis
    using pool_runs_each_task_once [OF run] by (simp add: lost_wakeup_trace_def push_trace_def shutdown_trace_def)
qed

text \<open>
  C25. The permits and the queue: until the destructor releases its own, whenever no thread is in a queue
  operation or between its push and its release, the queue holds as many tasks as there are permits
  plus the pops that found nothing. So a task that is queued has a permit unless a pop was refused.
\<close>

theorem pool_permits:
  assumes "tp_run moved as (new_thread_pool dflt hardware k) = Some s" "length as < 2 ^ 60"
    and "\<not> woken s" "qs_pcs (tp_qs s) = (\<lambda>_. None)" "\<forall>i. tp_pc s i \<noteq> Releasing"
  shows "unat (queued_count s) = tasks_available s + tp_refused s"
proof -
  note inv = workers_reach_inv [OF assms(1,2)]
  then have "enq (qs_queue (tp_qs s)) = deq (qs_queue (tp_qs s)) + tasks_available s + tp_refused s"
    using assms(3) no_calls_nothing_held(3) [OF assms(4,5)] by (simp add: tp_inv_def)
  then show ?thesis using queue_length [OF tp_invD(1) [OF inv]] by (simp add: queued_count_def)
qed

theorem pool_permits_witness:
  "\<exists>s. tp_run id lost_wakeup_trace (new_thread_pool (0::nat) 0 1) = Some s \<and>
     unat (queued_count s) = tasks_available s + tp_refused s \<and> tp_refused s = 1"
proof -
  obtain s where s: "tp_run id lost_wakeup_trace (new_thread_pool 0 0 1) = Some s" "\<not> woken s"
    "qs_pcs (tp_qs s) = (\<lambda>_. None)" "tp_pc s = only_worker Sleeping" "tp_refused s = 1" by (rule lost_wakeup_states)
  then show ?thesis
    using pool_permits [OF s(1) _ s(2,3)] by (simp add: only_worker_def lost_wakeup_trace_def push_trace_def)
qed

end
