(* ===== verification/Cluster_Manager.thy ===== *)
theory Cluster_Manager
  imports Scheduler
begin

text \<open>
  The mutable home of peer state (\<^verbatim>\<open>src/network/cluster_view.cpp\<close>). Every operation runs under the lock
  of the manager, so each is one step on the map.
\<close>

section \<open>Operations\<close>

record ClusterViewManager =
  cm_peers :: "(NodeId, PeerInfo) umap"

definition empty_manager :: ClusterViewManager where
  "empty_manager = \<lparr>cm_peers = []\<rparr>"

text \<open>The value \<^verbatim>\<open>peers_[id]\<close> creates for a new key.\<close>

definition default_peer :: PeerInfo where
  "default_peer = \<lparr>p_node_id = [], p_resources = default_snapshot, p_address = [], p_tcp_port = 0, p_reachable = True\<rparr>"

definition update_peer_resources :: "NodeId \<Rightarrow> ResourceSnapshot \<Rightarrow> ClusterViewManager \<Rightarrow> ClusterViewManager" where
  "update_peer_resources i snapshot m =
     m\<lparr>cm_peers := AList.update i
         ((um_get default_peer (cm_peers m) i)\<lparr>p_node_id := i, p_resources := snapshot, p_reachable := True\<rparr>)
         (cm_peers m)\<rparr>"

definition update_peer :: "PeerInfo \<Rightarrow> ClusterViewManager \<Rightarrow> ClusterViewManager" where
  "update_peer info m = m\<lparr>cm_peers := AList.update (p_node_id info) info (cm_peers m)\<rparr>"

definition mark_unreachable :: "NodeId \<Rightarrow> ClusterViewManager \<Rightarrow> ClusterViewManager" where
  "mark_unreachable i m = (case map_of (cm_peers m) i of
     None \<Rightarrow> m | Some info \<Rightarrow> m\<lparr>cm_peers := AList.update i (info\<lparr>p_reachable := False\<rparr>) (cm_peers m)\<rparr>)"

definition remove_peer :: "NodeId \<Rightarrow> ClusterViewManager \<Rightarrow> ClusterViewManager" where
  "remove_peer i m = m\<lparr>cm_peers := AList.delete i (cm_peers m)\<rparr>"

definition cm_clear :: "ClusterViewManager \<Rightarrow> ClusterViewManager" where
  "cm_clear m = m\<lparr>cm_peers := []\<rparr>"

definition cm_snapshot :: "(NodeId list \<Rightarrow> NodeId list) \<Rightarrow> ClusterViewManager \<Rightarrow> ClusterView" where
  "cm_snapshot ord m = \<lparr>peers = filter p_reachable (map snd (traverse ord (cm_peers m)))\<rparr>"

definition available_peers :: "(NodeId list \<Rightarrow> NodeId list) \<Rightarrow> ClusterViewManager \<Rightarrow> NodeId list" where
  "available_peers ord m = map fst (filter (\<lambda>(_, info). p_reachable info) (traverse ord (cm_peers m)))"

definition peer_info :: "NodeId \<Rightarrow> ClusterViewManager \<Rightarrow> PeerInfo option" where
  "peer_info i m = (case map_of (cm_peers m) i of
     None \<Rightarrow> None | Some info \<Rightarrow> if p_reachable info then Some info else None)"

definition peer_resources :: "NodeId \<Rightarrow> ClusterViewManager \<Rightarrow> ResourceSnapshot option" where
  "peer_resources i m = (case map_of (cm_peers m) i of
     None \<Rightarrow> None | Some info \<Rightarrow> if p_reachable info then Some (p_resources info) else None)"

definition cluster_size :: "ClusterViewManager \<Rightarrow> nat" where
  "cluster_size m = length (cm_peers m)"

definition has_peer :: "NodeId \<Rightarrow> ClusterViewManager \<Rightarrow> bool" where
  "has_peer i m \<longleftrightarrow> map_of (cm_peers m) i \<noteq> None"

section \<open>Invariant\<close>

text \<open>Keys are distinct and every entry carries its own key.\<close>

definition manager_inv :: "ClusterViewManager \<Rightarrow> bool" where
  "manager_inv m \<longleftrightarrow> um_ok (cm_peers m) \<and> (\<forall>i info. map_of (cm_peers m) i = Some info \<longrightarrow> p_node_id info = i)"

datatype manager_op =
    UpdateResources NodeId ResourceSnapshot | UpdatePeer PeerInfo | MarkUnreachable NodeId | RemovePeer NodeId | Clear

fun run_manager_op :: "manager_op \<Rightarrow> ClusterViewManager \<Rightarrow> ClusterViewManager" where
  "run_manager_op (UpdateResources i s) = update_peer_resources i s"
| "run_manager_op (UpdatePeer info) = update_peer info"
| "run_manager_op (MarkUnreachable i) = mark_unreachable i"
| "run_manager_op (RemovePeer i) = remove_peer i"
| "run_manager_op Clear = cm_clear"

lemma um_ok_delete: "um_ok m \<Longrightarrow> um_ok (AList.delete k m)"
  by (simp add: distinct_delete)

lemma map_of_delete: "map_of (AList.delete k m) = (map_of m)(k := None)"
  by (rule delete_conv')

lemmas manager_defs = update_peer_resources_def update_peer_def mark_unreachable_def remove_peer_def cm_clear_def

lemma manager_op_inv: "manager_inv m \<Longrightarrow> manager_inv (run_manager_op op m)"
  by (cases op)
    (auto simp: manager_inv_def manager_defs umap_simps um_ok_update um_ok_delete map_of_delete
      simp del: map_of_eq_Some_iff split: option.splits if_splits)

lemma manager_history_inv: "manager_inv (fold run_manager_op ops empty_manager)"
proof -
  have "manager_inv m \<Longrightarrow> manager_inv (fold run_manager_op ops m)" for m
    by (induction ops arbitrary: m) (simp_all add: manager_op_inv)
  moreover have "manager_inv empty_manager" by (simp add: manager_inv_def empty_manager_def)
  ultimately show ?thesis by blast
qed

section \<open>The view the schedulers get\<close>

lemma in_snapshot_iff:
  assumes "order_ok ord" "manager_inv m"
  shows "info \<in> set (peers (cm_snapshot ord m)) \<longleftrightarrow> peer_info (p_node_id info) m = Some info"
proof -
  have ok: "um_ok (cm_peers m)" using assms(2) by (simp add: manager_inv_def)
  have "set (traverse ord (cm_peers m)) = set (cm_peers m)" using assms(1) ok by (rule set_traverse)
  then have "set (map snd (traverse ord (cm_peers m))) = {info. \<exists>i. map_of (cm_peers m) i = Some info}"
    using ok by force
  then have "info \<in> set (peers (cm_snapshot ord m)) \<longleftrightarrow>
      p_reachable info \<and> (\<exists>i. map_of (cm_peers m) i = Some info)"
    by (auto simp: cm_snapshot_def)
  also have "\<dots> \<longleftrightarrow> peer_info (p_node_id info) m = Some info"
    using assms(2) by (auto simp: manager_inv_def peer_info_def simp del: map_of_eq_Some_iff split: option.splits if_splits)
  finally show ?thesis .
qed

lemma snapshot_ids:
  assumes "order_ok ord" "manager_inv m"
  shows "map p_node_id (peers (cm_snapshot ord m)) = available_peers ord m"
    and "distinct (available_peers ord m)"
proof -
  have eq: "p_node_id (the (map_of (cm_peers m) i)) = i" if "i \<in> set (map fst (cm_peers m))" for i
    using that assms(2) by (auto simp: manager_inv_def fst_image_set in_um_keys_iff simp del: map_of_eq_Some_iff)
  have "map (p_node_id \<circ> snd) (filter (\<lambda>(_, info). p_reachable info) (traverse ord (cm_peers m))) =
      map fst (filter (\<lambda>(_, info). p_reachable info) (traverse ord (cm_peers m)))"
    using eq assms(1) by (auto simp: traverse_def)
  then show "map p_node_id (peers (cm_snapshot ord m)) = available_peers ord m"
    by (simp add: cm_snapshot_def available_peers_def filter_map comp_def case_prod_unfold)
  show "distinct (available_peers ord m)"
    using assms by (auto simp: available_peers_def traverse_def filter_map comp_def manager_inv_def intro!: distinct_filter)
qed

section \<open>Properties\<close>

text \<open>
  After any history of updates the view handed to the schedulers lists exactly the peers that
  \<^verbatim>\<open>peer_info\<close> resolves, each once: no peer that was marked unreachable, removed or never added.
\<close>

theorem snapshot_exact:
  assumes "order_ok ord" "m = fold run_manager_op ops empty_manager"
  shows "distinct (map p_node_id (peers (cm_snapshot ord m))) \<and>
    (\<forall>info. info \<in> set (peers (cm_snapshot ord m)) \<longleftrightarrow> peer_info (p_node_id info) m = Some info) \<and>
    available_count (cm_snapshot ord m) = length (available_peers ord m)"
proof -
  have inv: "manager_inv m" unfolding assms(2) by (rule manager_history_inv)
  have "length (peers (cm_snapshot ord m)) = length (available_peers ord m)"
    using arg_cong [OF snapshot_ids(1) [OF assms(1) inv], of length] by simp
  moreover have "available_count (cm_snapshot ord m) = length (peers (cm_snapshot ord m))"
    by (simp add: available_count_def cm_snapshot_def)
  ultimately show ?thesis
    using snapshot_ids [OF assms(1) inv] in_snapshot_iff [OF assms(1) inv] by simp
qed

definition sample_peer :: "NodeId \<Rightarrow> PeerInfo" where
  "sample_peer i = default_peer\<lparr>p_node_id := i, p_address := ''10.0.0.2'', p_tcp_port := 5201\<rparr>"

definition sample_manager_ops :: "manager_op list" where
  "sample_manager_ops = [UpdatePeer (sample_peer ''a''), UpdatePeer (sample_peer ''b''), MarkUnreachable ''a'']"

lemma sample_view: "map p_node_id (peers (cm_snapshot rev (fold run_manager_op sample_manager_ops empty_manager))) = [''b'']"
  by code_simp

theorem snapshot_exact_witness:
  "distinct (map p_node_id (peers (cm_snapshot rev (fold run_manager_op sample_manager_ops empty_manager)))) \<and>
   map p_node_id (peers (cm_snapshot rev (fold run_manager_op sample_manager_ops empty_manager))) = [''b'']"
  using snapshot_exact [OF order_ok_rev refl, of sample_manager_ops] sample_view by blast

end
