(* ===== verification/Peer_Discovery.thy ===== *)
theory Peer_Discovery
  imports Wire Cluster_Manager
begin

text \<open>
  Peer discovery over UDP (\<^verbatim>\<open>src/network/peer_discovery.cpp\<close>): the 72-byte advertisement, the bookkeeping of
  the listener and eviction threads, and the callbacks through which the orchestrator keeps its
  cluster view. A datagram, a clock reading and an address are inputs of the operations.
\<close>

section \<open>State\<close>

record PeerRecord =
  pr_info :: PeerInfo
  last_seen :: int

text \<open>\<open>'w\<close> is whatever the callbacks act on.\<close>

record 'w PeerDiscovery =
  pd_node_id :: NodeId
  pd_tcp_port :: u16
  discovery_port :: u16
  pd_heartbeat_ms :: u32
  pd_timeout_ms :: u32
  broadcast_fd :: int
  listen_fd :: int
  pd_threads :: bool
  local_resources :: ResourceSnapshot
  known_peers :: "(NodeId, PeerRecord) umap"
  on_discovered :: "(PeerInfo \<Rightarrow> 'w \<Rightarrow> 'w) list"
  on_lost :: "(PeerInfo \<Rightarrow> 'w \<Rightarrow> 'w) list"

definition new_discovery :: "NodeId \<Rightarrow> u16 \<Rightarrow> u16 \<Rightarrow> u32 \<Rightarrow> u32 \<Rightarrow> 'w PeerDiscovery" where
  "new_discovery self tcp_port disc_port heartbeat timeout =
     \<lparr>pd_node_id = self, pd_tcp_port = tcp_port, discovery_port = disc_port,
      pd_heartbeat_ms = heartbeat, pd_timeout_ms = timeout, broadcast_fd = -1, listen_fd = -1,
      pd_threads = False, local_resources = default_snapshot\<lparr>node_id := self\<rparr>,
      known_peers = [], on_discovered = [], on_lost = []\<rparr>"

definition on_peer_discovered :: "(PeerInfo \<Rightarrow> 'w \<Rightarrow> 'w) \<Rightarrow> 'w PeerDiscovery \<Rightarrow> 'w PeerDiscovery" where
  "on_peer_discovered cb d = d\<lparr>on_discovered := on_discovered d @ [cb]\<rparr>"

definition on_peer_lost :: "(PeerInfo \<Rightarrow> 'w \<Rightarrow> 'w) \<Rightarrow> 'w PeerDiscovery \<Rightarrow> 'w PeerDiscovery" where
  "on_peer_lost cb d = d\<lparr>on_lost := on_lost d @ [cb]\<rparr>"

definition update_local_resources :: "ResourceSnapshot \<Rightarrow> 'w PeerDiscovery \<Rightarrow> 'w PeerDiscovery" where
  "update_local_resources snapshot d = d\<lparr>local_resources := snapshot\<rparr>"

definition known_peer_count :: "'w PeerDiscovery \<Rightarrow> nat" where
  "known_peer_count d = length (known_peers d)"

section \<open>Sockets\<close>

text \<open>
  What the operating system answers to \<^verbatim>\<open>start\<close>: the two descriptors (negative on failure) and
  whether \<^verbatim>\<open>bind\<close> succeeds. The second component of the result lists the descriptors closed.
\<close>

record DiscoverySockets =
  os_broadcast :: int
  os_listen :: int
  os_bind_ok :: bool

definition discovery_start :: "DiscoverySockets \<Rightarrow> 'w PeerDiscovery \<Rightarrow> 'w PeerDiscovery \<times> int list" where
  "discovery_start os d =
     (if os_broadcast os < 0 then (d\<lparr>broadcast_fd := os_broadcast os\<rparr>, [])
      else if os_listen os < 0
      then (d\<lparr>broadcast_fd := -1, listen_fd := os_listen os\<rparr>, [os_broadcast os])
      else if \<not> os_bind_ok os
      then (d\<lparr>broadcast_fd := -1, listen_fd := -1\<rparr>, [os_broadcast os, os_listen os])
      else (d\<lparr>broadcast_fd := os_broadcast os, listen_fd := os_listen os, pd_threads := True\<rparr>, []))"

definition discovery_stop :: "'w PeerDiscovery \<Rightarrow> 'w PeerDiscovery \<times> int list" where
  "discovery_stop d =
     (d\<lparr>pd_threads := False, broadcast_fd := (if broadcast_fd d \<ge> 0 then -1 else broadcast_fd d),
        listen_fd := (if listen_fd d \<ge> 0 then -1 else listen_fd d)\<rparr>,
      filter (\<lambda>fd. 0 \<le> fd) [broadcast_fd d, listen_fd d])"

section \<open>The advertisement\<close>

definition MAGIC :: "u8 list" where
  "MAGIC = map char_byte ''EORC''"

definition PROTOCOL_VERSION :: u8 where
  "PROTOCOL_VERSION = 2"

definition float_to_wire :: "f32 \<Rightarrow> u8 list" where
  "float_to_wire v = htobe32 (float_to_bits v)"

definition float_from_wire :: "u8 list \<Rightarrow> f32" where
  "float_from_wire bs = float_from_bits (be32toh bs)"

text \<open>The node id: at most 31 characters, padded with zeros to 32 bytes.\<close>

definition padded_id :: "NodeId \<Rightarrow> u8 list" where
  "padded_id i = (let n = min (length i) 31 in map char_byte (take n i) @ replicate (32 - n) 0)"

definition build_advert :: "'w PeerDiscovery \<Rightarrow> u8 list" where
  "build_advert d =
     MAGIC @ [PROTOCOL_VERSION] @ [0, 0, 0] @ padded_id (pd_node_id d) @ htobe16 (pd_tcp_port d) @ [0, 0] @
     float_to_wire (cpu_usage_percent (local_resources d)) @
     htobe64 (memory_available_bytes (local_resources d)) @
     htobe64 (memory_total_bytes (local_resources d)) @
     float_to_wire (cpu_temperature_celsius (local_resources d)) @
     htobe32 (if is_throttled (local_resources d) then 1 else 0)"

definition field :: "nat \<Rightarrow> nat \<Rightarrow> u8 list \<Rightarrow> u8 list" where
  "field offset n pkt = take n (drop offset pkt)"

definition parse_advert :: "Timestamp \<Rightarrow> string \<Rightarrow> u8 list \<Rightarrow> PeerInfo" where
  "parse_advert now sender_addr pkt =
     (let i = map byte_char (takeWhile (\<lambda>b. b \<noteq> 0) (field 8 32 pkt))
      in \<lparr>p_node_id = i,
          p_resources = default_snapshot\<lparr>node_id := i, timestamp := now,
            cpu_usage_percent := float_from_wire (field 44 4 pkt),
            memory_available_bytes := be64toh (field 48 8 pkt),
            memory_total_bytes := be64toh (field 56 8 pkt),
            cpu_temperature_celsius := float_from_wire (field 64 4 pkt),
            is_throttled := odd (unat (be32toh (field 68 4 pkt)))\<rparr>,
          p_address = sender_addr, p_tcp_port = be16toh (field 40 2 pkt), p_reachable = True\<rparr>)"

text \<open>One round of the broadcast thread: the datagram it sends, if its socket is open.\<close>

definition broadcast_round :: "'w PeerDiscovery \<Rightarrow> u8 list option" where
  "broadcast_round d = (if broadcast_fd d \<ge> 0 then Some (build_advert d) else None)"

section \<open>The listener thread\<close>

text \<open>
  \<^verbatim>\<open>recvfrom\<close> fills a buffer of 72 bytes, cutting a longer datagram. The answer is the peer whose
  advertisement passed every check.
\<close>

definition accept_datagram :: "Timestamp \<Rightarrow> string \<Rightarrow> u8 list \<Rightarrow> 'w PeerDiscovery \<Rightarrow> PeerInfo option" where
  "accept_datagram sysnow sender_ip datagram d =
     (let pkt = take 72 datagram
      in if length pkt \<noteq> 72 then None
         else if field 0 4 pkt \<noteq> MAGIC then None
         else if pkt ! 4 \<noteq> PROTOCOL_VERSION then None
         else let peer = parse_advert sysnow sender_ip pkt
              in if p_node_id peer = pd_node_id d then None else Some peer)"

text \<open>The critical section; the flag says whether the peer is new.\<close>

definition remember_peer :: "int \<Rightarrow> PeerInfo \<Rightarrow> 'w PeerDiscovery \<Rightarrow> 'w PeerDiscovery \<times> bool" where
  "remember_peer now peer d =
     (d\<lparr>known_peers := AList.update (p_node_id peer) \<lparr>pr_info = peer, last_seen = now\<rparr> (known_peers d)\<rparr>,
      map_of (known_peers d) (p_node_id peer) = None)"

definition notify_discovered :: "PeerInfo \<Rightarrow> 'w PeerDiscovery \<Rightarrow> 'w \<Rightarrow> 'w" where
  "notify_discovered peer d w = fold (\<lambda>cb. cb peer) (on_discovered d) w"

definition notify_lost :: "PeerInfo \<Rightarrow> 'w PeerDiscovery \<Rightarrow> 'w \<Rightarrow> 'w" where
  "notify_lost peer d w = fold (\<lambda>cb. cb peer) (on_lost d) w"

section \<open>The eviction thread\<close>

definition expired :: "int \<Rightarrow> 'w PeerDiscovery \<Rightarrow> PeerRecord \<Rightarrow> bool" where
  "expired now d r \<longleftrightarrow> now - last_seen r > int (unat (pd_timeout_ms d)) * 1000000"

definition evict_known ::
  "(NodeId list \<Rightarrow> NodeId list) \<Rightarrow> int \<Rightarrow> 'w PeerDiscovery \<Rightarrow> 'w PeerDiscovery \<times> PeerInfo list" where
  "evict_known ord now d =
     (d\<lparr>known_peers := filter (\<lambda>(_, r). \<not> expired now d r) (known_peers d)\<rparr>,
      map (pr_info \<circ> snd) (filter (\<lambda>(_, r). expired now d r) (traverse ord (known_peers d))))"

section \<open>The threads together\<close>

text \<open>
  The listener and the eviction thread hold the lock while they change the table and have released it
  when they call the callbacks. A thread that has left its critical section still holds the
  notifications it owes: \<open>ds_heard\<close> is the listener's, \<open>ds_evicted\<close> the eviction thread's.
\<close>

record 'w DiscSystem =
  ds_disc :: "'w PeerDiscovery"
  ds_world :: 'w
  ds_heard :: "PeerInfo option"
  ds_evicted :: "PeerInfo list"

text \<open>A pass of the listener that received a datagram, up to the end of its critical section.\<close>

definition hear :: "int \<Rightarrow> Timestamp \<Rightarrow> string \<Rightarrow> u8 list \<Rightarrow> 'w DiscSystem \<Rightarrow> 'w DiscSystem option" where
  "hear now sysnow sender_ip datagram s =
     (if ds_heard s \<noteq> None then None
      else case accept_datagram sysnow sender_ip datagram (ds_disc s) of
        None \<Rightarrow> Some s
      | Some peer \<Rightarrow> (case remember_peer now peer (ds_disc s) of (d', is_new) \<Rightarrow>
          Some (s\<lparr>ds_disc := d', ds_heard := (if is_new then Some peer else None)\<rparr>)))"

definition tell_discovered :: "'w DiscSystem \<Rightarrow> 'w DiscSystem option" where
  "tell_discovered s = (case ds_heard s of None \<Rightarrow> None
     | Some peer \<Rightarrow> Some (s\<lparr>ds_world := notify_discovered peer (ds_disc s) (ds_world s), ds_heard := None\<rparr>))"

text \<open>A pass of the eviction thread up to the end of its critical section, and one notification after it.\<close>

definition sweep :: "(NodeId list \<Rightarrow> NodeId list) \<Rightarrow> int \<Rightarrow> 'w DiscSystem \<Rightarrow> 'w DiscSystem option" where
  "sweep ord now s =
     (if ds_evicted s \<noteq> [] then None
      else case evict_known ord now (ds_disc s) of (d', gone) \<Rightarrow> Some (s\<lparr>ds_disc := d', ds_evicted := gone\<rparr>))"

definition tell_lost :: "'w DiscSystem \<Rightarrow> 'w DiscSystem option" where
  "tell_lost s = (case ds_evicted s of [] \<Rightarrow> None
     | peer # rest \<Rightarrow> Some (s\<lparr>ds_world := notify_lost peer (ds_disc s) (ds_world s), ds_evicted := rest\<rparr>))"

datatype disc_step = Hear int Timestamp string "u8 list" | TellDiscovered | Sweep int | TellLost

fun disc_step_run :: "(NodeId list \<Rightarrow> NodeId list) \<Rightarrow> disc_step \<Rightarrow> 'w DiscSystem \<Rightarrow> 'w DiscSystem option" where
  "disc_step_run ord (Hear now sysnow ip datagram) s = hear now sysnow ip datagram s"
| "disc_step_run ord TellDiscovered s = tell_discovered s"
| "disc_step_run ord (Sweep now) s = sweep ord now s"
| "disc_step_run ord TellLost s = tell_lost s"

fun disc_run :: "(NodeId list \<Rightarrow> NodeId list) \<Rightarrow> disc_step list \<Rightarrow> 'w DiscSystem \<Rightarrow> 'w DiscSystem option" where
  "disc_run ord [] s = Some s"
| "disc_run ord (a # as) s = (case disc_step_run ord a s of None \<Rightarrow> None | Some s' \<Rightarrow> disc_run ord as s')"

definition system_of :: "'w PeerDiscovery \<Rightarrow> 'w \<Rightarrow> 'w DiscSystem" where
  "system_of d w = \<lparr>ds_disc = d, ds_world = w, ds_heard = None, ds_evicted = []\<rparr>"

section \<open>Round trip of the advertisement\<close>

lemma length_padded_id [simp]: "length (padded_id i) = 32"
  by (simp add: padded_id_def Let_def)

lemma length_advert [simp]: "length (build_advert d) = 72"
  by (simp add: build_advert_def MAGIC_def float_to_wire_def)

lemma float_wire [simp]: "representable x \<Longrightarrow> float_from_wire (float_to_wire x) = x"
  by (simp add: float_from_wire_def float_to_wire_def)

lemma advert_fields:
  fixes d :: "'w PeerDiscovery"
  shows "field 0 4 (build_advert d) = MAGIC" "build_advert d ! 4 = PROTOCOL_VERSION"
    "field 8 32 (build_advert d) = padded_id (pd_node_id d)"
    "field 40 2 (build_advert d) = htobe16 (pd_tcp_port d)"
    "field 44 4 (build_advert d) = float_to_wire (cpu_usage_percent (local_resources d))"
    "field 48 8 (build_advert d) = htobe64 (memory_available_bytes (local_resources d))"
    "field 56 8 (build_advert d) = htobe64 (memory_total_bytes (local_resources d))"
    "field 64 4 (build_advert d) = float_to_wire (cpu_temperature_celsius (local_resources d))"
    "field 68 4 (build_advert d) = htobe32 (if is_throttled (local_resources d) then 1 else 0)"
  by (simp_all add: field_def build_advert_def MAGIC_def float_to_wire_def nth_append)

lemma id_on_wire:
  assumes "CHR 0x00 \<notin> set i"
  shows "map byte_char (takeWhile (\<lambda>b. b \<noteq> 0) (padded_id i)) = take 31 i"
proof -
  have nz: "b \<noteq> 0" if "b \<in> set (map char_byte (take 31 i))" for b
    using assms that by (auto simp: char_byte_zero_iff dest: in_set_takeD)
  have "padded_id i = map char_byte (take 31 i) @ 0 # replicate (31 - min (length i) 31) 0"
  proof -
    have "32 - min (length i) 31 = Suc (31 - min (length i) 31)" by linarith
    then show ?thesis by (simp add: padded_id_def Let_def min_def)
  qed
  then have "takeWhile (\<lambda>b. b \<noteq> 0) (padded_id i) = map char_byte (take 31 i)"
    using takeWhile_append2 [of "map char_byte (take 31 i)" "\<lambda>b. b \<noteq> 0", OF nz] by simp
  then show ?thesis by (simp add: comp_def)
qed

lemma parse_build:
  assumes "CHR 0x00 \<notin> set (pd_node_id d)"
    and "representable (cpu_usage_percent (local_resources d))" "representable (cpu_temperature_celsius (local_resources d))"
  shows "parse_advert now ip (build_advert d) =
    \<lparr>p_node_id = take 31 (pd_node_id d),
     p_resources = default_snapshot\<lparr>node_id := take 31 (pd_node_id d), timestamp := now,
       cpu_usage_percent := cpu_usage_percent (local_resources d),
       memory_available_bytes := memory_available_bytes (local_resources d),
       memory_total_bytes := memory_total_bytes (local_resources d),
       cpu_temperature_celsius := cpu_temperature_celsius (local_resources d),
       is_throttled := is_throttled (local_resources d)\<rparr>,
     p_address = ip, p_tcp_port = pd_tcp_port d, p_reachable = True\<rparr>"
  using assms by (simp add: parse_advert_def advert_fields id_on_wire Let_def)

lemma accept_advert:
  assumes "CHR 0x00 \<notin> set (pd_node_id d)"
  shows "accept_datagram now ip (build_advert d) receiver =
    (if take 31 (pd_node_id d) = pd_node_id receiver then None else Some (parse_advert now ip (build_advert d)))"
proof -
  have "p_node_id (parse_advert now ip (build_advert d)) = take 31 (pd_node_id d)"
    using assms by (simp add: parse_advert_def advert_fields id_on_wire Let_def)
  then show ?thesis by (simp add: accept_datagram_def advert_fields Let_def)
qed

section \<open>The cluster view behind the callbacks\<close>

text \<open>The callbacks \<^verbatim>\<open>Orchestrator::start\<close> registers, as far as they act on the cluster view.\<close>

definition wired :: "ClusterViewManager PeerDiscovery \<Rightarrow> bool" where
  "wired d \<longleftrightarrow> on_discovered d = [update_peer] \<and> on_lost d = [\<lambda>peer. remove_peer (p_node_id peer)]"

definition wire_up :: "'w PeerDiscovery \<Rightarrow> ClusterViewManager PeerDiscovery" where
  "wire_up d = on_peer_lost (\<lambda>peer. remove_peer (p_node_id peer)) (on_peer_discovered update_peer
     (new_discovery (pd_node_id d) (pd_tcp_port d) (discovery_port d) (pd_heartbeat_ms d) (pd_timeout_ms d)))"

text \<open>The notifications about peer \<open>i\<close> that are still owed.\<close>

definition owes_discovered :: "NodeId \<Rightarrow> 'w DiscSystem \<Rightarrow> bool" where
  "owes_discovered i s \<longleftrightarrow> (case ds_heard s of None \<Rightarrow> False | Some peer \<Rightarrow> p_node_id peer = i)"

definition owes_lost :: "NodeId \<Rightarrow> 'w DiscSystem \<Rightarrow> bool" where
  "owes_lost i s \<longleftrightarrow> i \<in> set (map p_node_id (ds_evicted s))"

text \<open>Runs in which the two threads never owe notifications about \<open>i\<close> at the same time.\<close>

fun run_apart :: "(NodeId list \<Rightarrow> NodeId list) \<Rightarrow> NodeId \<Rightarrow> disc_step list \<Rightarrow> 'w DiscSystem \<Rightarrow> bool" where
  "run_apart ord i [] s \<longleftrightarrow> \<not> (owes_discovered i s \<and> owes_lost i s)"
| "run_apart ord i (a # as) s \<longleftrightarrow> \<not> (owes_discovered i s \<and> owes_lost i s) \<and>
     (case disc_step_run ord a s of None \<Rightarrow> True | Some s' \<Rightarrow> run_apart ord i as s')"

definition disc_inv :: "ClusterViewManager DiscSystem \<Rightarrow> bool" where
  "disc_inv s \<longleftrightarrow> wired (ds_disc s) \<and> um_ok (known_peers (ds_disc s)) \<and>
     (\<forall>i r. map_of (known_peers (ds_disc s)) i = Some r \<longrightarrow> p_node_id (pr_info r) = i) \<and>
     distinct (map p_node_id (ds_evicted s)) \<and> pd_node_id (ds_disc s) \<notin> um_keys (known_peers (ds_disc s)) \<and>
     \<not> owes_discovered (pd_node_id (ds_disc s)) s \<and> \<not> has_peer (pd_node_id (ds_disc s)) (ds_world s)"

definition in_step :: "NodeId \<Rightarrow> ClusterViewManager DiscSystem \<Rightarrow> bool" where
  "in_step i s \<longleftrightarrow>
     (if owes_discovered i s then i \<in> um_keys (known_peers (ds_disc s)) \<and> \<not> has_peer i (ds_world s)
      else if owes_lost i s then i \<notin> um_keys (known_peers (ds_disc s)) \<and> has_peer i (ds_world s)
      else has_peer i (ds_world s) \<longleftrightarrow> i \<in> um_keys (known_peers (ds_disc s)))"

lemma has_peer_keys: "has_peer i m \<longleftrightarrow> i \<in> um_keys (cm_peers m)"
  by (simp add: has_peer_def in_um_keys_iff)

lemma has_peer_ops [simp]:
  "has_peer i (update_peer peer m) \<longleftrightarrow> i = p_node_id peer \<or> has_peer i m"
  "has_peer i (remove_peer j m) \<longleftrightarrow> i \<noteq> j \<and> has_peer i m"
  by (auto simp: has_peer_keys update_peer_def remove_peer_def umap_simps)

lemma mem_um_keys: "k \<in> um_keys m \<longleftrightarrow> (\<exists>v. (k, v) \<in> set m)"
  by (induction m) auto

lemma notify_wired:
  "wired d \<Longrightarrow> notify_discovered peer d w = update_peer peer w" "wired d \<Longrightarrow> notify_lost peer d w = remove_peer (p_node_id peer) w"
  by (simp_all add: wired_def notify_discovered_def notify_lost_def)

text \<open>Who is evicted, and who is left.\<close>

lemma evict_known_facts:
  assumes "order_ok ord" "um_ok (known_peers d)" "\<forall>i r. map_of (known_peers d) i = Some r \<longrightarrow> p_node_id (pr_info r) = i"
    and "evict_known ord now d = (d', gone)"
  shows "i \<in> set (map p_node_id gone) \<longleftrightarrow> (\<exists>r. map_of (known_peers d) i = Some r \<and> expired now d r)"
    and "map_of (known_peers d') i = Some r \<longleftrightarrow> map_of (known_peers d) i = Some r \<and> \<not> expired now d r"
    and "distinct (map p_node_id gone)" "um_ok (known_peers d')" "d' = d\<lparr>known_peers := known_peers d'\<rparr>"
proof -
  let ?k = "known_peers d"
  have d': "known_peers d' = filter (\<lambda>(_, r). \<not> expired now d r) ?k" "d' = d\<lparr>known_peers := known_peers d'\<rparr>"
    and gone: "gone = map (pr_info \<circ> snd) (filter (\<lambda>(_, r). expired now d r) (traverse ord ?k))"
    using assms(4) by (auto simp: evict_known_def)
  show "d' = d\<lparr>known_peers := known_peers d'\<rparr>" by (rule d'(2))
  show ok: "um_ok (known_peers d')" using assms(2) unfolding d'(1) by (simp add: distinct_map_filter)
  have "distinct (ord (map fst ?k))" using assms(1,2) by (simp add: order_ok_distinct)
  then have tr: "set (traverse ord ?k) = set ?k" "distinct (map fst (traverse ord ?k))" using assms(1,2) by (simp_all add: set_traverse)
  have ids: "p_node_id (pr_info r) = i" if "(i, r) \<in> set ?k" for i r using assms(2,3) that by simp
  have names: "map p_node_id gone = map fst (filter (\<lambda>(_, r). expired now d r) (traverse ord ?k))"
    unfolding gone map_map using ids tr(1) by (intro map_cong) auto
  show "distinct (map p_node_id gone)" unfolding names using tr(2) by (rule distinct_map_filter)
  show "i \<in> set (map p_node_id gone) \<longleftrightarrow> (\<exists>r. map_of ?k i = Some r \<and> expired now d r)"
    unfolding names using tr(1) assms(2) by (force simp: image_iff)
  show "map_of (known_peers d') i = Some r \<longleftrightarrow> map_of ?k i = Some r \<and> \<not> expired now d r"
    using ok assms(2) unfolding d'(1) by simp
qed

lemma hear_cases:
  assumes "hear now sysnow ip datagram s = Some s'"
  obtains (ignored) "s' = s" "ds_heard s = None"
  | (accepted) peer where "ds_heard s = None" "p_node_id peer \<noteq> pd_node_id (ds_disc s)"
      "s' = s\<lparr>ds_disc := (ds_disc s)\<lparr>known_peers := AList.update (p_node_id peer) \<lparr>pr_info = peer, last_seen = now\<rparr> (known_peers (ds_disc s))\<rparr>,
         ds_heard := (if p_node_id peer \<in> um_keys (known_peers (ds_disc s)) then None else Some peer)\<rparr>"
proof (cases "accept_datagram sysnow ip datagram (ds_disc s)")
  case None
  then show ?thesis using assms ignored by (auto simp: hear_def split: if_splits)
next
  case (Some peer)
  then have "p_node_id peer \<noteq> pd_node_id (ds_disc s)" by (auto simp: accept_datagram_def Let_def split: if_splits)
  then show ?thesis using assms Some accepted by (auto simp: hear_def remember_peer_def map_of_None_keys split: if_splits)
qed

lemma disc_step_inv:
  assumes "order_ok ord" "disc_step_run ord a s = Some s'" "disc_inv s"
  shows "disc_inv s' \<and> pd_node_id (ds_disc s') = pd_node_id (ds_disc s)"
proof (cases a)
  case (Hear now sysnow ip datagram)
  then have "hear now sysnow ip datagram s = Some s'" using assms(2) by simp
  then show ?thesis
  proof (cases rule: hear_cases)
    case (accepted peer)
    then show ?thesis using assms(3)
      by (auto simp: disc_inv_def wired_def owes_discovered_def umap_simps um_ok_update simp del: map_of_eq_Some_iff split: if_splits)
  qed (use assms(3) in simp)
next
  case TellDiscovered
  then obtain peer where "ds_heard s = Some peer" "s' = s\<lparr>ds_world := notify_discovered peer (ds_disc s) (ds_world s), ds_heard := None\<rparr>"
    using assms(2) by (auto simp: tell_discovered_def split: option.splits)
  then show ?thesis using assms(3) by (auto simp: disc_inv_def notify_wired owes_discovered_def simp del: map_of_eq_Some_iff)
next
  case (Sweep now)
  obtain d' gone where e: "evict_known ord now (ds_disc s) = (d', gone)" by (cases "evict_known ord now (ds_disc s)")
  have inv: "um_ok (known_peers (ds_disc s))" "\<forall>i r. map_of (known_peers (ds_disc s)) i = Some r \<longrightarrow> p_node_id (pr_info r) = i"
    using assms(3) unfolding disc_inv_def by blast+
  note f = evict_known_facts [OF assms(1) inv e]
  have s': "s' = s\<lparr>ds_disc := d', ds_evicted := gone\<rparr>" using Sweep assms(2) e by (auto simp: sweep_def split: if_splits)
  have "um_keys (known_peers d') \<subseteq> um_keys (known_peers (ds_disc s))"
    using f(2) by (auto simp: in_um_keys_iff simp del: map_of_eq_Some_iff)
  moreover have "wired d'" "pd_node_id d' = pd_node_id (ds_disc s)"
    using assms(3) by (subst f(5), simp add: disc_inv_def wired_def)+
  moreover have "\<forall>i r. map_of (known_peers d') i = Some r \<longrightarrow> p_node_id (pr_info r) = i" using f(2) inv(2) by blast
  ultimately show ?thesis using assms(3) f(3,4) unfolding s' disc_inv_def owes_discovered_def by (cases "ds_heard s") (auto simp del: map_of_eq_Some_iff)
next
  case TellLost
  then obtain peer rest where "ds_evicted s = peer # rest"
    "s' = s\<lparr>ds_world := notify_lost peer (ds_disc s) (ds_world s), ds_evicted := rest\<rparr>"
    using assms(2) by (auto simp: tell_lost_def split: list.splits)
  then show ?thesis using assms(3) by (auto simp: disc_inv_def notify_wired owes_discovered_def simp del: map_of_eq_Some_iff)
qed

lemma disc_step_in_step:
  assumes "order_ok ord" "disc_step_run ord a s = Some s'" "disc_inv s" "in_step i s"
    and "\<not> (owes_discovered i s \<and> owes_lost i s)" "\<not> (owes_discovered i s' \<and> owes_lost i s')"
  shows "in_step i s'"
proof (cases a)
  case (Hear now sysnow ip datagram)
  then have "hear now sysnow ip datagram s = Some s'" using assms(2) by simp
  then show ?thesis
  proof (cases rule: hear_cases)
    case (accepted peer)
    then show ?thesis using assms(4,6)
      by (auto simp: in_step_def owes_discovered_def owes_lost_def umap_simps split: if_splits)
  qed (use assms(4) in simp)
next
  case TellDiscovered
  then obtain peer where "ds_heard s = Some peer" "s' = s\<lparr>ds_world := notify_discovered peer (ds_disc s) (ds_world s), ds_heard := None\<rparr>"
    using assms(2) by (auto simp: tell_discovered_def split: option.splits)
  then show ?thesis using assms(3-5) by (auto simp: in_step_def disc_inv_def notify_wired owes_discovered_def owes_lost_def split: if_splits)
next
  case (Sweep now)
  obtain d' gone where e: "evict_known ord now (ds_disc s) = (d', gone)" by (cases "evict_known ord now (ds_disc s)")
  have inv: "um_ok (known_peers (ds_disc s))" "\<forall>i r. map_of (known_peers (ds_disc s)) i = Some r \<longrightarrow> p_node_id (pr_info r) = i"
    using assms(3) unfolding disc_inv_def by blast+
  note f = evict_known_facts(1,2) [OF assms(1) inv e]
  have s': "s' = s\<lparr>ds_disc := d', ds_evicted := gone\<rparr>" "ds_evicted s = []" using Sweep assms(2) e by (auto simp: sweep_def split: if_splits)
  have "i \<in> um_keys (known_peers d') \<longleftrightarrow> i \<in> um_keys (known_peers (ds_disc s)) \<and> i \<notin> set (map p_node_id gone)"
    "i \<in> set (map p_node_id gone) \<Longrightarrow> i \<in> um_keys (known_peers (ds_disc s))"
    using f(1,2) by (auto simp: in_um_keys_iff simp del: map_of_eq_Some_iff)
  then show ?thesis using assms(4-6) s' by (auto simp: in_step_def owes_discovered_def owes_lost_def split: if_splits)
next
  case TellLost
  then obtain peer rest where "ds_evicted s = peer # rest"
    "s' = s\<lparr>ds_world := notify_lost peer (ds_disc s) (ds_world s), ds_evicted := rest\<rparr>"
    using assms(2) by (auto simp: tell_lost_def split: list.splits)
  then show ?thesis using assms(3-5) by (auto simp: in_step_def disc_inv_def notify_wired owes_discovered_def owes_lost_def split: if_splits)
qed

lemma disc_run_in_step:
  assumes "order_ok ord" "disc_run ord steps s = Some s'" "disc_inv s"
  shows "disc_inv s' \<and> pd_node_id (ds_disc s') = pd_node_id (ds_disc s) \<and> (in_step i s \<and> run_apart ord i steps s \<longrightarrow> in_step i s')"
  using assms(2,3)
proof (induction steps arbitrary: s)
  case (Cons a steps)
  then obtain s1 where s1: "disc_step_run ord a s = Some s1" "disc_run ord steps s1 = Some s'" by (auto split: option.splits)
  note inv = disc_step_inv [OF assms(1) s1(1) Cons.prems(2)]
  have "in_step i s1" if "in_step i s" "run_apart ord i (a # steps) s"
  proof -
    have "\<not> (owes_discovered i s1 \<and> owes_lost i s1)" using that(2) s1(1) by (cases steps) simp_all
    then show ?thesis using disc_step_in_step [OF assms(1) s1(1) Cons.prems(2) that(1)] that(2) by simp
  qed
  then show ?case using Cons.IH [OF s1(2)] inv s1(1) by auto
qed simp

lemma disc_init: "disc_inv (system_of (wire_up d) empty_manager)" "in_step i (system_of (wire_up d) empty_manager)"
  "pd_node_id (ds_disc (system_of (wire_up d) w)) = pd_node_id d"
  by (simp_all add: disc_inv_def in_step_def system_of_def wired_def wire_up_def on_peer_lost_def on_peer_discovered_def new_discovery_def
      empty_manager_def owes_discovered_def owes_lost_def has_peer_def)

section \<open>Properties\<close>

text \<open>
  C33. What a node advertises is what its peers store: id (up to its first 31 characters), port, load,
  memory, temperature and throttling survive the trip through the 72 bytes, and every other node
  accepts the datagram.
\<close>

theorem advert_roundtrip:
  assumes "CHR 0x00 \<notin> set (pd_node_id d)" "take 31 (pd_node_id d) \<noteq> pd_node_id receiver"
    and "representable (cpu_usage_percent (local_resources d))" "representable (cpu_temperature_celsius (local_resources d))"
  shows "length (build_advert d) = 72 \<and> accept_datagram now ip (build_advert d) receiver = Some
    \<lparr>p_node_id = take 31 (pd_node_id d),
     p_resources = default_snapshot\<lparr>node_id := take 31 (pd_node_id d), timestamp := now,
       cpu_usage_percent := cpu_usage_percent (local_resources d),
       memory_available_bytes := memory_available_bytes (local_resources d),
       memory_total_bytes := memory_total_bytes (local_resources d),
       cpu_temperature_celsius := cpu_temperature_celsius (local_resources d),
       is_throttled := is_throttled (local_resources d)\<rparr>,
     p_address = ip, p_tcp_port = pd_tcp_port d, p_reachable = True\<rparr>"
  using assms by (simp add: accept_advert parse_build)

definition sample_node :: "NodeId \<Rightarrow> unit PeerDiscovery" where
  "sample_node i = (new_discovery i 5201 5200 2000 6000)
     \<lparr>local_resources := default_snapshot\<lparr>cpu_usage_percent := Fin (25 / 2), memory_available_bytes := 1000, is_throttled := True\<rparr>\<rparr>"

theorem advert_roundtrip_witness:
  "map_option (\<lambda>p. (p_node_id p, cpu_usage_percent (p_resources p), is_throttled (p_resources p), p_tcp_port p))
     (accept_datagram 7 ''10.0.0.1'' (build_advert (sample_node ''n1'')) (sample_node ''n2'')) =
   Some (''n1'', Fin (25 / 2), True, 5201)"
proof -
  have "representable (Fin (25 / 2))" "representable (Fin 0)" by code_simp+
  then show ?thesis
    using advert_roundtrip [of "sample_node ''n1''" "sample_node ''n2''" 7 "''10.0.0.1''"]
    by (simp add: sample_node_def new_discovery_def default_snapshot_def)
qed

text \<open>
  C34. The cluster view follows discovery, peer by peer. In every run of the listener and the eviction
  thread in which the two never owe notifications about a peer at the same time, the view holds the
  peer exactly when discovery knows it, except while a notification about it is owed: then the view
  does not have a new peer yet, or still has an evicted one. The view never holds the node itself,
  and a sweep keeps exactly the peers that have been heard within the timeout.
\<close>

theorem view_in_sync:
  assumes "order_ok ord" "disc_run ord steps (system_of (wire_up d0) empty_manager) = Some s"
    and "run_apart ord i steps (system_of (wire_up d0) empty_manager)"
  shows "(if owes_discovered i s then i \<in> um_keys (known_peers (ds_disc s)) \<and> \<not> has_peer i (ds_world s)
      else if owes_lost i s then i \<notin> um_keys (known_peers (ds_disc s)) \<and> has_peer i (ds_world s)
      else has_peer i (ds_world s) \<longleftrightarrow> i \<in> um_keys (known_peers (ds_disc s))) \<and>
    \<not> has_peer (pd_node_id d0) (ds_world s) \<and>
    (\<forall>now s'. sweep ord now s = Some s' \<longrightarrow> (i \<in> um_keys (known_peers (ds_disc s')) \<longleftrightarrow>
      (\<exists>r. map_of (known_peers (ds_disc s)) i = Some r \<and> now - last_seen r \<le> int (unat (pd_timeout_ms (ds_disc s))) * 1000000)))"
proof -
  have run: "disc_inv s" "in_step i s" "pd_node_id (ds_disc s) = pd_node_id d0"
    using disc_run_in_step [OF assms(1,2) disc_init(1), of i] disc_init(2,3) assms(3) by auto
  have inv: "um_ok (known_peers (ds_disc s))" "\<forall>i r. map_of (known_peers (ds_disc s)) i = Some r \<longrightarrow> p_node_id (pr_info r) = i"
    "\<not> has_peer (pd_node_id (ds_disc s)) (ds_world s)"
    using run(1) unfolding disc_inv_def by blast+
  have "i \<in> um_keys (known_peers (ds_disc s')) \<longleftrightarrow> (\<exists>r. map_of (known_peers (ds_disc s)) i = Some r \<and> \<not> expired now (ds_disc s) r)"
    if "sweep ord now s = Some s'" for now s'
  proof -
    obtain d' gone where e: "evict_known ord now (ds_disc s) = (d', gone)" by (cases "evict_known ord now (ds_disc s)")
    then have "ds_disc s' = d'" using that by (auto simp: sweep_def split: if_splits)
    then show ?thesis using evict_known_facts(2) [OF assms(1) inv(1,2) e] by (auto simp: in_um_keys_iff simp del: map_of_eq_Some_iff)
  qed
  then show ?thesis using run(2,3) inv(3) by (simp add: in_step_def expired_def not_less)
qed

definition heard_peer :: "Timestamp \<Rightarrow> string \<Rightarrow> NodeId \<Rightarrow> PeerInfo" where
  "heard_peer t ip i = parse_advert t ip (build_advert (sample_node i))"

lemma sample_heard:
  assumes "CHR 0x00 \<notin> set i" "length i \<le> 31"
  shows "p_node_id (heard_peer t ip i) = i"
    and "accept_datagram t ip (build_advert (sample_node i)) d = (if i = pd_node_id d then None else Some (heard_peer t ip i))"
proof -
  have i: "pd_node_id (sample_node i) = i" by (simp add: sample_node_def new_discovery_def)
  then show "p_node_id (heard_peer t ip i) = i"
    using assms by (simp add: heard_peer_def parse_advert_def advert_fields id_on_wire Let_def)
  show "accept_datagram t ip (build_advert (sample_node i)) d = (if i = pd_node_id d then None else Some (heard_peer t ip i))"
    using assms i by (simp add: heard_peer_def accept_advert)
qed

lemmas sample_eval = system_of_def hear_def tell_discovered_def sweep_def tell_lost_def sample_heard remember_peer_def notify_discovered_def notify_lost_def evict_known_def
  expired_def traverse_def wire_up_def on_peer_lost_def on_peer_discovered_def new_discovery_def update_peer_def
  remove_peer_def empty_manager_def has_peer_def

definition sample_steps :: "disc_step list" where
  "sample_steps = [Hear 0 0 ''10.0.0.1'' (build_advert (sample_node ''n1'')), TellDiscovered,
     Hear 5000000000 0 ''10.0.0.3'' (build_advert (sample_node ''n3'')), Sweep 7000000000, TellDiscovered, TellLost]"

lemma sample_steps_eval:
  obtains s where "disc_run rev sample_steps (system_of (wire_up (sample_node ''n2'')) empty_manager) = Some s"
    "map fst (cm_peers (ds_world s)) = [''n3'']" "map fst (known_peers (ds_disc s)) = [''n3'']" "ds_heard s = None" "ds_evicted s = []"
proof -
  have "\<exists>s. disc_run rev sample_steps (system_of (wire_up (sample_node ''n2'')) empty_manager) = Some s \<and>
      map fst (cm_peers (ds_world s)) = [''n3''] \<and> map fst (known_peers (ds_disc s)) = [''n3''] \<and> ds_heard s = None \<and> ds_evicted s = []"
    by (simp add: sample_steps_def sample_eval) (simp add: sample_node_def new_discovery_def)
  then show thesis using that by (elim exE conjE)
qed

lemma sample_steps_apart: "run_apart rev ''n3'' sample_steps (system_of (wire_up (sample_node ''n2'')) empty_manager)"
  by (simp add: sample_steps_def sample_eval owes_discovered_def owes_lost_def) (simp add: sample_node_def new_discovery_def)

theorem view_in_sync_witness:
  "\<exists>s. disc_run rev sample_steps (system_of (wire_up (sample_node ''n2'')) empty_manager) = Some s \<and>
     map fst (cm_peers (ds_world s)) = [''n3''] \<and> has_peer ''n3'' (ds_world s) \<and> \<not> has_peer ''n2'' (ds_world s)"
proof -
  obtain s where s: "disc_run rev sample_steps (system_of (wire_up (sample_node ''n2'')) empty_manager) = Some s"
    "map fst (cm_peers (ds_world s)) = [''n3'']" "map fst (known_peers (ds_disc s)) = [''n3'']" "ds_heard s = None" "ds_evicted s = []"
    by (rule sample_steps_eval)
  have "''n3'' \<in> um_keys (known_peers (ds_disc s))" using s(3) by (simp add: um_keys_def flip: set_map)
  then show ?thesis
    using view_in_sync [OF order_ok_rev s(1) sample_steps_apart] s
    by (simp add: owes_discovered_def owes_lost_def) (simp add: sample_node_def new_discovery_def)
qed

section \<open>Where discovery goes wrong\<close>

text \<open>
  A node whose id has more than 31 characters does not recognise its own broadcasts: the id on the
  wire is cut, the comparison with the full id fails, and the node stores itself as a peer.
\<close>

theorem long_id_discovers_itself:
  assumes "CHR 0x00 \<notin> set (pd_node_id d)" "31 < length (pd_node_id d)"
  shows "\<exists>peer. accept_datagram now ip (build_advert d) d = Some peer \<and> p_node_id peer = take 31 (pd_node_id d)"
proof -
  have "take 31 (pd_node_id d) \<noteq> pd_node_id d"
    using assms(2) by (metis length_take less_irrefl min.absorb4)
  moreover have "p_node_id (parse_advert now ip (build_advert d)) = take 31 (pd_node_id d)"
    using assms(1) by (simp add: parse_advert_def advert_fields id_on_wire Let_def)
  ultimately show ?thesis by (simp add: accept_advert [OF assms(1)])
qed

theorem long_id_discovers_itself_witness:
  "accept_datagram 0 ''10.0.0.9'' (build_advert (sample_node (replicate 40 (CHR ''x'')))) (sample_node (replicate 40 (CHR ''x''))) \<noteq> None"
  using long_id_discovers_itself [of "sample_node (replicate 40 (CHR ''x''))" 0 "''10.0.0.9''"]
  by (auto simp: sample_node_def new_discovery_def)

text \<open>
  A heartbeat of a peer that is already known does not reach the cluster view: the callbacks run
  for new peers only, so the schedulers keep working with the load of the first advertisement.
\<close>

theorem heartbeat_not_forwarded:
  assumes "accept_datagram sysnow ip datagram (ds_disc s) = Some peer" "map_of (known_peers (ds_disc s)) (p_node_id peer) = Some r"
    and "ds_heard s = None"
  shows "\<exists>s'. hear now sysnow ip datagram s = Some s' \<and> ds_world s' = ds_world s \<and> ds_heard s' = None \<and>
    map_of (known_peers (ds_disc s')) (p_node_id peer) = Some \<lparr>pr_info = peer, last_seen = now\<rparr>"
  using assms by (simp add: hear_def remember_peer_def umap_simps)

definition race_steps :: "disc_step list" where
  "race_steps = [Hear 0 0 ''10.0.0.1'' (build_advert (sample_node ''n1'')), TellDiscovered, Sweep 7000000000,
     Hear 7000000001 0 ''10.0.0.1'' (build_advert (sample_node ''n1'')), TellDiscovered, TellLost]"

text \<open>
  The two threads race: if a silent peer is heard again between the sweep that evicts it and the
  notification, the late \<^verbatim>\<open>notify_lost\<close> removes the live peer from the cluster view, and no later
  heartbeat brings it back while discovery still knows it.
\<close>

theorem eviction_race_loses_peer:
  "\<exists>s. disc_run rev race_steps (system_of (wire_up (sample_node ''n2'')) empty_manager) = Some s \<and>
     ds_heard s = None \<and> ds_evicted s = [] \<and>
     map_of (known_peers (ds_disc s)) ''n1'' \<noteq> None \<and> \<not> has_peer ''n1'' (ds_world s)"
  by (simp add: race_steps_def sample_eval) (simp add: sample_node_def new_discovery_def)

end
