(* ===== verification/Reactor.thy ===== *)
theory Reactor
  imports Prelude "HOL-Library.Signed_Division"
begin

text \<open>
  The epoll reactor (\<^verbatim>\<open>src/network/reactor.cpp\<close>, \<^verbatim>\<open>reactor.hpp\<close>): coroutines park on a descriptor, and the
  loop of the reactor thread resumes them on readiness, on an expired deadline or at shutdown. A
  suspended coroutine is the number of its awaiter. Each critical section of the mutex and each
  resumption is one step; parking and the stop request come from any thread in between. Two
  histories are kept: the awaiters parked, and the awaiters resumed with the flag they saw.
\<close>

section \<open>State\<close>

record FdAwaiter =
  aw_fd :: int
  aw_writable :: bool
  aw_timeout_ms :: u32

record Waiter =
  wt_awaiter :: nat
  wt_deadline :: int

text \<open>Where the reactor thread is; \<open>NotStarted\<close> before \<^verbatim>\<open>start\<close>, \<open>Exited\<close> when \<^verbatim>\<open>run\<close> has returned.\<close>

datatype phase = NotStarted | AtTop | InWait int | Resuming | DrainTop | DrainResuming | Exited

text \<open>\<open>interest\<close> is the kernel's list of descriptors registered with the epoll instance.\<close>

record EpollReactor =
  epoll_fd :: int
  wake_fd :: int
  re_running :: bool
  re_stop :: bool
  waiters :: "(int, Waiter) umap"
  interest :: "int list"
  ready_flags :: "nat \<Rightarrow> bool"
  re_phase :: phase
  to_resume :: "nat list"
  re_parked :: "nat list"
  re_resumed :: "(nat \<times> bool) list"

section \<open>Operations\<close>

text \<open>The constructor, given the descriptors the kernel returns.\<close>

definition new_reactor :: "int \<Rightarrow> int \<Rightarrow> EpollReactor" where
  "new_reactor efd wfd = \<lparr>epoll_fd = efd, wake_fd = wfd, re_running = False, re_stop = False, waiters = [],
     interest = (if efd \<ge> 0 \<and> wfd \<ge> 0 then [wfd] else []), ready_flags = (\<lambda>_. False), re_phase = NotStarted,
     to_resume = [], re_parked = [], re_resumed = []\<rparr>"

definition reactor_start :: "EpollReactor \<Rightarrow> EpollReactor" where
  "reactor_start r = (if re_running r \<or> epoll_fd r < 0 then r
     else r\<lparr>re_running := True, re_stop := False, re_phase := AtTop\<rparr>)"

text \<open>\<^verbatim>\<open>stop\<close> up to the join, and the join.\<close>

definition reactor_request_stop :: "EpollReactor \<Rightarrow> EpollReactor" where
  "reactor_request_stop r = (if re_running r then r\<lparr>re_stop := True\<rparr> else r)"

definition reactor_join :: "EpollReactor \<Rightarrow> EpollReactor option" where
  "reactor_join r = (case re_phase r of Exited \<Rightarrow> Some (r\<lparr>re_running := False\<rparr>) | _ \<Rightarrow> None)"

definition wait_readable :: "int \<Rightarrow> u32 \<Rightarrow> FdAwaiter" where
  "wait_readable fd timeout_ms = \<lparr>aw_fd = fd, aw_writable = False, aw_timeout_ms = timeout_ms\<rparr>"

definition wait_writable :: "int \<Rightarrow> u32 \<Rightarrow> FdAwaiter" where
  "wait_writable fd timeout_ms = \<lparr>aw_fd = fd, aw_writable = True, aw_timeout_ms = timeout_ms\<rparr>"

text \<open>
  Parking: the answer says whether the coroutine stays suspended. \<open>now\<close> is the steady clock in
  nanoseconds, \<open>ctl_ok\<close> the kernel's answer to the registration, which also fails for a descriptor
  that is registered already.
\<close>

definition register_waiter :: "int \<Rightarrow> bool \<Rightarrow> nat \<Rightarrow> FdAwaiter \<Rightarrow> EpollReactor \<Rightarrow> bool \<times> EpollReactor" where
  "register_waiter now ctl_ok a aw r =
     (if \<not> re_running r \<or> re_stop r then (False, r\<lparr>ready_flags := (ready_flags r)(a := False)\<rparr>)
      else let ws = AList.update (aw_fd aw)
             \<lparr>wt_awaiter = a, wt_deadline = now + int (unat (aw_timeout_ms aw)) * 1000000\<rparr> (waiters r)
        in if \<not> ctl_ok \<or> aw_fd aw \<in> set (interest r)
           then (False, r\<lparr>waiters := AList.delete (aw_fd aw) ws, ready_flags := (ready_flags r)(a := False)\<rparr>)
           else (True, r\<lparr>waiters := ws, interest := aw_fd aw # interest r, re_parked := re_parked r @ [a]\<rparr>))"

text \<open>The timeout of \<^verbatim>\<open>epoll_wait\<close>, with the cast to \<^verbatim>\<open>int\<close>.\<close>

definition remaining_ms :: "int \<Rightarrow> Waiter \<Rightarrow> int" where
  "remaining_ms now w = sint (word_of_int (max 0 ((wt_deadline w - now) sdiv 1000000)) :: u32)"

definition epoll_timeout :: "(int list \<Rightarrow> int list) \<Rightarrow> int \<Rightarrow> EpollReactor \<Rightarrow> int" where
  "epoll_timeout ord now r = fold (\<lambda>(_, w) t. min t (remaining_ms now w)) (traverse ord (waiters r)) 500"

text \<open>Resuming one waiter: flag, queue, deregistration.\<close>

definition release_waiter :: "bool \<Rightarrow> int \<times> Waiter \<Rightarrow> EpollReactor \<Rightarrow> EpollReactor" where
  "release_waiter ready e r = r\<lparr>ready_flags := (ready_flags r)(wt_awaiter (snd e) := ready),
     to_resume := to_resume r @ [wt_awaiter (snd e)], interest := removeAll (fst e) (interest r),
     waiters := AList.delete (fst e) (waiters r)\<rparr>"

definition ready_event :: "int \<Rightarrow> EpollReactor \<Rightarrow> EpollReactor" where
  "ready_event fd r = (if fd = wake_fd r then r
     else case map_of (waiters r) fd of None \<Rightarrow> r | Some w \<Rightarrow> release_waiter True (fd, w) r)"

definition expire_waiters :: "(int list \<Rightarrow> int list) \<Rightarrow> int \<Rightarrow> EpollReactor \<Rightarrow> EpollReactor" where
  "expire_waiters ord now r =
     fold (release_waiter False) (filter (\<lambda>(_, w). wt_deadline w \<le> now) (traverse ord (waiters r))) r"

definition drain_waiters :: "(int list \<Rightarrow> int list) \<Rightarrow> EpollReactor \<Rightarrow> EpollReactor" where
  "drain_waiters ord r = fold (release_waiter False) (traverse ord (waiters r)) r"

definition resume_next :: "EpollReactor \<Rightarrow> EpollReactor" where
  "resume_next r = (case to_resume r of [] \<Rightarrow> r
     | a # rest \<Rightarrow> r\<lparr>to_resume := rest, re_resumed := re_resumed r @ [(a, ready_flags r a)]\<rparr>)"

text \<open>
  One step of \<^verbatim>\<open>run\<close>. \<open>now\<close> is the clock reading of the step and \<open>events\<close> what \<^verbatim>\<open>epoll_wait\<close> reported,
  where the step uses them.
\<close>

definition loop_step :: "(int list \<Rightarrow> int list) \<Rightarrow> int \<Rightarrow> int list \<Rightarrow> EpollReactor \<Rightarrow> EpollReactor" where
  "loop_step ord now events r = (case re_phase r of
     NotStarted \<Rightarrow> r
   | AtTop \<Rightarrow> if re_stop r then r\<lparr>re_phase := DrainTop\<rparr> else r\<lparr>re_phase := InWait (epoll_timeout ord now r)\<rparr>
   | InWait _ \<Rightarrow> (expire_waiters ord now (fold ready_event events r))\<lparr>re_phase := Resuming\<rparr>
   | Resuming \<Rightarrow> if to_resume r = [] then r\<lparr>re_phase := AtTop\<rparr> else resume_next r
   | DrainTop \<Rightarrow> (let r' = drain_waiters ord r in if to_resume r' = [] then r'\<lparr>re_phase := Exited\<rparr> else r'\<lparr>re_phase := DrainResuming\<rparr>)
   | DrainResuming \<Rightarrow> if to_resume r = [] then r\<lparr>re_phase := DrainTop\<rparr> else resume_next r
   | Exited \<Rightarrow> r)"

datatype reactor_action = Loop int "int list" | Park int bool nat FdAwaiter | RequestStop

fun reactor_step :: "(int list \<Rightarrow> int list) \<Rightarrow> reactor_action \<Rightarrow> EpollReactor \<Rightarrow> EpollReactor" where
  "reactor_step ord (Loop now events) r = loop_step ord now events r"
| "reactor_step ord (Park now ctl_ok a aw) r = snd (register_waiter now ctl_ok a aw r)"
| "reactor_step ord RequestStop r = reactor_request_stop r"

text \<open>How the reactor is to be used: one waiter per descriptor, and every await has its own awaiter.\<close>

fun parks_apart :: "reactor_action \<Rightarrow> EpollReactor \<Rightarrow> bool" where
  "parks_apart (Park now ctl_ok a aw) r \<longleftrightarrow> a \<notin> set (re_parked r) \<and> aw_fd aw \<notin> um_keys (waiters r)"
| "parks_apart _ r \<longleftrightarrow> True"

fun reactor_run :: "(int list \<Rightarrow> int list) \<Rightarrow> reactor_action list \<Rightarrow> EpollReactor \<Rightarrow> EpollReactor" where
  "reactor_run ord [] r = r"
| "reactor_run ord (a # as) r = reactor_run ord as (reactor_step ord a r)"

fun run_parks_apart :: "(int list \<Rightarrow> int list) \<Rightarrow> reactor_action list \<Rightarrow> EpollReactor \<Rightarrow> bool" where
  "run_parks_apart ord [] r \<longleftrightarrow> True"
| "run_parks_apart ord (a # as) r \<longleftrightarrow> parks_apart a r \<and> run_parks_apart ord as (reactor_step ord a r)"

section \<open>Every parked coroutine is accounted for\<close>

definition suspended :: "EpollReactor \<Rightarrow> nat multiset" where
  "suspended r = mset (map (wt_awaiter \<circ> snd) (waiters r))"

definition reactor_inv :: "EpollReactor \<Rightarrow> bool" where
  "reactor_inv r \<longleftrightarrow> um_ok (waiters r) \<and> um_keys (waiters r) \<subseteq> set (interest r) \<and> distinct (re_parked r) \<and>
     mset (re_parked r) = suspended r + mset (to_resume r) + mset (map fst (re_resumed r))"

lemma suspended_delete:
  assumes "um_ok m" "map_of m k = Some w"
  shows "mset (map (wt_awaiter \<circ> snd) m) = add_mset (wt_awaiter w) (mset (map (wt_awaiter \<circ> snd) (AList.delete k m)))"
  using assms
proof (induction m)
  case (Cons e m)
  show ?case
  proof (cases "fst e = k")
    case True
    with Cons.prems have "AList.delete k m = m" by (intro delete_id) auto
    then show ?thesis using True Cons.prems by (cases e) simp
  next
    case False
    then show ?thesis using Cons by (cases e) auto
  qed
qed simp

lemma release_fields [simp]:
  "to_resume (release_waiter b e r) = to_resume r @ [wt_awaiter (snd e)]" "re_phase (release_waiter b e r) = re_phase r"
  "re_stop (release_waiter b e r) = re_stop r" "re_parked (release_waiter b e r) = re_parked r"
  "re_resumed (release_waiter b e r) = re_resumed r" "map_of (waiters (release_waiter b e r)) = (map_of (waiters r))(fst e := None)"
  by (simp_all add: release_waiter_def delete_conv')

lemma release_waiter_inv:
  assumes "reactor_inv r" "map_of (waiters r) fd = Some w"
  shows "reactor_inv (release_waiter b (fd, w) r)"
  using assms suspended_delete [of "waiters r" fd w]
  by (auto simp: reactor_inv_def release_waiter_def suspended_def distinct_delete keys_delete)

lemma ready_event_inv: "reactor_inv r \<Longrightarrow> reactor_inv (ready_event fd r)"
  by (auto simp: ready_event_def intro: release_waiter_inv simp del: map_of_eq_Some_iff split: option.splits)

lemma ready_events_inv: "reactor_inv r \<Longrightarrow> reactor_inv (fold ready_event fds r)"
  by (induction fds arbitrary: r) (simp_all add: ready_event_inv)

text \<open>Releasing a list of entries of the map, each once.\<close>

lemma release_fold:
  assumes "reactor_inv r" "um_ok es" "\<And>fd w. (fd, w) \<in> set es \<Longrightarrow> map_of (waiters r) fd = Some w"
  shows "reactor_inv (fold (release_waiter b) es r) \<and>
    map_of (waiters (fold (release_waiter b) es r)) = (\<lambda>k. if k \<in> um_keys es then None else map_of (waiters r) k) \<and>
    to_resume (fold (release_waiter b) es r) = to_resume r @ map (wt_awaiter \<circ> snd) es \<and>
    re_phase (fold (release_waiter b) es r) = re_phase r \<and> re_stop (fold (release_waiter b) es r) = re_stop r"
  using assms
proof (induction es arbitrary: r)
  case (Cons e es)
  obtain fd w where e: "e = (fd, w)" by (cases e)
  let ?r = "release_waiter b e r"
  have m: "map_of (waiters ?r) = (map_of (waiters r))(fd := None)" by (simp add: e)
  have inv: "reactor_inv ?r" unfolding e using Cons.prems(1,3) by (intro release_waiter_inv) (auto simp: e)
  have "map_of (waiters ?r) fd' = Some w'" if "(fd', w') \<in> set es" for fd' w'
  proof -
    have "fd' \<in> um_keys es" using that unfolding um_keys_def by (rule rev_image_eqI) simp
    then have "fd' \<noteq> fd" using Cons.prems(2) by (auto simp: e)
    then show ?thesis using Cons.prems(3) that by (simp add: e)
  qed
  from Cons.IH [OF inv _ this] Cons.prems(2) show ?case
    by (simp add: e fun_eq_iff)
qed auto

lemma release_traversed:
  assumes "reactor_inv r" "order_ok ord" and r': "r' = fold (release_waiter b) (filter P (traverse ord (waiters r))) r"
  shows "reactor_inv r'" "\<And>fd w. map_of (waiters r') fd = Some w \<longleftrightarrow> map_of (waiters r) fd = Some w \<and> \<not> P (fd, w)"
    "length (to_resume r') + length (waiters r') = length (to_resume r) + length (waiters r)"
    "re_phase r' = re_phase r" "re_stop r' = re_stop r" "to_resume r' = [] \<Longrightarrow> filter P (waiters r) = []"
proof -
  let ?es = "filter P (traverse ord (waiters r))"
  have ok: "um_ok (waiters r)" using assms(1) by (simp add: reactor_inv_def)
  have set: "set (traverse ord (waiters r)) = set (waiters r)" using assms(2) ok by (rule set_traverse)
  have "um_ok (traverse ord (waiters r))" using assms(2) ok by simp
  then have dist: "um_ok ?es" by (induction "traverse ord (waiters r)") (auto simp: distinct_map_filter)
  have mem: "map_of (waiters r) fd = Some w" if "(fd, w) \<in> set ?es" for fd w
    using that set ok by simp
  note f = release_fold [OF assms(1) dist mem, of b, folded r']
  show i: "reactor_inv r'" "re_phase r' = re_phase r" "re_stop r' = re_stop r" using f by blast+
  show "map_of (waiters r') fd = Some w \<longleftrightarrow> map_of (waiters r) fd = Some w \<and> \<not> P (fd, w)" for fd w
  proof -
    have "fd \<in> um_keys ?es \<longleftrightarrow> (\<exists>w. map_of (waiters r) fd = Some w \<and> P (fd, w))"
      using set ok dist by (auto simp: in_um_keys_iff)
    moreover have "map_of (waiters r') fd = (if fd \<in> um_keys ?es then None else map_of (waiters r) fd)" using f by metis
    ultimately show ?thesis by auto
  qed
  have m: "mset (re_parked r') = suspended r' + mset (to_resume r') + mset (map fst (re_resumed r'))"
    "mset (re_parked r) = suspended r + mset (to_resume r) + mset (map fst (re_resumed r))"
    using i(1) assms(1) by (simp_all add: reactor_inv_def)
  have "re_parked (fold (release_waiter b) es s) = re_parked s \<and> re_resumed (fold (release_waiter b) es s) = re_resumed s" for es s
    by (induction es arbitrary: s) simp_all
  then have same: "re_parked r' = re_parked r" "re_resumed r' = re_resumed r" by (simp_all add: r')
  have "size (suspended r') + length (to_resume r') = size (suspended r) + length (to_resume r)"
    using arg_cong [OF m(1), of size] arg_cong [OF m(2), of size] unfolding same by simp
  then show "length (to_resume r') + length (waiters r') = length (to_resume r) + length (waiters r)"
    by (simp add: suspended_def)
  show "filter P (waiters r) = []" if "to_resume r' = []"
  proof -
    have "?es = []" using f that by simp
    then have "\<forall>e \<in> set (waiters r). \<not> P e" using set by (auto simp: filter_empty_conv)
    then show ?thesis by (auto simp: filter_empty_conv)
  qed
qed

lemma resume_next_inv: "reactor_inv r \<Longrightarrow> reactor_inv (resume_next r)"
  by (auto simp: reactor_inv_def resume_next_def suspended_def split: list.splits)

lemma phase_inv [simp]: "reactor_inv (r\<lparr>re_phase := p\<rparr>) = reactor_inv r"
  by (simp add: reactor_inv_def suspended_def)

lemma drain_filter: "drain_waiters ord r = fold (release_waiter False) (filter (\<lambda>_. True) (traverse ord (waiters r))) r"
  by (simp add: drain_waiters_def)

lemma loop_step_inv:
  assumes "reactor_inv r" "order_ok ord"
  shows "reactor_inv (loop_step ord now events r)"
  using assms release_traversed(1) [OF ready_events_inv [OF assms(1), of events] assms(2) expire_waiters_def]
    release_traversed(1) [OF assms drain_filter] resume_next_inv [OF assms(1)]
  by (simp add: loop_step_def Let_def split: phase.splits)

lemma update_new: "k \<notin> um_keys m \<Longrightarrow> AList.update k v m = m @ [(k, v)]"
  by (induction m) auto

lemma register_waiter_inv:
  assumes "reactor_inv r" "parks_apart (Park now ctl_ok a aw) r"
  shows "reactor_inv (snd (register_waiter now ctl_ok a aw r))"
proof -
  have fresh: "aw_fd aw \<notin> um_keys (waiters r)" "a \<notin> set (re_parked r)" using assms(2) by simp_all
  then have "AList.delete (aw_fd aw) (waiters r) = waiters r" by (intro delete_id) (simp add: fst_image_set)
  then have "AList.delete (aw_fd aw) (waiters r @ [(aw_fd aw, w)]) = waiters r" for w
    using delete_update_same [of "aw_fd aw" w "waiters r"] by (simp only: update_new [OF fresh(1)])
  then show ?thesis
    using assms(1) fresh by (auto simp: register_waiter_def Let_def reactor_inv_def suspended_def update_new fst_image_set)
qed

lemma reactor_step_inv: "reactor_inv r \<Longrightarrow> order_ok ord \<Longrightarrow> parks_apart a r \<Longrightarrow> reactor_inv (reactor_step ord a r)"
  by (cases a) (simp_all only: reactor_step.simps loop_step_inv register_waiter_inv,
      simp add: reactor_request_stop_def reactor_inv_def suspended_def)

lemma reactor_run_inv: "reactor_inv r \<Longrightarrow> order_ok ord \<Longrightarrow> run_parks_apart ord as r \<Longrightarrow> reactor_inv (reactor_run ord as r)"
  by (induction as arbitrary: r) (simp_all add: reactor_step_inv)

lemma new_reactor_inv: "reactor_inv (reactor_start (new_reactor efd wfd))"
  by (simp add: reactor_inv_def reactor_start_def new_reactor_def suspended_def)

section \<open>Shutdown\<close>

text \<open>The drain phases follow only a stop request, and the loop leaves them only when nothing is parked.\<close>

fun draining :: "phase \<Rightarrow> bool" where
  "draining DrainTop = True" | "draining DrainResuming = True" | "draining Exited = True" | "draining _ = False"

definition drain_inv :: "EpollReactor \<Rightarrow> bool" where
  "drain_inv r \<longleftrightarrow> (draining (re_phase r) \<longrightarrow> re_stop r) \<and>
     (re_phase r = Exited \<longrightarrow> waiters r = [] \<and> to_resume r = []) \<and>
     (re_phase r = DrainTop \<or> re_phase r = AtTop \<or> (\<exists>t. re_phase r = InWait t) \<longrightarrow> to_resume r = []) \<and>
     (re_phase r = DrainResuming \<longrightarrow> waiters r = [])"

lemma empty_map: "(\<And>k v. map_of m k \<noteq> Some v) \<Longrightarrow> m = []"
  by (metis map_of_None_keys um_keysI um_keys_Cons insertI1 not_None_eq list.exhaust prod.exhaust)

lemma ready_event_fields:
  "re_phase (ready_event fd r) = re_phase r \<and> re_stop (ready_event fd r) = re_stop r"
  by (simp add: ready_event_def split: option.splits)

lemma ready_event_length:
  assumes "reactor_inv r"
  shows "length (to_resume (ready_event fd r)) + length (waiters (ready_event fd r)) = length (to_resume r) + length (waiters r)"
proof (cases "fd = wake_fd r \<or> map_of (waiters r) fd = None")
  case False
  then obtain w where w: "map_of (waiters r) fd = Some w" by auto
  have "um_ok (waiters r)" using assms by (simp add: reactor_inv_def)
  from arg_cong [OF suspended_delete [OF this w], of size] show ?thesis
    using False w by (simp add: ready_event_def release_waiter_def)
qed (auto simp: ready_event_def)

lemma ready_events_fields:
  assumes "reactor_inv r"
  shows "re_phase (fold ready_event fds r) = re_phase r \<and> re_stop (fold ready_event fds r) = re_stop r \<and>
    length (to_resume (fold ready_event fds r)) + length (waiters (fold ready_event fds r)) = length (to_resume r) + length (waiters r)"
  using assms
  by (induction fds arbitrary: r) (simp_all add: ready_event_inv ready_event_fields ready_event_length)

lemma drain_waiters_spec:
  assumes "reactor_inv r" "order_ok ord"
  shows "waiters (drain_waiters ord r) = []" "length (to_resume (drain_waiters ord r)) = length (to_resume r) + length (waiters r)"
    "re_stop (drain_waiters ord r) = re_stop r"
proof -
  note t = release_traversed [OF assms drain_filter]
  show w: "waiters (drain_waiters ord r) = []" using t(2) by (intro empty_map) simp
  show "length (to_resume (drain_waiters ord r)) = length (to_resume r) + length (waiters r)" using t(3) w by simp
  show "re_stop (drain_waiters ord r) = re_stop r" by (rule t(5))
qed

lemma expire_waiters_spec:
  assumes "reactor_inv r" "order_ok ord"
  shows "length (to_resume (expire_waiters ord now r)) + length (waiters (expire_waiters ord now r)) = length (to_resume r) + length (waiters r)"
    "re_stop (expire_waiters ord now r) = re_stop r"
    "map_of (waiters (expire_waiters ord now r)) fd = Some w \<Longrightarrow> now < wt_deadline w"
  using release_traversed [OF assms expire_waiters_def [of ord now]] by auto

lemma loop_step_drain:
  assumes "reactor_inv r" "order_ok ord" "drain_inv r"
  shows "drain_inv (loop_step ord now events r)"
proof (cases "re_phase r")
  case (InWait t)
  then show ?thesis by (simp add: loop_step_def drain_inv_def)
next
  case DrainTop
  then show ?thesis
    using assms(3) drain_waiters_spec [OF assms(1,2)] by (auto simp: loop_step_def drain_inv_def Let_def)
qed (use assms(3) in \<open>auto simp: loop_step_def drain_inv_def resume_next_def split: list.splits\<close>)

lemma register_fields:
  "re_phase (snd (register_waiter now ctl_ok a aw r)) = re_phase r" "re_stop (snd (register_waiter now ctl_ok a aw r)) = re_stop r"
  "to_resume (snd (register_waiter now ctl_ok a aw r)) = to_resume r"
  "re_stop r \<Longrightarrow> waiters (snd (register_waiter now ctl_ok a aw r)) = waiters r"
  by (simp_all add: register_waiter_def Let_def)

lemma reactor_step_drain:
  assumes "reactor_inv r" "order_ok ord" "drain_inv r"
  shows "drain_inv (reactor_step ord a r)"
proof (cases a)
  case (Loop now events)
  then show ?thesis using loop_step_drain [OF assms] by simp
next
  case (Park now ctl_ok i aw)
  have "draining (re_phase r) \<Longrightarrow> re_stop r" using assms(3) by (simp add: drain_inv_def)
  then show ?thesis
    using assms(3) register_fields [where now = now and ctl_ok = ctl_ok and a = i and aw = aw and r = r] by (auto simp: Park drain_inv_def)
next
  case RequestStop
  then show ?thesis using assms(3) by (auto simp: reactor_request_stop_def drain_inv_def)
qed

lemma reactor_run_drain:
  "reactor_inv r \<Longrightarrow> order_ok ord \<Longrightarrow> drain_inv r \<Longrightarrow> run_parks_apart ord as r \<Longrightarrow> drain_inv (reactor_run ord as r)"
  by (induction as arbitrary: r) (simp_all add: reactor_step_inv reactor_step_drain)

text \<open>How much work is left once a stop is requested.\<close>

fun phase_rank :: "phase \<Rightarrow> nat" where
  "phase_rank (InWait _) = 5" | "phase_rank Resuming = 4" | "phase_rank AtTop = 3" | "phase_rank DrainResuming = 2"
| "phase_rank DrainTop = 1" | "phase_rank NotStarted = 0" | "phase_rank Exited = 0"

definition drain_work :: "EpollReactor \<Rightarrow> nat" where
  "drain_work r = 3 * length (waiters r) + length (to_resume r) + phase_rank (re_phase r)"

lemma loop_step_work:
  assumes "reactor_inv r" "order_ok ord" "drain_inv r" "re_stop r" "re_phase r \<noteq> NotStarted" "re_phase r \<noteq> Exited"
  shows "drain_work (loop_step ord now events r) < drain_work r"
proof (cases "re_phase r")
  case (InWait t)
  let ?r1 = "fold ready_event events r" let ?r2 = "expire_waiters ord now ?r1"
  note f = ready_events_fields [OF assms(1), of events]
    and e = expire_waiters_spec(1) [OF ready_events_inv [OF assms(1), of events] assms(2), where now = now]
  have "to_resume r = []" using assms(3) InWait by (simp add: drain_inv_def)
  then have "length (to_resume ?r2) + length (waiters ?r2) = length (waiters r)" using f e by simp
  then show ?thesis using InWait by (simp add: loop_step_def drain_work_def)
next
  case DrainTop
  then show ?thesis
    using drain_waiters_spec [OF assms(1,2)] assms(3)
    by (cases "waiters r") (auto simp: loop_step_def drain_work_def drain_inv_def Let_def)
qed (use assms in \<open>auto simp: loop_step_def drain_work_def resume_next_def split: list.splits\<close>)

fun loop_steps :: "(int list \<Rightarrow> int list) \<Rightarrow> (int \<times> int list) list \<Rightarrow> EpollReactor \<Rightarrow> EpollReactor" where
  "loop_steps ord [] r = r"
| "loop_steps ord ((now, events) # as) r = loop_steps ord as (loop_step ord now events r)"

lemma loop_step_stop: "reactor_inv r \<Longrightarrow> order_ok ord \<Longrightarrow> re_stop (loop_step ord now events r) = re_stop r"
  using ready_events_fields [of r events] expire_waiters_spec(2) [where now = now and ord = ord, OF ready_events_inv [of r events]] drain_waiters_spec(3) [of r ord]
  by (auto simp: loop_step_def Let_def resume_next_def split: phase.splits list.splits)

lemma release_fold_parked: "re_parked (fold (release_waiter b) es r) = re_parked r"
  by (induction es arbitrary: r) simp_all

lemma ready_events_parked: "re_parked (fold ready_event fds r) = re_parked r"
proof (induction fds arbitrary: r)
  case (Cons fd fds)
  have "re_parked (ready_event fd r) = re_parked r" by (simp add: ready_event_def split: option.splits)
  then show ?case using Cons.IH [of "ready_event fd r"] by simp
qed simp

lemma loop_step_parked: "re_parked (loop_step ord now events r) = re_parked r"
  by (simp add: loop_step_def expire_waiters_def drain_waiters_def release_fold_parked ready_events_parked resume_next_def Let_def
      split: phase.splits list.splits)

lemma loop_step_started: "re_phase r \<noteq> NotStarted \<Longrightarrow> re_phase (loop_step ord now events r) \<noteq> NotStarted"
  by (auto simp: loop_step_def Let_def resume_next_def split: phase.splits list.splits)

lemma loop_steps_exit:
  assumes "reactor_inv r" "order_ok ord" "drain_inv r" "re_stop r" "re_phase r \<noteq> NotStarted" "drain_work r \<le> length answers"
  shows "re_phase (loop_steps ord answers r) = Exited \<and> reactor_inv (loop_steps ord answers r) \<and> drain_inv (loop_steps ord answers r) \<and>
    re_parked (loop_steps ord answers r) = re_parked r"
  using assms
proof (induction answers arbitrary: r)
  case Nil
  then have "phase_rank (re_phase r) = 0" by (simp add: drain_work_def)
  then show ?case using Nil by (cases "re_phase r") simp_all
next
  case (Cons p answers)
  obtain now events where p: "p = (now, events)" by (cases p)
  let ?r = "loop_step ord now events r"
  have inv: "reactor_inv ?r" "drain_inv ?r" "re_stop ?r" "re_phase ?r \<noteq> NotStarted"
    using Cons.prems loop_step_inv loop_step_drain loop_step_stop loop_step_started by simp_all
  have "drain_work ?r \<le> length answers"
    using loop_step_work [OF Cons.prems(1-5), of now events] Cons.prems(3,6)
    by (cases "re_phase r = Exited") (simp_all add: loop_step_def drain_work_def drain_inv_def)
  from Cons.IH [OF inv(1) Cons.prems(2) inv(2-4) this] show ?case by (simp add: p loop_step_parked)
qed

section \<open>Properties\<close>

lemma drained: "reactor_inv s \<Longrightarrow> drain_inv s \<Longrightarrow> re_phase s = Exited \<Longrightarrow> mset (map fst (re_resumed s)) = mset (re_parked s)"
  by (simp add: reactor_inv_def drain_inv_def suspended_def)

lemma stop_drains:
  assumes "reactor_inv r" "order_ok ord" "drain_inv r" "re_stop r" "re_phase r \<noteq> NotStarted"
    and "3 * length (waiters r) + length (to_resume r) + 5 \<le> length answers"
  shows "re_phase (loop_steps ord answers r) = Exited \<and> mset (map fst (re_resumed (loop_steps ord answers r))) = mset (re_parked r)"
proof -
  have "phase_rank (re_phase r) \<le> 5" by (cases "re_phase r") simp_all
  then have "drain_work r \<le> length answers" using assms(6) by (simp add: drain_work_def)
  from loop_steps_exit [OF assms(1-5) this] show ?thesis using drained by metis
qed

lemma reactor_started: "re_phase r \<noteq> NotStarted \<Longrightarrow> re_phase (reactor_run ord as r) \<noteq> NotStarted"
proof (induction as arbitrary: r)
  case (Cons a as)
  have "re_phase (reactor_step ord a r) \<noteq> NotStarted"
    using Cons.prems by (cases a) (simp_all add: loop_step_started register_fields reactor_request_stop_def)
  then show ?case using Cons.IH by simp
qed simp

lemma running_fold: "re_running (fold (release_waiter b) es r) = re_running r" "re_running (fold ready_event fds r) = re_running r"
proof -
  show "re_running (fold (release_waiter b) es r) = re_running r"
    by (induction es arbitrary: r) (simp_all add: release_waiter_def)
  show "re_running (fold ready_event fds r) = re_running r"
  proof (induction fds arbitrary: r)
    case (Cons fd fds)
    have "re_running (ready_event fd r) = re_running r" by (simp add: ready_event_def release_waiter_def split: option.splits)
    then show ?case using Cons.IH [of "ready_event fd r"] by simp
  qed simp
qed

lemma reactor_step_running: "re_running (reactor_step ord a r) = re_running r"
  by (cases a) (simp_all add: loop_step_def expire_waiters_def drain_waiters_def running_fold resume_next_def register_waiter_def
      reactor_request_stop_def Let_def split: phase.splits list.splits)

lemma reactor_run_running: "re_running (reactor_run ord as r) = re_running r"
  by (induction as arbitrary: r) (simp_all add: reactor_step_running)

lemma started_drain: "drain_inv (reactor_start (new_reactor efd wfd))"
  by (simp add: drain_inv_def reactor_start_def new_reactor_def)

text \<open>
  C26. A parked coroutine is resumed exactly once. As long as awaits have their own descriptors, under
  every interleaving of the loop with parking threads no awaiter is resumed twice or without having
  been parked; and once the reactor thread has returned, which it does within a bounded number of
  its steps after a stop request whatever the kernel reports, every parked awaiter has been resumed.
\<close>

theorem reactor_resumes_once:
  assumes "order_ok ord" "run_parks_apart ord as (reactor_start (new_reactor efd wfd))"
    and "r = reactor_run ord as (reactor_start (new_reactor efd wfd))"
  shows "(distinct (map fst (re_resumed r)) \<and> set (map fst (re_resumed r)) \<subseteq> set (re_parked r)) \<and>
    (re_phase r = Exited \<longrightarrow> mset (map fst (re_resumed r)) = mset (re_parked r)) \<and>
    (re_stop r \<and> re_phase r \<noteq> NotStarted \<and> 3 * length (waiters r) + length (to_resume r) + 5 \<le> length answers \<longrightarrow>
      re_phase (loop_steps ord answers r) = Exited \<and>
      mset (map fst (re_resumed (loop_steps ord answers r))) = mset (re_parked r))"
proof -
  have inv: "reactor_inv r" "drain_inv r"
    unfolding assms(3) using reactor_run_inv [OF new_reactor_inv assms(1,2)] reactor_run_drain [OF new_reactor_inv assms(1) started_drain assms(2)]
    by simp_all
  obtain rest where "mset rest = suspended r + mset (to_resume r)" using ex_mset by blast
  then have rest: "mset (re_parked r) = mset (map fst (re_resumed r) @ rest)" "distinct (re_parked r)"
    using inv(1) by (simp_all add: reactor_inv_def add.commute)
  then have "distinct (map fst (re_resumed r) @ rest)" by (metis mset_eq_imp_distinct_iff)
  moreover have "set (re_parked r) = set (map fst (re_resumed r) @ rest)" using rest(1) by (rule mset_eq_setD)
  ultimately have "distinct (map fst (re_resumed r)) \<and> set (map fst (re_resumed r)) \<subseteq> set (re_parked r)" by simp
  moreover have "re_phase r = Exited \<Longrightarrow> mset (map fst (re_resumed r)) = mset (re_parked r)" using inv drained by blast
  moreover note stop_drains [OF inv(1) assms(1) inv(2), of answers]
  ultimately show ?thesis by blast
qed

definition sample_parks :: "reactor_action list" where
  "sample_parks = [Park 0 True 1 (wait_readable 7 500), Park 0 True 2 (wait_writable 8 10000), Park 0 True 3 (wait_readable 9 10000),
     Loop 0 [], Loop 600000000 [3, 8], Loop 0 [], RequestStop]"

lemmas reactor_exec = reactor_start_def new_reactor_def register_waiter_def wait_readable_def wait_writable_def loop_step_def
  ready_event_def expire_waiters_def release_waiter_def resume_next_def reactor_request_stop_def traverse_def Let_def

theorem reactor_resumes_once_witness:
  "let r = reactor_run id sample_parks (reactor_start (new_reactor 3 4));
       s = loop_steps id (replicate 9 (700000000, [])) r
   in re_parked r = [1, 2, 3] \<and> re_resumed r = [(2, True)] \<and> re_phase s = Exited \<and>
     mset (map fst (re_resumed s)) = mset [1, 2, 3]"
proof -
  let ?r = "reactor_run id sample_parks (reactor_start (new_reactor 3 4))"
  have ord: "order_ok id" by (simp add: order_ok_def)
  have apart: "run_parks_apart id sample_parks (reactor_start (new_reactor 3 4))" by code_simp
  have ev: "re_parked ?r = [1, 2, 3]" "re_resumed ?r = [(2, True)]" "re_stop ?r" "re_phase ?r = Resuming" "length (waiters ?r) = 1" "length (to_resume ?r) = 1"
    by (simp_all add: sample_parks_def reactor_exec)
  show ?thesis
    using reactor_resumes_once [OF ord apart refl, of "replicate 9 (700000000, [])"] ev by (simp add: Let_def)
qed

lemma remaining_ms_spec:
  assumes "wt_deadline w - now < 2 ^ 31 * 1000000"
  shows "0 \<le> remaining_ms now w" "now + remaining_ms now w * 1000000 \<le> max now (wt_deadline w)"
proof -
  define d where "d = wt_deadline w - now"
  have q: "0 \<le> max 0 (d sdiv 1000000)" "max 0 (d sdiv 1000000) < 2 ^ 31" "max 0 (d sdiv 1000000) * 1000000 \<le> max 0 d"
  proof -
    have "d sdiv 1000000 = (if 0 \<le> d then d div 1000000 else - (- d div 1000000))" by (auto simp: signed_divide_int_def sgn_if)
    moreover have "d < 2 ^ 31 * 1000000" using assms by (simp add: d_def)
    ultimately show "0 \<le> max 0 (d sdiv 1000000)" "max 0 (d sdiv 1000000) < 2 ^ 31" "max 0 (d sdiv 1000000) * 1000000 \<le> max 0 d"
      by (auto simp: max_def)
  qed
  have "sint (word_of_int m :: u32) = m" if "0 \<le> m" "m < 2 ^ 31" for m
    using that by (simp add: signed_of_int signed_take_bit_int_eq_self)
  then have "remaining_ms now w = max 0 (d sdiv 1000000)"
    unfolding remaining_ms_def d_def [symmetric] using q(1,2) by blast
  then show "0 \<le> remaining_ms now w" "now + remaining_ms now w * 1000000 \<le> max now (wt_deadline w)"
    using q by (simp_all add: d_def)
qed

text \<open>
  The loop never sleeps past a deadline: with timeouts below \<open>2 ^ 31\<close> milliseconds the argument of
  \<^verbatim>\<open>epoll_wait\<close> lies between zero and 500, and a wait that long ends before the deadline of every waiter
  that is not overdue already.
\<close>

theorem epoll_timeout_bounds:
  assumes "order_ok ord" "um_ok (waiters r)" "list_all (\<lambda>(_, w). wt_deadline w - now < 2 ^ 31 * 1000000) (waiters r)"
  shows "0 \<le> epoll_timeout ord now r \<and> epoll_timeout ord now r \<le> 500 \<and>
    list_all (\<lambda>(_, w). now + epoll_timeout ord now r * 1000000 \<le> max now (wt_deadline w)) (waiters r)"
proof -
  have fold_min: "fold (\<lambda>(_, w) t. min t (remaining_ms now w)) ws t \<le> t \<and>
      (\<forall>(_, w) \<in> set ws. fold (\<lambda>(_, w) t. min t (remaining_ms now w)) ws t \<le> remaining_ms now w) \<and>
      (0 \<le> t \<longrightarrow> (\<forall>(_, w) \<in> set ws. 0 \<le> remaining_ms now w) \<longrightarrow> 0 \<le> fold (\<lambda>(_, w) t. min t (remaining_ms now w)) ws t)"
    for ws :: "(int \<times> Waiter) list" and t
  proof (induction ws arbitrary: t)
    case (Cons e ws)
    obtain fd w where e: "e = (fd, w)" by (cases e)
    show ?case using Cons.IH [of "min t (remaining_ms now w)"] by (auto simp: e)
  qed simp
  note m = fold_min [of "traverse ord (waiters r)" 500, folded epoll_timeout_def, unfolded set_traverse [OF assms(1,2)]]
  have bound: "0 \<le> remaining_ms now w" "now + remaining_ms now w * 1000000 \<le> max now (wt_deadline w)" if "(fd, w) \<in> set (waiters r)" for fd w
    using that assms(3) remaining_ms_spec [of w now] by (auto simp: list_all_iff)
  have "now + epoll_timeout ord now r * 1000000 \<le> max now (wt_deadline w)" if "(fd, w) \<in> set (waiters r)" for fd w
    using bound(2) [OF that] m that by fastforce
  then show ?thesis using m bound(1) by (fastforce simp: list_all_iff)
qed

theorem epoll_timeout_bounds_witness:
  "let r = (new_reactor 3 4)\<lparr>waiters := [(7, \<lparr>wt_awaiter = 1, wt_deadline = 90000000\<rparr>)]\<rparr>
   in 0 \<le> epoll_timeout id 0 r \<and> epoll_timeout id 0 r \<le> 500 \<and> epoll_timeout id 0 r * 1000000 \<le> 90000000"
  using epoll_timeout_bounds [of id "(new_reactor 3 4)\<lparr>waiters := [(7, \<lparr>wt_awaiter = 1, wt_deadline = 90000000\<rparr>)]\<rparr>" 0]
  by (simp add: order_ok_def Let_def)

text \<open>A longer timeout makes the cast negative, which \<^verbatim>\<open>epoll_wait\<close> takes as an unlimited wait.\<close>

theorem long_timeout_unlimited:
  "epoll_timeout id 0 (snd (register_waiter 0 True 1 (wait_readable 7 0x80000000) (reactor_start (new_reactor 3 4)))) = - (2 ^ 31)"
  by (simp add: epoll_timeout_def remaining_ms_def register_waiter_def wait_readable_def reactor_start_def new_reactor_def traverse_def
      signed_divide_int_def Let_def)

text \<open>A second await on a descriptor that has a waiter drops the first one: it is never resumed.\<close>

theorem second_waiter_drops_first:
  "let r = reactor_run id [Park 0 True 1 (wait_readable 7 500), Park 0 True 2 (wait_writable 7 500)] (reactor_start (new_reactor 3 4))
   in re_parked r = [1] \<and> waiters r = [] \<and> to_resume r = [] \<and> re_resumed r = []"
  by (simp add: reactor_exec)

end
