(* ===== verification/Async_Transport.thy ===== *)
theory Async_Transport
  imports Reactor Transport
begin

text \<open>
  The asynchronous server (\<^verbatim>\<open>src/network/async_transport.cpp\<close>): one coroutine per connection that reads a
  frame, calls the handler and writes the answer, over the reactor. A coroutine sees the kernel's
  answers to \<^verbatim>\<open>recv\<close> and \<^verbatim>\<open>send\<close> and the outcome of its awaits as a script, as in the synchronous transport.
\<close>

unbundle bit_operations_syntax

section \<open>Reading and writing\<close>

definition encode_u32_be :: "u32 \<Rightarrow> u8 list" where
  "encode_u32_be val =
     [ucast (drop_bit 24 val AND 0xFF), ucast (drop_bit 16 val AND 0xFF),
      ucast (drop_bit 8 val AND 0xFF), ucast (val AND 0xFF)]"

definition decode_u32_be :: "u8 list \<Rightarrow> u32" where
  "decode_u32_be buf =
     push_bit 24 (ucast (buf ! 0)) OR push_bit 16 (ucast (buf ! 1)) OR
     push_bit 8 (ucast (buf ! 2)) OR ucast (buf ! 3)"

text \<open>
  One pass of the loops: up to \<open>Suc n\<close> bytes move, as many as there are; the peer closed or the call
  failed; or it would block, and the await on the reactor came back with the given flag.
\<close>

datatype io_answer = IoMoved nat | IoClosed | IoBlocked bool

fun read_exact :: "io_answer list \<Rightarrow> nat \<Rightarrow> u8 list \<Rightarrow> u8 list \<Rightarrow> (bool \<times> u8 list \<times> u8 list \<times> io_answer list) option" where
  "read_exact script 0 buf incoming = Some (True, buf, incoming, script)"
| "read_exact [] (Suc k) buf incoming = None"
| "read_exact (IoClosed # script) (Suc k) buf incoming = Some (False, buf, incoming, script)"
| "read_exact (IoBlocked ready # script) (Suc k) buf incoming =
     (if ready then read_exact script (Suc k) buf incoming else Some (False, buf, incoming, script))"
| "read_exact (IoMoved n # script) (Suc k) buf incoming =
     (let chunk = take (min (Suc n) (Suc k)) incoming
      in read_exact script (Suc k - length chunk) (buf @ chunk) (drop (length chunk) incoming))"

fun write_exact :: "io_answer list \<Rightarrow> u8 list \<Rightarrow> u8 list \<Rightarrow> (bool \<times> u8 list \<times> io_answer list) option" where
  "write_exact script [] wire = Some (True, wire, script)"
| "write_exact [] (b # bs) wire = None"
| "write_exact (IoClosed # script) (b # bs) wire = Some (False, wire, script)"
| "write_exact (IoBlocked ready # script) (b # bs) wire =
     (if ready then write_exact script (b # bs) wire else Some (False, wire, script))"
| "write_exact (IoMoved n # script) (b # bs) wire =
     write_exact script (drop (Suc n) (b # bs)) (wire @ take (Suc n) (b # bs))"

section \<open>A connection\<close>

definition write_response :: "io_answer list \<Rightarrow> u8 list \<Rightarrow> u8 list option" where
  "write_response writes response =
     (case write_exact writes (encode_u32_be (of_nat (length response))) [] of
        None \<Rightarrow> None
      | Some (False, wire, _) \<Rightarrow> Some wire
      | Some (True, wire, writes') \<Rightarrow> map_option (\<lambda>(_, w, _). w) (write_exact writes' response wire))"

text \<open>
  What a connection writes back; \<open>stopping\<close> is the flag after the payload has arrived. The handler runs
  on the pool, where the coroutine continues.
\<close>

definition handle_connection :: "io_answer list \<Rightarrow> io_answer list \<Rightarrow> bool \<Rightarrow> (u8 list \<Rightarrow> u8 list) \<Rightarrow> u8 list \<Rightarrow> u8 list option" where
  "handle_connection reads writes stopping handler incoming =
     (case read_exact reads 4 [] incoming of
        None \<Rightarrow> None
      | Some (False, _, _, _) \<Rightarrow> Some []
      | Some (True, header, rest, reads') \<Rightarrow>
          (let len = unat (decode_u32_be header)
           in if \<not> len \<le> MAX_MESSAGE_SIZE then Some []
              else case (if len = 0 then Some (True, [], rest, reads') else read_exact reads' len [] rest) of
                None \<Rightarrow> None
              | Some (False, _, _, _) \<Rightarrow> Some []
              | Some (True, payload, _, _) \<Rightarrow>
                  (if stopping then Some [] else write_response writes (handler payload))))"

section \<open>The server\<close>

record AsyncTransport =
  as_server_fd :: int
  as_stopping :: bool
  as_active :: nat
  as_reactor :: EpollReactor
  as_open_fds :: "int list"

definition new_async_transport :: "int \<Rightarrow> int \<Rightarrow> AsyncTransport" where
  "new_async_transport efd wfd =
     \<lparr>as_server_fd = -1, as_stopping = False, as_active = 0, as_reactor = new_reactor efd wfd, as_open_fds = []\<rparr>"

definition as_close :: "int \<Rightarrow> AsyncTransport \<Rightarrow> AsyncTransport" where
  "as_close fd t = t\<lparr>as_open_fds := removeAll fd (as_open_fds t)\<rparr>"

definition async_listen :: "ListenAnswers \<Rightarrow> AsyncTransport \<Rightarrow> (error, unit) result \<times> AsyncTransport" where
  "async_listen os t =
     (if as_server_fd t \<ge> 0 then (Inl ''Already listening'', t)
      else case la_socket os of
        Inl err \<Rightarrow> (Inl (''Failed to create server socket: '' @ err), t\<lparr>as_server_fd := -1\<rparr>)
      | Inr fd \<Rightarrow>
          (let t1 = t\<lparr>as_server_fd := fd, as_open_fds := fd # as_open_fds t\<rparr>;
               failed = (as_close fd t1)\<lparr>as_server_fd := -1\<rparr>
           in case la_bind os of
                Some err \<Rightarrow> (Inl (''Bind failed: '' @ err), failed)
              | None \<Rightarrow>
                  (case la_listen os of
                     Some err \<Rightarrow> (Inl (''Listen failed: '' @ err), failed)
                   | None \<Rightarrow> (Inr (), t1))))"

text \<open>
  \<^verbatim>\<open>serve\<close> runs the accept coroutine up to its first await, which parks it on the reactor. A reactor that could
  not start refuses to park it, and the coroutine spins inside \<^verbatim>\<open>serve\<close>, which does not return.
\<close>

definition async_serve :: "AsyncTransport \<Rightarrow> AsyncTransport option" where
  "async_serve t =
     (if as_server_fd t < 0 \<or> re_running (as_reactor t) then Some t
      else let t1 = t\<lparr>as_stopping := False, as_reactor := reactor_start (as_reactor t)\<rparr>
        in if re_running (as_reactor t1) then Some t1 else None)"

text \<open>
  The accept coroutine and the life of its connections: a readiness event hands over the clients that
  are queued, and each connection ends on its own.
\<close>

datatype accept_event = NothingReady | Clients "int list" | Ended int

definition connection_start :: "int \<Rightarrow> AsyncTransport \<Rightarrow> AsyncTransport" where
  "connection_start fd t = t\<lparr>as_active := as_active t + 1, as_open_fds := fd # as_open_fds t\<rparr>"

definition connection_end :: "int \<Rightarrow> AsyncTransport \<Rightarrow> AsyncTransport" where
  "connection_end fd t = (as_close fd t)\<lparr>as_active := as_active t - 1\<rparr>"

fun accept_loop :: "accept_event list \<Rightarrow> AsyncTransport \<Rightarrow> AsyncTransport" where
  "accept_loop [] t = t"
| "accept_loop (NothingReady # es) t = accept_loop es t"
| "accept_loop (Clients fds # es) t = accept_loop es (if as_stopping t then t else fold connection_start fds t)"
| "accept_loop (Ended fd # es) t = accept_loop es (connection_end fd t)"

text \<open>
  \<^verbatim>\<open>stop_serving\<close>. \<open>sa_reactor\<close> are the kernel's answers to the reactor thread until it returns, \<open>sa_started\<close> is
  the clock when the wait for the connections starts, and \<open>sa_waits\<close> has, for each pass of that wait, the
  clock and the connections that end while the thread sleeps.
\<close>

record StopAnswers =
  sa_reactor :: "(int \<times> int list) list"
  sa_started :: int
  sa_waits :: "(int \<times> int list) list"

fun wait_connections :: "int \<Rightarrow> (int \<times> int list) list \<Rightarrow> AsyncTransport \<Rightarrow> AsyncTransport option" where
  "wait_connections deadline [] t = (if as_active t = 0 then Some t else None)"
| "wait_connections deadline ((now, ended) # waits) t =
     (if 0 < as_active t \<and> now < deadline then wait_connections deadline waits (fold connection_end ended t) else Some t)"

definition close_server :: "AsyncTransport \<Rightarrow> AsyncTransport" where
  "close_server t = (if as_server_fd t \<ge> 0 then (as_close (as_server_fd t) t)\<lparr>as_server_fd := -1\<rparr> else t)"

definition async_stop_serving :: "(int list \<Rightarrow> int list) \<Rightarrow> StopAnswers \<Rightarrow> AsyncTransport \<Rightarrow> AsyncTransport option" where
  "async_stop_serving ord sa t =
     (if as_stopping t then Some t
      else let t1 = t\<lparr>as_stopping := True\<rparr>;
               stopped = (if \<not> re_running (as_reactor t1) then Some (as_reactor t1)
                 else reactor_join (loop_steps ord (sa_reactor sa) (reactor_request_stop (as_reactor t1))))
        in case stopped of
             None \<Rightarrow> None
           | Some r \<Rightarrow> map_option close_server
               (wait_connections (sa_started sa + 2 * 1000000000) (sa_waits sa) (t1\<lparr>as_reactor := r\<rparr>)))"

definition async_is_listening :: "AsyncTransport \<Rightarrow> bool" where
  "async_is_listening t \<longleftrightarrow> as_server_fd t \<ge> 0"

definition active_connections :: "AsyncTransport \<Rightarrow> nat" where
  "active_connections t = as_active t"

section \<open>The loops are those of the synchronous transport\<close>

fun recv_of :: "io_answer \<Rightarrow> recv_answer" where
  "recv_of (IoMoved n) = RSome n" | "recv_of IoClosed = RClosed" | "recv_of (IoBlocked True) = RAgain" | "recv_of (IoBlocked False) = RPollFails"

fun send_of :: "io_answer \<Rightarrow> send_answer" where
  "send_of (IoMoved n) = SSome n" | "send_of IoClosed = SFails" | "send_of (IoBlocked True) = SAgain" | "send_of (IoBlocked False) = SPollFails"

lemma read_exact_recv_all:
  "recv_all (map recv_of script) k buf incoming =
     map_option (\<lambda>(ok, b, rest, script'). (ok, b, rest, map recv_of script')) (read_exact script k buf incoming)"
  by (induction script k buf incoming rule: read_exact.induct) (auto simp: Let_def)

lemma write_exact_send_all:
  "send_all (map send_of script) data wire =
     map_option (\<lambda>(ok, w, script'). (ok, w, map send_of script')) (write_exact script data wire)"
  by (induction script data wire rule: write_exact.induct) auto

lemma header_functions: "encode_u32_be = encode_u32" "decode_u32_be = decode_u32"
  by (auto simp: encode_u32_be_def encode_u32_def decode_u32_be_def decode_u32_def)

lemma write_response_send:
  assumes "length response \<le> MAX_MESSAGE_SIZE"
  shows "write_response writes response = map_option (\<lambda>(_, wire, _). wire) (send_on_fd (map send_of writes) response)"
proof -
  have nil: "write_exact w [] wire = Some (True, wire, w)" for w wire by (cases w) simp_all
  show ?thesis
    using assms unfolding write_response_def send_on_fd_def write_exact_send_all header_functions
    by (cases "write_exact writes (encode_u32 (of_nat (length response))) []")
      (auto simp: nil write_exact_send_all option.map_comp comp_def case_prod_beta split: prod.splits bool.splits option.splits)
qed

text \<open>
  A connection answers what the synchronous server answers, for responses within the limit; above
  the limit the synchronous server stays silent and this one sends the frame.
\<close>

lemma handle_connection_serve:
  assumes "\<And>p. length (handler p) \<le> MAX_MESSAGE_SIZE"
  shows "handle_connection reads writes False handler incoming =
    serve_connection (map recv_of reads) (map send_of writes) handler incoming"
proof (cases "read_exact reads 4 [] incoming")
  case None
  then show ?thesis by (simp add: handle_connection_def serve_connection_def recv_on_fd_def read_exact_recv_all)
next
  case (Some r)
  obtain ok header rest reads' where r: "r = (ok, header, rest, reads')" by (cases r)
  let ?len = "unat (decode_u32 header)"
  have z: "(if ?len = 0 then Some (True, [], rest, reads') else read_exact reads' ?len [] rest) = read_exact reads' ?len [] rest"
    by (cases reads') simp_all
  show ?thesis
    unfolding handle_connection_def serve_connection_def recv_on_fd_def read_exact_recv_all header_functions Some r
    by (cases ok; cases "read_exact reads' ?len [] rest")
      (auto simp: Let_def z not_le read_exact_recv_all write_response_send [OF assms] split: prod.splits bool.splits)
qed

section \<open>Properties\<close>

definition io_healthy :: "io_answer list \<Rightarrow> bool" where
  "io_healthy script \<longleftrightarrow> IoClosed \<notin> set script \<and> IoBlocked False \<notin> set script"

fun io_progress :: "io_answer list \<Rightarrow> nat" where
  "io_progress [] = 0"
| "io_progress (IoMoved n # script) = Suc (io_progress script)"
| "io_progress (_ # script) = io_progress script"

lemma script_map:
  "recv_healthy (map recv_of script) \<longleftrightarrow> io_healthy script" "send_healthy (map send_of script) \<longleftrightarrow> io_healthy script"
  "recv_progress (map recv_of script) = io_progress script" "send_progress (map send_of script) = io_progress script"
proof (induction script)
  case (Cons a script)
  { case 1 then show ?case using Cons by (cases a rule: recv_of.cases) (auto simp: recv_healthy_def io_healthy_def) }
  { case 2 then show ?case using Cons by (cases a rule: recv_of.cases) (auto simp: send_healthy_def io_healthy_def) }
  { case 3 then show ?case using Cons by (cases a rule: recv_of.cases) auto }
  { case 4 then show ?case using Cons by (cases a rule: recv_of.cases) auto }
qed (simp_all add: recv_healthy_def send_healthy_def io_healthy_def)

lemma read_exact_completes:
  assumes "io_healthy script" "k \<le> io_progress script" "k \<le> length incoming"
  shows "\<exists>script'. read_exact script k buf incoming = Some (True, buf @ take k incoming, drop k incoming, script') \<and>
    io_healthy script' \<and> io_progress script \<le> io_progress script' + k"
proof -
  obtain s' where "recv_all (map recv_of script) k buf incoming = Some (True, buf @ take k incoming, drop k incoming, s')"
    "recv_healthy s'" "io_progress script \<le> recv_progress s' + k"
    using recv_all_completes [of "map recv_of script" k incoming buf] assms by (auto simp: script_map)
  then show ?thesis by (auto simp: read_exact_recv_all script_map)
qed

lemma handle_connection_frame:
  assumes "length request \<le> MAX_MESSAGE_SIZE" "length (handler request) \<le> MAX_MESSAGE_SIZE"
    and "io_healthy reads" "4 + length request \<le> io_progress reads"
    and "io_healthy writes" "4 + length (handler request) \<le> io_progress writes"
  shows "handle_connection reads writes False handler (frame request) = Some (frame (handler request))"
proof -
  let ?h = "encode_u32 (of_nat (length request))"
  have len: "unat (of_nat (length request) :: u32) = length request" using assms(1) by (simp add: unat_of_nat MAX_MESSAGE_SIZE_def)
  obtain r1 where r1: "read_exact reads 4 [] (frame request) = Some (True, ?h, request, r1)" "io_healthy r1" "io_progress reads \<le> io_progress r1 + 4"
    using read_exact_completes [OF assms(3), of 4 "frame request" "[]"] assms(4) by (auto simp: frame_def)
  obtain r2 where r2: "read_exact r1 (length request) [] request = Some (True, request, [], r2)"
    using read_exact_completes [OF r1(2), of "length request" request "[]"] r1(3) assms(4) by auto
  have "write_response writes (handler request) = Some (frame (handler request))"
    using send_frame [OF assms(2), of "map send_of writes"] assms(5,6) by (auto simp: script_map write_response_send [OF assms(2)])
  then show ?thesis using r1(1) r2 assms(1) by (auto simp: handle_connection_def header_functions len)
qed

text \<open>
  C27. The synchronous client and the asynchronous server understand each other: however the kernel splits
  the bytes and whenever the coroutine is parked, a request within the size limit reaches the handler
  unchanged, and the client receives exactly the handler's answer.
\<close>

theorem async_call_roundtrip:
  assumes "length request \<le> MAX_MESSAGE_SIZE" "length (handler request) \<le> MAX_MESSAGE_SIZE"
    and "send_healthy cs" "4 + length request \<le> send_progress cs"
    and "io_healthy reads" "4 + length request \<le> io_progress reads"
    and "io_healthy writes" "4 + length (handler request) \<le> io_progress writes"
    and "recv_healthy cr" "4 + length (handler request) \<le> recv_progress cr"
  shows "\<exists>sent answer cs' cr'. send_on_fd cs request = Some (Inr (), sent, cs') \<and>
    handle_connection reads writes False handler sent = Some answer \<and>
    recv_on_fd cr answer = Some (Inr (handler request), [], cr')"
  using send_frame [OF assms(1,3,4)] handle_connection_frame [where handler = handler, OF assms(1,2,5-8)] recv_frame [OF assms(2,9,10), of "[]"] by auto

definition sample_io :: "io_answer list" where
  "sample_io = [IoBlocked True, IoMoved 1, IoMoved 0, IoMoved 0, IoBlocked True, IoMoved 4, IoMoved 0, IoMoved 0, IoMoved 0]"

theorem async_call_roundtrip_witness:
  "\<exists>sent answer cs' cr'. send_on_fd sample_sends [1, 2, 3] = Some (Inr (), sent, cs') \<and>
    handle_connection sample_io sample_io False rev sent = Some answer \<and>
    recv_on_fd sample_recvs answer = Some (Inr [3, 2, 1], [], cr')"
  using async_call_roundtrip [of "[1, 2, 3]" rev sample_sends sample_io sample_io sample_recvs]
  by (simp add: MAX_MESSAGE_SIZE_def send_healthy_def recv_healthy_def io_healthy_def sample_sends_def sample_recvs_def sample_io_def)

text \<open>A server whose reactor thread runs, in any state it can reach.\<close>

definition reactor_live :: "EpollReactor \<Rightarrow> bool" where
  "reactor_live r \<longleftrightarrow> reactor_inv r \<and> drain_inv r \<and> re_phase r \<noteq> NotStarted \<and> re_running r"

lemma started_live:
  assumes "order_ok ord" "run_parks_apart ord as (reactor_start (new_reactor efd wfd))" "0 \<le> efd"
  shows "reactor_live (reactor_run ord as (reactor_start (new_reactor efd wfd)))"
proof -
  let ?start = "reactor_start (new_reactor efd wfd)"
  have "re_running ?start" "re_phase ?start = AtTop" using assms(3) by (simp_all add: reactor_start_def new_reactor_def)
  then show ?thesis
    unfolding reactor_live_def using reactor_run_inv [OF new_reactor_inv assms(1,2)] reactor_run_drain [OF new_reactor_inv assms(1) started_drain assms(2)]
      reactor_started [of ?start ord as] assms(3) by (simp add: reactor_run_running)
qed

text \<open>The wait ends by the first reading at or after the deadline, and touches only the connections.\<close>

definition deadline_passes :: "StopAnswers \<Rightarrow> bool" where
  "deadline_passes sa \<longleftrightarrow> list_ex (\<lambda>(now, _). sa_started sa + 2 * 1000000000 \<le> now) (sa_waits sa)"

lemma connection_end_fields [simp]:
  "as_server_fd (fold connection_end fds t) = as_server_fd t" "as_stopping (fold connection_end fds t) = as_stopping t"
  "as_reactor (fold connection_end fds t) = as_reactor t"
  by (induction fds arbitrary: t) (simp_all add: connection_end_def as_close_def)

lemma wait_connections_ends:
  "list_ex (\<lambda>(now, _). deadline \<le> now) waits \<Longrightarrow> \<exists>u. wait_connections deadline waits t = Some u \<and>
     as_server_fd u = as_server_fd t \<and> as_stopping u = as_stopping t \<and> as_reactor u = as_reactor t"
  by (induction deadline waits t rule: wait_connections.induct) auto

text \<open>A server whose reactor thread runs stops, whatever the state of its coroutines.\<close>

lemma live_server_stops:
  assumes "order_ok ord" "reactor_live (as_reactor t)" "\<not> as_stopping t" "deadline_passes sa"
    and "3 * length (waiters (as_reactor t)) + length (to_resume (as_reactor t)) + 5 \<le> length (sa_reactor sa)"
  shows "\<exists>u. async_stop_serving ord sa t = Some (close_server u) \<and> as_server_fd u = as_server_fd t \<and> as_stopping u \<and>
    \<not> re_running (as_reactor u) \<and> mset (map fst (re_resumed (as_reactor u))) = mset (re_parked (as_reactor t))"
proof -
  let ?r = "reactor_request_stop (as_reactor t)"
  have run: "reactor_inv (as_reactor t)" "drain_inv (as_reactor t)" "re_phase (as_reactor t) \<noteq> NotStarted" "re_running (as_reactor t)"
    using assms(2) by (simp_all add: reactor_live_def)
  have inv: "reactor_inv ?r" "drain_inv ?r"
    using reactor_step_inv [OF run(1) assms(1), of RequestStop] reactor_step_drain [OF run(1) assms(1) run(2), of RequestStop] by simp_all
  have eq: "waiters ?r = waiters (as_reactor t)" "to_resume ?r = to_resume (as_reactor t)" "re_parked ?r = re_parked (as_reactor t)"
    "re_stop ?r" "re_phase ?r = re_phase (as_reactor t)"
    using run(4) by (simp_all add: reactor_request_stop_def)
  define l where "l = loop_steps ord (sa_reactor sa) ?r"
  have l: "re_phase l = Exited" "mset (map fst (re_resumed l)) = mset (re_parked (as_reactor t))"
    using stop_drains [OF inv(1) assms(1) inv(2) eq(4), of "sa_reactor sa"] run(3) assms(5) unfolding l_def eq by simp_all
  let ?t = "t\<lparr>as_stopping := True, as_reactor := l\<lparr>re_running := False\<rparr>\<rparr>"
  obtain u where u: "wait_connections (sa_started sa + 2 * 1000000000) (sa_waits sa) ?t = Some u" "as_server_fd u = as_server_fd t"
    "as_stopping u" "as_reactor u = l\<lparr>re_running := False\<rparr>"
    using wait_connections_ends [of "sa_started sa + 2 * 1000000000" "sa_waits sa" ?t] assms(4) by (auto simp: deadline_passes_def)
  have "async_stop_serving ord sa t = Some (close_server u)"
    using assms(3) run(4) l(1) u(1) by (simp add: async_stop_serving_def reactor_join_def l_def [symmetric])
  then show ?thesis using u l(2) by (intro exI [of _ u]) simp
qed


definition sample_server :: AsyncTransport where
  "sample_server = (new_async_transport 3 4)\<lparr>as_server_fd := 5, as_open_fds := [8, 5], as_active := 1,
     as_reactor := reactor_run id [Park 0 True 1 (wait_readable 5 500)] (reactor_start (new_reactor 3 4))\<rparr>"

text \<open>The connection on descriptor 8 does not end, and the wait runs into its deadline.\<close>

definition sample_stop :: StopAnswers where
  "sample_stop = \<lparr>sa_reactor = replicate 8 (0, []), sa_started = 0, sa_waits = [(10, []), (2000000000, [])]\<rparr>"


text \<open>A socket opened after a stop and before the next \<^verbatim>\<open>serve\<close> is not closed by the destructor.\<close>

theorem relisten_leaks:
  "let t1 = the (async_stop_serving id sa (new_async_transport 3 4));
       t2 = snd (async_listen \<lparr>la_socket = Inr 9, la_bind = None, la_listen = None\<rparr> t1)
   in async_stop_serving id sa t2 = Some t2 \<and> as_open_fds t2 = [9]"
proof -
  have "wait_connections d waits t = Some t" if "as_active t = 0" for d waits t
    using that by (cases waits) auto
  then show ?thesis
    by (simp add: async_stop_serving_def new_async_transport_def new_reactor_def close_server_def async_listen_def Let_def)
qed

text \<open>When the epoll descriptor could not be created, \<^verbatim>\<open>serve\<close> on a listening server never returns.\<close>

theorem serve_spins:
  assumes "efd < 0" "0 \<le> as_server_fd t" "as_reactor t = new_reactor efd wfd"
  shows "async_serve t = None"
  using assms by (simp add: async_serve_def new_reactor_def reactor_start_def Let_def)

end
