(* ===== verification/Offload_Codec.thy ===== *)
theory Offload_Codec
  imports Dag_Cycle Scheduler
begin

text \<open>
  The message codec: \<^verbatim>\<open>src/orchestrator/offload_codec.cpp\<close> with the schema \<^verbatim>\<open>proto/protocol.proto\<close>.
  The classes that \<^verbatim>\<open>protoc\<close> generates are a parameter: what \<^verbatim>\<open>SerializeToArray\<close> leaves in the
  buffer and what \<^verbatim>\<open>ParseFromArray\<close> reads from it. A decoder takes its out-parameters and returns
  them with its answer.
\<close>

section \<open>The schema\<close>

record ResourceSummary =
  rs_cpu_usage_percent :: f32
  rs_memory_available_bytes :: u64
  rs_memory_total_bytes :: u64
  rs_temperature_celsius :: f32
  rs_is_throttled :: bool
  rs_network_rx_bytes_sec :: u64
  rs_network_tx_bytes_sec :: u64

record NodeAdvertisement =
  na_node_id :: string
  na_address :: string
  na_tcp_port :: u32
  na_resources :: "ResourceSummary option"
  na_timestamp_ms :: u64

record TaskProfileMsg =
  m_compute_cost_us :: u64
  m_memory_bytes :: u64
  m_input_bytes :: u64
  m_output_bytes :: u64

record OffloadRequest =
  rq_request_id :: string
  rq_task_id :: string
  rq_task_name :: string
  rq_profile :: "TaskProfileMsg option"
  rq_input_data :: "u8 list"

record OffloadResponse =
  rp_request_id :: string
  rp_task_id :: string
  rp_success :: bool
  rp_output_data :: "u8 list"
  rp_actual_duration_us :: u64
  rp_peak_memory_bytes :: u64
  rp_error_message :: string

record TaskSpec =
  ts_task_id :: string
  ts_name :: string
  ts_profile :: "TaskProfileMsg option"
  ts_dependencies :: "string list"

record WorkloadSubmission =
  ws_workload_id :: string
  ws_tasks :: "TaskSpec list"

record WorkloadResult =
  wr_workload_id :: string
  wr_accepted :: bool
  wr_error_message :: string
  wr_local_tasks :: u64
  wr_offloaded_tasks :: u64
  wr_completed_tasks :: u64
  wr_failed_tasks :: u64
  wr_offload_fallbacks :: u64
  wr_makespan_estimate_us :: u64
  wr_total_duration_us :: u64

datatype Envelope = NotSet | Advertisement NodeAdvertisement | Request OffloadRequest
  | Response OffloadResponse | Submission WorkloadSubmission | WResult WorkloadResult

section \<open>The generated classes\<close>

text \<open>
  \<open>pb_valid\<close> holds for the messages that protobuf can carry: strings in UTF-8 and less than 2 GB in
  all. The documented behaviour the codec relies on is that those parse back.
\<close>

record protobuf =
  pb_to_array :: "Envelope \<Rightarrow> u8 list"
  pb_parse :: "u8 list \<Rightarrow> int \<Rightarrow> Envelope option"
  pb_valid :: "Envelope \<Rightarrow> bool"

definition pb_law :: "protobuf \<Rightarrow> bool" where
  "pb_law pb \<longleftrightarrow> (\<forall>e. pb_valid pb e \<longrightarrow> length (pb_to_array pb e) < 2 ^ 31 \<and>
     pb_parse pb (pb_to_array pb e) (int (length (pb_to_array pb e))) = Some e)"

text \<open>The size is cast to \<^verbatim>\<open>int\<close>.\<close>

definition parse_from_array :: "protobuf \<Rightarrow> u8 list \<Rightarrow> Envelope option" where
  "parse_from_array pb data = pb_parse pb data (sint (of_nat (length data) :: u32))"

definition us_of :: "Duration \<Rightarrow> u64" where "us_of d = word_of_int d"
definition of_us :: "u64 \<Rightarrow> Duration" where "of_us w = sint w"

definition int64_ok :: "Duration \<Rightarrow> bool" where
  "int64_ok d \<longleftrightarrow> - (2 ^ 63) \<le> d \<and> d < 2 ^ 63"

definition profile_msg :: "TaskProfile \<Rightarrow> TaskProfileMsg" where
  "profile_msg p = \<lparr>m_compute_cost_us = us_of (compute_cost p), m_memory_bytes = memory_bytes p,
     m_input_bytes = input_bytes p, m_output_bytes = output_bytes p\<rparr>"

text \<open>The getter of a sub-message returns the default instance when the field is absent.\<close>

definition default_profile_msg :: TaskProfileMsg where
  "default_profile_msg = \<lparr>m_compute_cost_us = 0, m_memory_bytes = 0, m_input_bytes = 0, m_output_bytes = 0\<rparr>"

definition profile_of :: "TaskProfileMsg option \<Rightarrow> TaskProfile" where
  "profile_of m = (let p = (case m of None \<Rightarrow> default_profile_msg | Some p \<Rightarrow> p)
     in \<lparr>compute_cost = of_us (m_compute_cost_us p), memory_bytes = m_memory_bytes p,
         input_bytes = m_input_bytes p, output_bytes = m_output_bytes p\<rparr>)"

section \<open>Dispatch\<close>

datatype WireKind = UnknownKind | OffloadRequestKind | OffloadResponseKind | WorkloadSubmissionKind | WorkloadResultKind

definition classify :: "protobuf \<Rightarrow> u8 list \<Rightarrow> WireKind" where
  "classify pb data = (case parse_from_array pb data of
       None \<Rightarrow> UnknownKind
     | Some (Request _) \<Rightarrow> OffloadRequestKind
     | Some (Response _) \<Rightarrow> OffloadResponseKind
     | Some (Submission _) \<Rightarrow> WorkloadSubmissionKind
     | Some (WResult _) \<Rightarrow> WorkloadResultKind
     | Some _ \<Rightarrow> UnknownKind)"

section \<open>Requests and responses\<close>

definition request_env :: "TaskId \<Rightarrow> TaskProfile \<Rightarrow> u8 list \<Rightarrow> Envelope" where
  "request_env task_id profile input_data =
     Request \<lparr>rq_request_id = [], rq_task_id = task_id, rq_task_name = [],
       rq_profile = Some (profile_msg profile), rq_input_data = input_data\<rparr>"

definition encode_request :: "protobuf \<Rightarrow> TaskId \<Rightarrow> TaskProfile \<Rightarrow> u8 list \<Rightarrow> u8 list" where
  "encode_request pb task_id profile input_data = pb_to_array pb (request_env task_id profile input_data)"

definition decode_request ::
  "protobuf \<Rightarrow> u8 list \<Rightarrow> TaskId \<times> TaskProfile \<times> u8 list \<Rightarrow> bool \<times> TaskId \<times> TaskProfile \<times> u8 list" where
  "decode_request pb data out = (case parse_from_array pb data of
       Some (Request req) \<Rightarrow> (True, rq_task_id req, profile_of (rq_profile req), rq_input_data req)
     | _ \<Rightarrow> (False, out))"

type_synonym response_out = "bool \<times> Duration \<times> u64 \<times> string \<times> u8 list"

definition response_env :: "response_out \<Rightarrow> Envelope" where
  "response_env r = (case r of (success, duration, peak_memory, error_msg, output) \<Rightarrow>
     Response \<lparr>rp_request_id = [], rp_task_id = [], rp_success = success, rp_output_data = output,
       rp_actual_duration_us = us_of duration, rp_peak_memory_bytes = peak_memory, rp_error_message = error_msg\<rparr>)"

definition encode_response :: "protobuf \<Rightarrow> response_out \<Rightarrow> u8 list" where
  "encode_response pb r = pb_to_array pb (response_env r)"

definition decode_response :: "protobuf \<Rightarrow> u8 list \<Rightarrow> response_out \<Rightarrow> bool \<times> response_out" where
  "decode_response pb data out = (case parse_from_array pb data of
       Some (Response resp) \<Rightarrow> (True, rp_success resp, of_us (rp_actual_duration_us resp),
         rp_peak_memory_bytes resp, rp_error_message resp, rp_output_data resp)
     | _ \<Rightarrow> (False, out))"

section \<open>Workload submissions\<close>

definition task_spec :: "Task \<Rightarrow> TaskSpec" where
  "task_spec t = \<lparr>ts_task_id = t_id t, ts_name = t_name t, ts_profile = Some (profile_msg (t_profile t)),
     ts_dependencies = t_dependencies t\<rparr>"

definition submission_specs :: "order \<Rightarrow> WorkloadDAG \<Rightarrow> TaskSpec list" where
  "submission_specs ord d = map task_spec (List.map_filter (get_task d) (topological_order ord d))"

definition submission_env :: "order \<Rightarrow> string \<Rightarrow> WorkloadDAG \<Rightarrow> Envelope" where
  "submission_env ord workload_id d =
     Submission \<lparr>ws_workload_id = workload_id, ws_tasks = submission_specs ord d\<rparr>"

definition encode_submission :: "protobuf \<Rightarrow> order \<Rightarrow> string \<Rightarrow> WorkloadDAG \<Rightarrow> u8 list" where
  "encode_submission pb ord workload_id d = pb_to_array pb (submission_env ord workload_id d)"

definition spec_task :: "TaskSpec \<Rightarrow> Task" where
  "spec_task spec = \<lparr>t_id = ts_task_id spec, t_name = ts_name spec, t_profile = profile_of (ts_profile spec),
     t_dependencies = [], t_state = Pending\<rparr>"

definition add_spec_tasks :: "TaskSpec list \<Rightarrow> WorkloadDAG \<Rightarrow> WorkloadDAG" where
  "add_spec_tasks specs d = fold (\<lambda>spec d. fst (add_task (spec_task spec) d)) specs d"

definition add_spec_edges :: "TaskSpec list \<Rightarrow> WorkloadDAG \<Rightarrow> WorkloadDAG" where
  "add_spec_edges specs d =
     fold (\<lambda>spec d. fold (\<lambda>dep d. add_dependency dep (ts_task_id spec) d) (ts_dependencies spec) d) specs d"

definition decode_submission ::
  "protobuf \<Rightarrow> order \<Rightarrow> u8 list \<Rightarrow> string \<times> WorkloadDAG \<Rightarrow> bool \<times> string \<times> WorkloadDAG" where
  "decode_submission pb ord data out = (case parse_from_array pb data of
       Some (Submission sub) \<Rightarrow>
         (let dag = add_spec_edges (ws_tasks sub) (add_spec_tasks (ws_tasks sub) (snd out))
          in (is_valid ord dag \<and> \<not> has_cycle ord dag, ws_workload_id sub, dag))
     | _ \<Rightarrow> (False, out))"

section \<open>Workload results\<close>

record OrchestrationResult =
  plan :: SchedulingPlan
  local_tasks :: u64
  offloaded_tasks :: u64
  completed_tasks :: u64
  failed_tasks :: u64
  offload_fallbacks :: u64
  total_duration :: Duration

definition workload_result_env :: "string \<Rightarrow> bool \<Rightarrow> string \<Rightarrow> OrchestrationResult \<Rightarrow> Envelope" where
  "workload_result_env workload_id accepted error_msg r =
     WResult \<lparr>wr_workload_id = workload_id, wr_accepted = accepted, wr_error_message = error_msg,
       wr_local_tasks = local_tasks r, wr_offloaded_tasks = offloaded_tasks r,
       wr_completed_tasks = completed_tasks r, wr_failed_tasks = failed_tasks r,
       wr_offload_fallbacks = offload_fallbacks r,
       wr_makespan_estimate_us = us_of (estimated_makespan (plan r)),
       wr_total_duration_us = us_of (total_duration r)\<rparr>"

definition encode_workload_result ::
  "protobuf \<Rightarrow> string \<Rightarrow> bool \<Rightarrow> string \<Rightarrow> OrchestrationResult \<Rightarrow> u8 list" where
  "encode_workload_result pb workload_id accepted error_msg r =
     pb_to_array pb (workload_result_env workload_id accepted error_msg r)"

definition decode_workload_result ::
  "protobuf \<Rightarrow> u8 list \<Rightarrow> string \<times> bool \<times> string \<times> OrchestrationResult \<Rightarrow>
     bool \<times> string \<times> bool \<times> string \<times> OrchestrationResult" where
  "decode_workload_result pb data out = (case parse_from_array pb data of
       Some (WResult res) \<Rightarrow>
         (let r = snd (snd (snd out))
          in (True, wr_workload_id res, wr_accepted res, wr_error_message res,
              r\<lparr>local_tasks := wr_local_tasks res, offloaded_tasks := wr_offloaded_tasks res,
                completed_tasks := wr_completed_tasks res, failed_tasks := wr_failed_tasks res,
                offload_fallbacks := wr_offload_fallbacks res,
                plan := (plan r)\<lparr>estimated_makespan := of_us (wr_makespan_estimate_us res)\<rparr>,
                total_duration := of_us (wr_total_duration_us res)\<rparr>))
     | _ \<Rightarrow> (False, out))"

section \<open>Field round trips\<close>

lemma of_us_of [simp]: "int64_ok d \<Longrightarrow> of_us (us_of d) = d"
  by (simp add: of_us_def us_of_def int64_ok_def sint_sbintrunc' signed_take_bit_int_eq_self)

lemma profile_roundtrip [simp]: "int64_ok (compute_cost p) \<Longrightarrow> profile_of (Some (profile_msg p)) = p"
  by (simp add: profile_of_def profile_msg_def)

lemma sint_length: "n < 2 ^ 31 \<Longrightarrow> sint (of_nat n :: u32) = int n"
  using sint_sbintrunc' [of "int n", where 'a = 32] by (simp add: signed_take_bit_int_eq_self)

lemma parse_encoded: "pb_law pb \<Longrightarrow> pb_valid pb e \<Longrightarrow> parse_from_array pb (pb_to_array pb e) = Some e"
  by (simp add: pb_law_def parse_from_array_def sint_length)

section \<open>Rebuilding a graph\<close>

text \<open>
  Tasks enter a graph without dependencies, and \<open>add_dependency\<close> records each one once; a graph
  built this way lists, in every task, exactly the dependencies of its edges.
\<close>

definition deps_recorded :: "WorkloadDAG \<Rightarrow> bool" where
  "deps_recorded d \<longleftrightarrow> (\<forall>(i, t) \<in> set (tasks d). distinct (t_dependencies t) \<and> set (t_dependencies t) = set (dependencies d i))"

definition spec_edges :: "TaskSpec list \<Rightarrow> (TaskId \<times> TaskId) list" where
  "spec_edges specs = concat (map (\<lambda>s. map (\<lambda>dep. (dep, ts_task_id s)) (ts_dependencies s)) specs)"

lemma fold_deps: "fold (\<lambda>dep d. add_dependency dep v d) deps d = fold (\<lambda>(u, v). add_dependency u v) (map (\<lambda>dep. (dep, v)) deps) d"
  by (induction deps arbitrary: d) simp_all

lemma add_spec_edges_fold: "add_spec_edges specs d = fold (\<lambda>(u, v). add_dependency u v) (spec_edges specs) d"
  unfolding add_spec_edges_def spec_edges_def by (induction specs arbitrary: d) (simp_all add: fold_deps)

lemma add_spec_tasks_fold: "add_spec_tasks specs d = fold (\<lambda>t d. fst (add_task t d)) (map spec_task specs) d"
  unfolding add_spec_tasks_def by (induction specs arbitrary: d) simp_all

lemma decoded_build_dag: "add_spec_edges specs (add_spec_tasks specs empty_dag) = build_dag (map spec_task specs) (spec_edges specs)"
  by (simp add: build_dag_def add_spec_edges_fold add_spec_tasks_fold)

text \<open>What a sequence of calls makes of one task.\<close>

definition add_new :: "'a list \<Rightarrow> 'a list \<Rightarrow> 'a list" where
  "add_new us xs = fold (\<lambda>u xs. if u \<in> set xs then xs else xs @ [u]) us xs"

lemma add_new_distinct: "distinct us \<Longrightarrow> set us \<inter> set xs = {} \<Longrightarrow> add_new us xs = xs @ us"
  unfolding add_new_def by (induction us arbitrary: xs) auto

lemma get_task_add_dependency:
  "get_task (add_dependency u v d) i =
     (if i = v then map_option (\<lambda>t. t\<lparr>t_dependencies := add_new [u] (t_dependencies t)\<rparr>) (get_task d i) else get_task d i)"
  by (auto simp: get_task_def add_dependency_def add_new_def umap_simps split: option.splits)

lemma get_task_fold_dependencies:
  "get_task (fold (\<lambda>(u, v). add_dependency u v) es d) i =
     map_option (\<lambda>t. t\<lparr>t_dependencies := add_new (map fst (filter (\<lambda>e. snd e = i) es)) (t_dependencies t)\<rparr>) (get_task d i)"
proof (induction es arbitrary: d)
  case Nil
  then show ?case by (simp add: add_new_def option.map_ident)
next
  case (Cons e es)
  obtain u v where e: "e = (u, v)" by (cases e)
  show ?case
    unfolding e fold_Cons o_apply prod.case Cons.IH get_task_add_dependency
    by (cases "i = v"; cases "get_task d v"; cases "get_task d i") (simp_all add: add_new_def)
qed

lemma get_task_add_task:
  "get_task (fst (add_task t d)) i = (if i = t_id t \<and> get_task d i = None then Some t else get_task d i)"
  by (auto simp: get_task_def add_task_def Let_def umap_simps map_of_None_keys)

lemma get_task_fold_tasks:
  "get_task (fold (\<lambda>t d. fst (add_task t d)) ts d) i =
     (case get_task d i of Some t \<Rightarrow> Some t | None \<Rightarrow> map_of (map (\<lambda>t. (t_id t, t)) ts) i)"
proof (induction ts arbitrary: d)
  case Nil
  then show ?case by (cases "get_task d i") simp_all
next
  case (Cons t ts)
  show ?case unfolding fold_Cons o_apply Cons.IH get_task_add_task
    by (cases "get_task d i") simp_all
qed

lemma get_task_empty [simp]: "get_task empty_dag i = None"
  by (simp add: get_task_def empty_dag_def)

lemma spec_edges_of:
  assumes "distinct (map ts_task_id specs)" "s \<in> set specs"
  shows "map fst (filter (\<lambda>e. snd e = ts_task_id s) (spec_edges specs)) = ts_dependencies s"
  using assms
proof (induction specs)
  case (Cons a specs)
  have none: "filter (\<lambda>e. snd e = i) (spec_edges specs) = []" if "i \<notin> ts_task_id ` set specs" for i
    using that by (auto simp: spec_edges_def filter_empty_conv)
  have own: "map fst (filter (\<lambda>e. snd e = i) (map (\<lambda>dep. (dep, i)) deps)) = deps" for i :: string and deps :: "string list"
    by (simp add: filter_map o_def)
  show ?case
  proof (cases "s = a")
    case True
    then show ?thesis using Cons.prems none [of "ts_task_id a"] own by (simp add: spec_edges_def)
  next
    case False
    with Cons.prems have "s \<in> set specs" "ts_task_id s \<noteq> ts_task_id a" by (auto, metis image_eqI)
    then show ?thesis using Cons by (simp add: spec_edges_def filter_map o_def)
  qed
qed simp

lemma decoded_task:
  assumes "distinct (map ts_task_id specs)" "s \<in> set specs" "distinct (ts_dependencies s)"
  shows "get_task (build_dag (map spec_task specs) (spec_edges specs)) (ts_task_id s) =
    Some ((spec_task s)\<lparr>t_dependencies := ts_dependencies s\<rparr>)"
proof -
  have "map_of (map (\<lambda>t. (t_id t, t)) (map spec_task specs)) (ts_task_id s) = Some (spec_task s)"
    using assms(1,2) by (intro map_of_is_SomeI) (auto simp: spec_task_def o_def)
  then show ?thesis
    using assms(3) unfolding build_dag_def get_task_fold_dependencies get_task_fold_tasks spec_edges_of [OF assms(1,2)]
    by (simp add: add_new_distinct spec_task_def)
qed

section \<open>What is sent for a graph\<close>

lemma sent_tasks:
  assumes "order_ok ord" "dag_inv d" "closed_dag d" "acyclic (edges d)"
  shows "distinct (map ts_task_id (submission_specs ord d))"
    and "set (submission_specs ord d) = task_spec ` snd ` set (tasks d)"
proof -
  let ?topo = "topological_order ord d"
  have all: "set ?topo = task_ids d" using assms by (rule topological_order_complete_set)
  have own: "t_id t = i" if "get_task d i = Some t" for i t
    using dag_invD(4) [OF assms(2)] that by (auto simp: get_task_def dest: map_of_SomeD)
  have some: "get_task d i \<noteq> None" if "i \<in> set ?topo" for i
    using that all by (auto simp: get_task_def map_of_None_keys)
  have specs: "submission_specs ord d = map (\<lambda>i. task_spec (the (get_task d i))) ?topo"
    unfolding submission_specs_def using some by (induction ?topo) (auto simp: List.map_filter_def o_def filter_id_conv)
  have "map ts_task_id (submission_specs ord d) = ?topo"
    unfolding specs using some own by (force simp: task_spec_def o_def intro!: map_idI)
  then show "distinct (map ts_task_id (submission_specs ord d))"
    using topological_order_spec(1) [OF assms(1,2)] by simp
  have "the ` get_task d ` task_ids d = snd ` set (tasks d)"
    using dag_invD(1) [OF assms(2)]
    by (force simp: get_task_def in_um_keys_iff image_iff simp del: map_of_eq_Some_iff dest: map_of_SomeD intro: um_keysI map_of_is_SomeI)
  moreover have "set (submission_specs ord d) = task_spec ` the ` get_task d ` task_ids d"
    unfolding specs by (simp add: all image_image)
  ultimately show "set (submission_specs ord d) = task_spec ` snd ` set (tasks d)" by simp
qed

lemma acyclic_no_cycle: "acyclic (edges d) \<Longrightarrow> order_ok ord \<Longrightarrow> \<not> has_cycle ord d"
  by (auto simp: has_cycle_reachable acyclic_def)

lemma no_cycle_acyclic:
  assumes "order_ok ord" "closed_dag d" "\<not> has_cycle ord d"
  shows "acyclic (edges d)"
proof (unfold acyclic_def, intro allI notI)
  fix x assume c: "(x, x) \<in> (edges d)\<^sup>+"
  then have "x \<in> task_ids d" using assms(2) by (auto simp: closed_dag_def dest!: tranclD)
  then show False using c assms(3) unfolding has_cycle_reachable [OF assms(1)] by blast
qed

definition reset_state :: "Task \<Rightarrow> Task" where
  "reset_state t = t\<lparr>t_state := Pending\<rparr>"

lemma rebuilt_task:
  assumes "order_ok ord" "dag_inv d" "closed_dag d" "acyclic (edges d)" "deps_recorded d"
    and "\<forall>(i, t) \<in> set (tasks d). int64_ok (compute_cost (t_profile t))"
  shows "get_task (build_dag (map spec_task (submission_specs ord d)) (spec_edges (submission_specs ord d))) i =
    map_option reset_state (get_task d i)"
proof (cases "get_task d i")
  case None
  let ?d = "build_dag (map spec_task (submission_specs ord d)) (spec_edges (submission_specs ord d))"
  have "task_ids ?d = t_id ` snd ` set (tasks d)"
    unfolding build_dag_task_ids using sent_tasks(2) [OF assms(1-4)] by (simp add: image_image spec_task_def task_spec_def)
  also have "\<dots> = task_ids d"
    using dag_invD(4) [OF assms(2)] by (force simp: um_keys_def simp del: fst_image_set)
  finally have "get_task ?d i = None \<longleftrightarrow> get_task d i = None" unfolding get_task_def map_of_None_keys by simp
  then show ?thesis using None by simp
next
  case (Some t)
  then have it: "(i, t) \<in> set (tasks d)" by (auto simp: get_task_def dest: map_of_SomeD)
  have t: "t_id t = i" "distinct (t_dependencies t)" "int64_ok (compute_cost (t_profile t))"
    using it dag_invD(4) [OF assms(2)] assms(5,6) by (auto simp: deps_recorded_def)
  have "task_spec t \<in> set (submission_specs ord d)"
    unfolding sent_tasks(2) [OF assms(1-4)] using it by force
  from decoded_task [OF sent_tasks(1) [OF assms(1-4)] this] t Some show ?thesis
    by (simp add: task_spec_def spec_task_def reset_state_def)
qed

lemma rebuilt_edges:
  assumes "order_ok ord" "dag_inv d" "closed_dag d" "acyclic (edges d)" "deps_recorded d"
  shows "set (spec_edges (submission_specs ord d)) = edges d"
proof -
  have own: "t_id (snd p) = fst p \<and> set (t_dependencies (snd p)) = set (dependencies d (fst p))" if "p \<in> set (tasks d)" for p
    using that assms(5) dag_invD(4) [OF assms(2)] by (auto simp: deps_recorded_def)
  have "set (spec_edges (submission_specs ord d)) =
      (\<Union>p \<in> set (tasks d). (\<lambda>u. (u, t_id (snd p))) ` set (t_dependencies (snd p)))"
    unfolding spec_edges_def set_concat set_map sent_tasks(2) [OF assms(1-4)] image_image by (simp add: task_spec_def)
  also have "\<dots> = (\<Union>p \<in> set (tasks d). (\<lambda>u. (u, fst p)) ` set (dependencies d (fst p)))"
    by (rule SUP_cong) (simp_all add: own)
  also have "\<dots> = {(u, i). i \<in> fst ` set (tasks d) \<and> u \<in> set (dependencies d i)}"
    by (simp only: set_eq_iff) blast
  also have "\<dots> = {(u, i). i \<in> task_ids d \<and> u \<in> set (dependencies d i)}" by simp
  also have "\<dots> = edges d"
    using assms(3) by (auto simp: closed_dag_def edges_iff' [OF assms(2)])
  finally show ?thesis .
qed

section \<open>Properties\<close>

text \<open>
  C35. A workload survives submission. The receiver accepts what the sender encodes for a valid graph
  and rebuilds the same graph: the same edges, and for every task the same id, name, profile and
  list of dependencies, with the state set back to pending. This holds for every traversal order of
  the hash maps on both sides, given that protobuf parses back what it serialised.
\<close>

theorem submission_roundtrip:
  assumes "pb_law pb" "pb_valid pb (submission_env ord w d)" "order_ok ord" "order_ok ord'"
    and "dag_inv d" "closed_dag d" "acyclic (edges d)" "deps_recorded d" "tasks d \<noteq> []"
    and "\<forall>(i, t) \<in> set (tasks d). int64_ok (compute_cost (t_profile t))"
  shows "\<exists>d'. decode_submission pb ord' (encode_submission pb ord w d) (w', empty_dag) = (True, w, d') \<and>
    dag_inv d' \<and> edges d' = edges d \<and> get_task d' = map_option reset_state \<circ> get_task d"
proof -
  let ?specs = "submission_specs ord d"
  let ?d = "build_dag (map spec_task ?specs) (spec_edges ?specs)"
  have e: "edges ?d = edges d" unfolding build_dag_edges using assms by (intro rebuilt_edges)
  have g: "get_task ?d = map_option reset_state \<circ> get_task d" using assms by (auto simp: rebuilt_task)
  let ?i = "fst (hd (tasks d))"
  have "get_task d ?i \<noteq> None" using assms(9) by (cases "tasks d") (auto simp: get_task_def)
  then have "get_task ?d ?i \<noteq> None" unfolding g by simp
  then have "tasks ?d \<noteq> []" by (auto simp: get_task_def)
  moreover have "\<not> has_cycle ord' ?d" using acyclic_no_cycle [of ?d ord'] assms(4,7) e by simp
  ultimately have "decode_submission pb ord' (encode_submission pb ord w d) (w', empty_dag) = (True, w, ?d)"
    unfolding decode_submission_def encode_submission_def parse_encoded [OF assms(1,2)]
    by (simp add: submission_env_def decoded_build_dag is_valid_def)
  then show ?thesis using e g build_dag_inv by blast
qed

text \<open>
  C36. Whatever bytes arrive, an accepted submission is a well-formed graph with at least one task;
  when its dependencies all name tasks of the submission it is acyclic and its topological order
  lists every task.
\<close>

theorem accepted_submission_valid:
  assumes "decode_submission pb ord data (w', empty_dag) = (True, w, d)" "order_ok ord"
  shows "dag_inv d \<and> tasks d \<noteq> [] \<and>
    (closed_dag d \<longrightarrow> acyclic (edges d) \<and> set (topological_order ord d) = task_ids d)"
proof -
  obtain sub where "parse_from_array pb data = Some (Submission sub)"
    using assms(1) by (auto simp: decode_submission_def split: option.splits Envelope.splits)
  then have d: "d = build_dag (map spec_task (ws_tasks sub)) (spec_edges (ws_tasks sub))"
    and ok: "is_valid ord d" "\<not> has_cycle ord d"
    using assms(1) by (auto simp: decode_submission_def decoded_build_dag Let_def)
  then have inv: "dag_inv d" by (simp add: build_dag_inv)
  then show ?thesis
    using ok no_cycle_acyclic [OF assms(2) _ ok(2)] topological_order_complete_set [OF assms(2) inv]
    by (auto simp: is_valid_def)
qed

text \<open>
  C37. Requests, responses and results survive the wire with every field that the receiver uses; all four
  kinds of message are classified as what they are; and each decoder accepts a message only if it is
  classified as the decoder's own kind, whatever bytes arrive, and otherwise leaves its out-parameters
  alone. So each of the four messages is refused by the three decoders of the other kinds.
\<close>

theorem messages_roundtrip:
  assumes "pb_law pb" "pb_valid pb (request_env i p input)" "pb_valid pb (response_env (ok, t, m, err, output))"
    and "pb_valid pb (workload_result_env w acc err' r)" "pb_valid pb (submission_env ord w' d)"
    and "int64_ok (compute_cost p)" "int64_ok t" "int64_ok (estimated_makespan (plan r))" "int64_ok (total_duration r)"
  shows "decode_request pb (encode_request pb i p input) o1 = (True, i, p, input) \<and>
    decode_response pb (encode_response pb (ok, t, m, err, output)) o2 = (True, ok, t, m, err, output) \<and>
    decode_workload_result pb (encode_workload_result pb w acc err' r) (w0, acc0, err0, r0) =
      (True, w, acc, err', r\<lparr>plan := (plan r0)\<lparr>estimated_makespan := estimated_makespan (plan r)\<rparr>\<rparr>) \<and>
    classify pb (encode_request pb i p input) = OffloadRequestKind \<and>
    classify pb (encode_response pb (ok, t, m, err, output)) = OffloadResponseKind \<and>
    classify pb (encode_workload_result pb w acc err' r) = WorkloadResultKind \<and>
    classify pb (encode_submission pb ord w' d) = WorkloadSubmissionKind \<and>
    (\<forall>data.
      (if classify pb data = OffloadRequestKind then fst (decode_request pb data o1) else decode_request pb data o1 = (False, o1)) \<and>
      (if classify pb data = OffloadResponseKind then fst (decode_response pb data o2) else decode_response pb data o2 = (False, o2)) \<and>
      (if classify pb data = WorkloadResultKind then fst (decode_workload_result pb data o3) else decode_workload_result pb data o3 = (False, o3)) \<and>
      (classify pb data \<noteq> WorkloadSubmissionKind \<longrightarrow> decode_submission pb ord' data o4 = (False, o4)))"
proof -
  note parsed = parse_encoded [OF assms(1,2)] parse_encoded [OF assms(1,3)] parse_encoded [OF assms(1,4)] parse_encoded [OF assms(1,5)]
  have "(if classify pb data = OffloadRequestKind then fst (decode_request pb data o1) else decode_request pb data o1 = (False, o1)) \<and>
      (if classify pb data = OffloadResponseKind then fst (decode_response pb data o2) else decode_response pb data o2 = (False, o2)) \<and>
      (if classify pb data = WorkloadResultKind then fst (decode_workload_result pb data o3) else decode_workload_result pb data o3 = (False, o3)) \<and>
      (classify pb data \<noteq> WorkloadSubmissionKind \<longrightarrow> decode_submission pb ord' data o4 = (False, o4))" for data
    by (auto simp: classify_def decode_request_def decode_response_def decode_workload_result_def decode_submission_def Let_def
        split: option.splits Envelope.splits)
  moreover have "classify pb (encode_submission pb ord w' d) = WorkloadSubmissionKind"
    unfolding classify_def encode_submission_def parsed by (simp add: submission_env_def)
  moreover have "classify pb (encode_request pb i p input) = OffloadRequestKind \<and> decode_request pb (encode_request pb i p input) o1 = (True, i, p, input)"
    unfolding classify_def decode_request_def encode_request_def parsed using assms(6) by (simp add: request_env_def)
  moreover have "classify pb (encode_response pb (ok, t, m, err, output)) = OffloadResponseKind \<and>
      decode_response pb (encode_response pb (ok, t, m, err, output)) o2 = (True, ok, t, m, err, output)"
    unfolding classify_def decode_response_def encode_response_def parsed using assms(7) by (simp add: response_env_def)
  moreover have "classify pb (encode_workload_result pb w acc err' r) = WorkloadResultKind \<and>
      decode_workload_result pb (encode_workload_result pb w acc err' r) (w0, acc0, err0, r0) =
      (True, w, acc, err', r\<lparr>plan := (plan r0)\<lparr>estimated_makespan := estimated_makespan (plan r)\<rparr>\<rparr>)"
    unfolding classify_def decode_workload_result_def encode_workload_result_def parsed using assms(8,9) by (simp add: workload_result_env_def)
  ultimately show ?thesis by (intro conjI allI) blast+
qed

section \<open>Instances\<close>

text \<open>A codec for a finite list of messages: a message is its position in the list.\<close>

definition listed_protobuf :: "Envelope list \<Rightarrow> protobuf" where
  "listed_protobuf es = \<lparr>pb_to_array = (\<lambda>e. [of_nat (position es e)]),
     pb_parse = (\<lambda>data size. case data of [b] \<Rightarrow> (if unat b < length es then Some (es ! unat b) else None) | _ \<Rightarrow> None),
     pb_valid = (\<lambda>e. e \<in> set es)\<rparr>"

lemma listed_protobuf_law:
  assumes "length es \<le> 256"
  shows "pb_law (listed_protobuf es)"
proof -
  have "unat (of_nat (position es e) :: u8) = position es e" if "e \<in> set es" for e
    using position_nth [OF that] assms by (simp add: unat_of_nat)
  then show ?thesis by (auto simp: pb_law_def listed_protobuf_def position_nth)
qed

lemma sample_dag_recorded: "deps_recorded sample_dag" "tasks sample_dag \<noteq> []"
    "\<forall>(i, t) \<in> set (tasks sample_dag). int64_ok (compute_cost (t_profile t))"
  by (simp_all add: deps_recorded_def sample_dag_def build_dag_def add_task_def add_dependency_def empty_dag_def sample_task_def
      um_emplace_def um_push_def um_get_def dependencies_def int64_ok_def Let_def)
    auto

theorem submission_roundtrip_witness:
  "\<exists>pb d'. decode_submission pb rev (encode_submission pb (\<lambda>ks. ks) ''job'' sample_dag) ([], empty_dag) = (True, ''job'', d') \<and>
     edges d' = {(''a'', ''b''), (''a'', ''c''), (''b'', ''e''), (''c'', ''e'')}"
proof -
  let ?pb = "listed_protobuf [submission_env (\<lambda>ks. ks) ''job'' sample_dag]"
  have "pb_law ?pb" "pb_valid ?pb (submission_env (\<lambda>ks. ks) ''job'' sample_dag)"
    by (rule listed_protobuf_law) (simp_all add: listed_protobuf_def)
  from submission_roundtrip [OF this order_ok_id order_ok_rev sample_dag_ok sample_dag_acyclic sample_dag_recorded(1,2,3), of "[]"]
  show ?thesis unfolding sample_dag_def build_dag_edges by auto
qed

theorem accepted_submission_valid_witness:
  "\<exists>pb d. decode_submission pb (\<lambda>ks. ks) [0] ([], empty_dag) = (True, ''job'', d) \<and> dag_inv d \<and> tasks d \<noteq> []"
proof -
  let ?s = "\<lparr>ts_task_id = ''t'', ts_name = ''t'', ts_profile = None, ts_dependencies = []\<rparr>"
  let ?pb = "listed_protobuf [Submission \<lparr>ws_workload_id = ''job'', ws_tasks = [?s]\<rparr>]"
  let ?d = "build_dag [spec_task ?s] []"
  have "\<not> has_cycle (\<lambda>ks. ks) ?d"
    by (rule acyclic_no_cycle) (simp_all add: build_dag_edges order_ok_id acyclic_def)
  moreover have "tasks ?d \<noteq> []" by (simp add: build_dag_def add_task_def empty_dag_def um_emplace_def Let_def)
  ultimately have "decode_submission ?pb (\<lambda>ks. ks) [0] ([], empty_dag) = (True, ''job'', ?d)"
    by (simp add: decode_submission_def parse_from_array_def listed_protobuf_def decoded_build_dag spec_edges_def is_valid_def)
  with accepted_submission_valid [OF this order_ok_id] show ?thesis by blast
qed

definition sample_result :: OrchestrationResult where
  "sample_result = \<lparr>plan = \<lparr>decisions = [], estimated_makespan = 40, computed_at = 7\<rparr>, local_tasks = 2, offloaded_tasks = 1,
     completed_tasks = 3, failed_tasks = 0, offload_fallbacks = 0, total_duration = 99\<rparr>"

theorem messages_roundtrip_witness:
  "\<exists>pb. decode_request pb (encode_request pb ''a'' (t_profile (sample_task ''a'' 5 10)) [1, 2]) ([], t_profile (sample_task ''b'' 0 0), []) =
       (True, ''a'', t_profile (sample_task ''a'' 5 10), [1, 2]) \<and>
     decode_response pb (encode_response pb (True, 6, 10, [], [3])) (False, 0, 0, [], []) = (True, True, 6, 10, [], [3]) \<and>
     decode_submission pb rev (encode_workload_result pb ''job'' True [] sample_result) ([], empty_dag) = (False, [], empty_dag)"
proof -
  let ?p = "t_profile (sample_task ''a'' 5 10)" and ?sub = "submission_env (\<lambda>ks. ks) ''job'' sample_dag"
  let ?es = "[request_env ''a'' ?p [1, 2], response_env (True, 6, 10, [], [3]), workload_result_env ''job'' True [] sample_result, ?sub]"
  let ?pb = "listed_protobuf ?es"
  have law: "pb_law ?pb" by (rule listed_protobuf_law) simp
  have valid: "pb_valid ?pb (request_env ''a'' ?p [1, 2])" "pb_valid ?pb (response_env (True, 6, 10, [], [3]))"
    "pb_valid ?pb (workload_result_env ''job'' True [] sample_result)" "pb_valid ?pb ?sub"
    by (simp_all add: listed_protobuf_def)
  have ints: "int64_ok (compute_cost ?p)" "int64_ok 6" "int64_ok (estimated_makespan (plan sample_result))" "int64_ok (total_duration sample_result)"
    by (simp_all add: int64_ok_def sample_result_def sample_task_def)
  note rt = messages_roundtrip [OF law valid ints]
  have "classify ?pb (encode_workload_result ?pb ''job'' True [] sample_result) = WorkloadResultKind" using rt by blast
  moreover have "\<forall>data. classify ?pb data \<noteq> WorkloadSubmissionKind \<longrightarrow> decode_submission ?pb rev data ([], empty_dag) = (False, [], empty_dag)"
    using rt [where ord' = rev and ?o4.0 = "([], empty_dag)"] by blast
  ultimately have "decode_submission ?pb rev (encode_workload_result ?pb ''job'' True [] sample_result) ([], empty_dag) = (False, [], empty_dag)" by simp
  then show ?thesis using rt by (intro exI [of _ ?pb] conjI) blast+
qed

end
