(* ===== verification/Telemetry.thy ===== *)
theory Telemetry
  imports Scheduler Decimal "HOL-Library.Signed_Division"
begin

text \<open>
  Logs and metrics: \<^verbatim>\<open>src/core/logger.{hpp,cpp}\<close>, \<^verbatim>\<open>src/telemetry/metrics_collector.{hpp,cpp}\<close> and
  \<^verbatim>\<open>src/telemetry/json_sink.{hpp,cpp}\<close>. A sink carries the text written to it. The theory ends with a
  JSON printer as the reference for the lines that the collector assembles by hand.
\<close>

section \<open>Formatting of the standard library\<close>

definition nl :: char where "nl = CHR 0x0A"

definition int_string :: "int \<Rightarrow> string" where
  "int_string n = (if n < 0 then ''-'' @ dec_string (nat (- n)) else dec_string (nat n))"

text \<open>\<^verbatim>\<open>setfill('0') << setw(w)\<close>.\<close>

definition zero_pad :: "nat \<Rightarrow> string \<Rightarrow> string" where
  "zero_pad w s = replicate (w - length s) (CHR ''0'') @ s"

text \<open>
  A stream prints a \<^verbatim>\<open>float\<close> with six significant digits, in fixed notation for decimal exponents
  from -4 to 5 and in scientific notation otherwise, without trailing zeros. The exponent of a
  binary32 number is at least -46.
\<close>

fun up_exponent :: "nat \<Rightarrow> rat \<Rightarrow> int" where
  "up_exponent 0 x = 0"
| "up_exponent (Suc n) x = (if 1 \<le> x then 0 else up_exponent n (10 * x) - 1)"

definition dec_exponent :: "rat \<Rightarrow> int" where
  "dec_exponent x = (if 1 \<le> x then int (length (dec_string (nat \<lfloor>x\<rfloor>))) - 1 else up_exponent 46 x)"

definition strip_zeros :: "string \<Rightarrow> string" where
  "strip_zeros s = rev (dropWhile (\<lambda>c. c = CHR ''0'') (rev s))"

definition with_fraction :: "string \<Rightarrow> string \<Rightarrow> string" where
  "with_fraction whole digits = (let f = strip_zeros digits in if f = [] then whole else whole @ ''.'' @ f)"

definition digits_string :: "int \<Rightarrow> nat \<Rightarrow> string" where
  "digits_string e n =
     (if -4 \<le> e \<and> e < 6 then
        let p = 10 ^ nat (5 - e) in with_fraction (dec_string (n div p)) (zero_pad (nat (5 - e)) (dec_string (n mod p)))
      else with_fraction (dec_string (n div 100000)) (zero_pad 5 (dec_string (n mod 100000)))
           @ ''e'' @ (if e < 0 then ''-'' else ''+'') @ zero_pad 2 (dec_string (nat \<bar>e\<bar>)))"

definition general_string :: "rat \<Rightarrow> string" where
  "general_string x =
     (let e = dec_exponent x; m = round_half_even (x / 10 powi (e - 5))
      in if m = 1000000 then digits_string (e + 1) 100000 else digits_string e (nat m))"

fun float_string :: "f32 \<Rightarrow> string" where
  "float_string NaN = ''nan''"
| "float_string PInf = ''inf''"
| "float_string NInf = ''-inf''"
| "float_string (Fin x) = (if x = 0 then ''0'' else if x < 0 then ''-'' @ general_string (- x) else general_string x)"

text \<open>\<^verbatim>\<open>gmtime\<close> and \<^verbatim>\<open>put_time(\"%FT%T\")\<close>, from seconds since the epoch.\<close>

definition civil_date :: "int \<Rightarrow> int \<times> int \<times> int" where
  "civil_date days =
     (let z = days + 719468; era = z div 146097; doe = z mod 146097;
          yoe = (doe - doe div 1460 + doe div 36524 - doe div 146096) div 365;
          doy = doe - (365 * yoe + yoe div 4 - yoe div 100);
          mp = (5 * doy + 2) div 153;
          d = doy - (153 * mp + 2) div 5 + 1;
          m = (if mp < 10 then mp + 3 else mp - 9);
          y = yoe + era * 400 + (if m \<le> 2 then 1 else 0)
      in (y, m, d))"

definition two :: "int \<Rightarrow> string" where "two n = zero_pad 2 (int_string n)"

definition time_string :: "int \<Rightarrow> string" where
  "time_string t = (case civil_date (t div 86400) of (y, m, d) \<Rightarrow>
     let s = t mod 86400
     in zero_pad 4 (int_string y) @ ''-'' @ two m @ ''-'' @ two d @ ''T'' @
        two (s div 3600) @ '':'' @ two (s mod 3600 div 60) @ '':'' @ two (s mod 60))"

section \<open>Sinks\<close>

text \<open>The open log file with its text; \<^verbatim>\<open>None\<close> when it could not be opened.\<close>

record JsonFileSink =
  js_path :: string
  max_file_size_bytes :: u32
  max_files :: u32
  current_file :: "string option"
  current_size :: u64

definition new_json_sink :: "string option \<Rightarrow> string \<Rightarrow> string \<Rightarrow> u32 \<Rightarrow> u32 \<Rightarrow> JsonFileSink" where
  "new_json_sink opened dir prefix max_mb max_count =
     \<lparr>js_path = dir @ ''/'' @ prefix @ ''.ndjson'', max_file_size_bytes = max_mb * 1024 * 1024,
      max_files = max_count, current_file = opened, current_size = 0\<rparr>"

definition rotate_if_needed :: "JsonFileSink \<Rightarrow> JsonFileSink" where
  "rotate_if_needed s = (if unat (current_size s) < unat (max_file_size_bytes s) then s else s)"

definition json_write :: "string \<Rightarrow> JsonFileSink \<Rightarrow> JsonFileSink" where
  "json_write line s =
     (let s1 = rotate_if_needed s
      in case current_file s1 of
           None \<Rightarrow> s1
         | Some text \<Rightarrow> s1\<lparr>current_file := Some (text @ line @ [nl]),
                          current_size := current_size s1 + of_nat (length line) + 1\<rparr>)"

text \<open>The sink interface with its three implementations.\<close>

datatype ILogSink = JsonFile JsonFileSink | Stdout string | NullSink

fun sink_write :: "string \<Rightarrow> ILogSink \<Rightarrow> ILogSink" where
  "sink_write line (JsonFile s) = JsonFile (json_write line s)"
| "sink_write line (Stdout text) = Stdout (text @ line @ [nl])"
| "sink_write line NullSink = NullSink"

section \<open>Logger\<close>

datatype LogLevel = LDebug | LInfo | LWarn | LError

fun level_rank :: "LogLevel \<Rightarrow> nat" where
  "level_rank LDebug = 0" | "level_rank LInfo = 1" | "level_rank LWarn = 2" | "level_rank LError = 3"

fun level_string :: "LogLevel \<Rightarrow> string" where
  "level_string LDebug = ''debug''" | "level_string LInfo = ''info''"
| "level_string LWarn = ''warn''" | "level_string LError = ''error''"

record Logger =
  lg_sink :: ILogSink
  min_level :: LogLevel

text \<open>The clock counts nanoseconds since the epoch; both casts truncate.\<close>

definition log_line :: "int \<Rightarrow> LogLevel \<Rightarrow> string \<Rightarrow> string" where
  \<open>log_line now level message =
     ''{"level":"'' @ level_string level @ ''",'' @ ''"ts":"'' @ time_string (now sdiv 1000000000) @ ''.'' @
     zero_pad 3 (int_string ((now sdiv 1000000) smod 1000)) @ ''Z",'' @ ''"msg":"'' @ message @ ''"}''\<close>

definition log_message :: "int \<Rightarrow> LogLevel \<Rightarrow> string \<Rightarrow> Logger \<Rightarrow> Logger" where
  "log_message now level message l =
     (if level_rank level < level_rank (min_level l) then l
      else l\<lparr>lg_sink := sink_write (log_line now level message) (lg_sink l)\<rparr>)"

definition log_debug :: "int \<Rightarrow> string \<Rightarrow> Logger \<Rightarrow> Logger" where "log_debug now = log_message now LDebug"
definition log_info :: "int \<Rightarrow> string \<Rightarrow> Logger \<Rightarrow> Logger" where "log_info now = log_message now LInfo"
definition log_warn :: "int \<Rightarrow> string \<Rightarrow> Logger \<Rightarrow> Logger" where "log_warn now = log_message now LWarn"
definition log_error :: "int \<Rightarrow> string \<Rightarrow> Logger \<Rightarrow> Logger" where "log_error now = log_message now LError"

definition set_level :: "LogLevel \<Rightarrow> Logger \<Rightarrow> Logger" where
  "set_level level l = l\<lparr>min_level := level\<rparr>"

section \<open>Metrics collector\<close>

record MetricsCollector =
  mc_sink :: ILogSink

definition emit :: "string \<Rightarrow> MetricsCollector \<Rightarrow> MetricsCollector" where
  "emit line m = m\<lparr>mc_sink := sink_write line (mc_sink m)\<rparr>"

definition snapshot_line :: "ResourceSnapshot \<Rightarrow> string" where
  \<open>snapshot_line snap =
     ''{"event":"resource_snapshot"'' @ '',"node":"'' @ node_id snap @ ''"'' @
     '',"cpu_pct":'' @ float_string (cpu_usage_percent snap) @
     '',"mem_avail_mb":'' @ dec_string (unat (memory_available_bytes snap div (1024 * 1024))) @
     '',"temp_c":'' @ float_string (cpu_temperature_celsius snap) @
     '',"throttled":'' @ (if is_throttled snap then ''true'' else ''false'') @ ''}''\<close>

definition record_resource_snapshot :: "ResourceSnapshot \<Rightarrow> MetricsCollector \<Rightarrow> MetricsCollector" where
  "record_resource_snapshot snap = emit (snapshot_line snap)"

fun reason_code :: "Reason \<Rightarrow> nat" where
  "reason_code LocalCapacity = 0" | "reason_code LeastLoaded = 1" | "reason_code ThresholdOffload = 2"
| "reason_code OptimizationResult = 3" | "reason_code Fallback = 4"

definition decision_line :: "SchedulingDecision \<Rightarrow> string" where
  \<open>decision_line d =
     ''{"event":"scheduling_decision"'' @ '',"task":"'' @ d_task_id d @ ''"'' @
     '',"assigned_to":"'' @ assigned_node d @ ''"'' @ '',"reason":'' @ dec_string (reason_code (reason d)) @ ''}''\<close>

definition record_scheduling_decision :: "SchedulingDecision \<Rightarrow> MetricsCollector \<Rightarrow> MetricsCollector" where
  "record_scheduling_decision d = emit (decision_line d)"

definition task_event_line :: "TaskId \<Rightarrow> TaskState \<Rightarrow> Duration \<Rightarrow> string" where
  \<open>task_event_line i state duration =
     ''{"event":"task_state_change"'' @ '',"task":"'' @ i @ ''"'' @
     '',"state":"'' @ to_string state @ ''"'' @ '',"duration_us":'' @ int_string duration @ ''}''\<close>

definition record_task_event :: "TaskId \<Rightarrow> TaskState \<Rightarrow> Duration \<Rightarrow> MetricsCollector \<Rightarrow> MetricsCollector" where
  "record_task_event i state duration = emit (task_event_line i state duration)"

definition peer_event_line :: "NodeId \<Rightarrow> string \<Rightarrow> string" where
  \<open>peer_event_line peer event_type =
     ''{"event":"peer_'' @ event_type @ ''"'' @ '',"peer":"'' @ peer @ ''"'' @ ''}''\<close>

definition record_peer_event :: "NodeId \<Rightarrow> string \<Rightarrow> MetricsCollector \<Rightarrow> MetricsCollector" where
  "record_peer_event peer event_type = emit (peer_event_line peer event_type)"

definition custom_line :: "string \<Rightarrow> string \<Rightarrow> string" where
  \<open>custom_line event json_payload = ''{"event":"'' @ event @ ''"'' @ '',"data":'' @ json_payload @ ''}''\<close>

definition record_custom :: "string \<Rightarrow> string \<Rightarrow> MetricsCollector \<Rightarrow> MetricsCollector" where
  "record_custom event json_payload = emit (custom_line event json_payload)"

section \<open>A reference printer for JSON objects\<close>

datatype json_value = JString string | JRaw string

definition needs_escape :: "char \<Rightarrow> bool" where
  "needs_escape c \<longleftrightarrow> c = CHR 0x22 \<or> c = CHR 0x5C \<or> (of_char c :: nat) < 32"

definition hex_digit :: "nat \<Rightarrow> char" where
  "hex_digit n = (if n < 10 then char_of (48 + n) else char_of (87 + n))"

definition escape_char :: "char \<Rightarrow> string" where
  "escape_char c = (if \<not> needs_escape c then [c]
     else if c = CHR 0x22 \<or> c = CHR 0x5C then [CHR 0x5C, c]
     else [CHR 0x5C, CHR ''u'', CHR ''0'', CHR ''0'', hex_digit (of_char c div 16), hex_digit (of_char c mod 16)])"

fun print_value :: "json_value \<Rightarrow> string" where
  "print_value (JString s) = [CHR 0x22] @ concat (map escape_char s) @ [CHR 0x22]"
| "print_value (JRaw s) = s"

definition print_field :: "string \<times> json_value \<Rightarrow> string" where
  "print_field kv = print_value (JString (fst kv)) @ '':'' @ print_value (snd kv)"

fun print_fields :: "(string \<times> json_value) list \<Rightarrow> string" where
  "print_fields [] = []"
| "print_fields [kv] = print_field kv"
| "print_fields (kv # kvs) = print_field kv @ '','' @ print_fields kvs"

definition print_object :: "(string \<times> json_value) list \<Rightarrow> string" where
  "print_object kvs = ''{'' @ print_fields kvs @ ''}''"

text \<open>The events of the collector and the objects they stand for.\<close>

datatype metric_event = SnapshotEvent ResourceSnapshot | DecisionEvent SchedulingDecision
  | TaskEvent TaskId TaskState Duration | PeerEvent NodeId string | CustomEvent string string

fun record_event :: "metric_event \<Rightarrow> MetricsCollector \<Rightarrow> MetricsCollector" where
  "record_event (SnapshotEvent s) = record_resource_snapshot s"
| "record_event (DecisionEvent d) = record_scheduling_decision d"
| "record_event (TaskEvent i st d) = record_task_event i st d"
| "record_event (PeerEvent p t) = record_peer_event p t"
| "record_event (CustomEvent e j) = record_custom e j"

fun event_line :: "metric_event \<Rightarrow> string" where
  "event_line (SnapshotEvent s) = snapshot_line s"
| "event_line (DecisionEvent d) = decision_line d"
| "event_line (TaskEvent i st d) = task_event_line i st d"
| "event_line (PeerEvent p t) = peer_event_line p t"
| "event_line (CustomEvent e j) = custom_line e j"

fun event_fields :: "metric_event \<Rightarrow> (string \<times> json_value) list" where
  "event_fields (SnapshotEvent s) = [(''event'', JString ''resource_snapshot''), (''node'', JString (node_id s)),
     (''cpu_pct'', JRaw (float_string (cpu_usage_percent s))),
     (''mem_avail_mb'', JRaw (dec_string (unat (memory_available_bytes s div (1024 * 1024))))),
     (''temp_c'', JRaw (float_string (cpu_temperature_celsius s))),
     (''throttled'', JRaw (if is_throttled s then ''true'' else ''false''))]"
| "event_fields (DecisionEvent d) = [(''event'', JString ''scheduling_decision''), (''task'', JString (d_task_id d)),
     (''assigned_to'', JString (assigned_node d)), (''reason'', JRaw (dec_string (reason_code (reason d))))]"
| "event_fields (TaskEvent i st d) = [(''event'', JString ''task_state_change''), (''task'', JString i),
     (''state'', JString (to_string st)), (''duration_us'', JRaw (int_string d))]"
| "event_fields (PeerEvent p t) = [(''event'', JString (''peer_'' @ t)), (''peer'', JString p)]"
| "event_fields (CustomEvent e j) = [(''event'', JString e), (''data'', JRaw j)]"

definition plain :: "string \<Rightarrow> bool" where
  "plain s \<longleftrightarrow> list_all (\<lambda>c. \<not> needs_escape c) s"

fun plain_event :: "metric_event \<Rightarrow> bool" where
  "plain_event (SnapshotEvent s) \<longleftrightarrow> plain (node_id s)"
| "plain_event (DecisionEvent d) \<longleftrightarrow> plain (d_task_id d) \<and> plain (assigned_node d)"
| "plain_event (TaskEvent i st d) \<longleftrightarrow> plain i"
| "plain_event (PeerEvent p t) \<longleftrightarrow> plain p \<and> plain t"
| "plain_event (CustomEvent e j) \<longleftrightarrow> plain e \<and> nl \<notin> set j"

lemma escape_plain: "plain s \<Longrightarrow> concat (map escape_char s) = s"
  unfolding plain_def by (induction s) (auto simp: escape_char_def)

lemma record_event_emit: "record_event e = emit (event_line e)"
  by (cases e) (simp_all add: record_resource_snapshot_def record_scheduling_decision_def record_task_event_def
      record_peer_event_def record_custom_def)

lemma needs_escape_chars [simp]:
  "needs_escape (CHR 0x22)" "needs_escape (CHR 0x5C)" "needs_escape nl"
  by (simp_all add: needs_escape_def nl_def)

text \<open>Each line is the JSON object of its event when no string needs escaping.\<close>

lemma event_line_json:
  assumes "plain_event e"
  shows "event_line e = print_object (event_fields e)"
proof -
  have [simp]: "escape_char c = [c]" if "\<not> needs_escape c" for c using that by (simp add: escape_char_def)
  show ?thesis
    using assms by (cases e; cases "case e of TaskEvent _ st _ \<Rightarrow> st | _ \<Rightarrow> Pending")
     (simp_all add: print_object_def print_field_def escape_plain snapshot_line_def decision_line_def task_event_line_def
        peer_event_line_def custom_line_def needs_escape_def)
qed

section \<open>Lines of a text\<close>

fun split_lines :: "string \<Rightarrow> string list" where
  "split_lines [] = []"
| "split_lines (c # cs) =
     (if c = nl then [] # split_lines cs
      else case split_lines cs of [] \<Rightarrow> [[c]] | l # ls \<Rightarrow> (c # l) # ls)"

definition terminated :: "string \<Rightarrow> bool" where
  "terminated old \<longleftrightarrow> old = [] \<or> last old = nl"

lemma split_lines_line: "nl \<notin> set l \<Longrightarrow> split_lines (l @ nl # rest) = l # split_lines rest"
  by (induction l) auto

lemma split_lines_append: "terminated old \<Longrightarrow> split_lines (old @ rest) = split_lines old @ split_lines rest"
proof (induction old)
  case (Cons c old)
  show ?case
  proof (cases old)
    case Nil
    then show ?thesis using Cons.prems by (simp add: terminated_def)
  next
    case (Cons d old2)
    then have "terminated old" using Cons.prems by (simp add: terminated_def)
    moreover have "split_lines old \<noteq> []" unfolding Cons by (auto split: list.split)
    ultimately show ?thesis using Cons.IH by (auto split: list.split)
  qed
qed simp

lemma split_lines_concat: "\<forall>l \<in> set ls. nl \<notin> set l \<Longrightarrow> split_lines (concat (map (\<lambda>l. l @ [nl]) ls)) = ls"
  by (induction ls) (simp_all add: split_lines_line)

section \<open>The contract of a sink\<close>

text \<open>What the logger and the collector rely on: a usable sink appends the line and a newline and stays usable.\<close>

locale log_sink =
  fixes put_line :: "string \<Rightarrow> 's \<Rightarrow> 's" and contents :: "'s \<Rightarrow> string" and usable :: "'s \<Rightarrow> bool"
  assumes write_appends: "usable s \<Longrightarrow> contents (put_line l s) = contents s @ l @ [nl]"
    and write_usable: "usable s \<Longrightarrow> usable (put_line l s)"
begin

lemma writes_append:
  "usable s \<Longrightarrow> contents (fold put_line ls s) = contents s @ concat (map (\<lambda>l. l @ [nl]) ls)"
  by (induction ls arbitrary: s) (simp_all add: write_appends write_usable)

lemma writes_lines:
  assumes "usable s" "terminated (contents s)" "\<forall>l \<in> set ls. nl \<notin> set l"
  shows "split_lines (contents (fold put_line ls s)) = split_lines (contents s) @ ls"
  using assms by (simp add: writes_append split_lines_append split_lines_concat)

end

definition json_contents :: "JsonFileSink \<Rightarrow> string" where
  "json_contents s = (case current_file s of None \<Rightarrow> [] | Some text \<Rightarrow> text)"

fun sink_contents :: "ILogSink \<Rightarrow> string" where
  "sink_contents (JsonFile s) = json_contents s"
| "sink_contents (Stdout text) = text"
| "sink_contents NullSink = []"

fun sink_usable :: "ILogSink \<Rightarrow> bool" where
  "sink_usable (JsonFile s) \<longleftrightarrow> current_file s \<noteq> None"
| "sink_usable (Stdout _) \<longleftrightarrow> True"
| "sink_usable NullSink \<longleftrightarrow> False"

interpretation json_file: log_sink json_write json_contents "\<lambda>s. current_file s \<noteq> None"
  by unfold_locales (auto simp: json_write_def rotate_if_needed_def json_contents_def)

interpretation any_sink: log_sink sink_write sink_contents sink_usable
proof unfold_locales
  fix s l assume "sink_usable s"
  then show "sink_contents (sink_write l s) = sink_contents s @ l @ [nl]" "sink_usable (sink_write l s)"
    using json_file.write_appends json_file.write_usable by (cases s; simp)+
qed

section \<open>No line is torn\<close>

lemma nl_not_digit: "nl \<notin> set (dec_string n)"
proof
  assume "nl \<in> set (dec_string n)"
  then obtain k where "k < 10" "nl = digit_char k" using dec_string_digits [of n] by auto
  then have "(of_char nl :: nat) = 48 + k" using of_char_digit [of k] by (simp only:)
  then show False by (simp add: nl_def)
qed

lemma nl_chars [simp]: "nl \<noteq> CHR ''-''" "nl \<noteq> CHR ''0''" "nl \<noteq> CHR ''.''" "nl \<noteq> CHR ''e''" "nl \<noteq> CHR ''+''"
    "nl \<noteq> CHR '':''" "nl \<noteq> CHR ''T''"
  by (simp_all add: nl_def)

lemma set_strip_zeros: "set (strip_zeros s) \<subseteq> set s"
  using set_dropWhileD by (force simp: strip_zeros_def)

lemma nl_not_fraction: "nl \<notin> set w \<Longrightarrow> nl \<notin> set f \<Longrightarrow> nl \<notin> set (with_fraction w f)"
  using set_strip_zeros [of f] by (auto simp: with_fraction_def Let_def)

lemma nl_not_padded: "nl \<notin> set s \<Longrightarrow> nl \<notin> set (zero_pad w s)"
  by (simp add: zero_pad_def)

lemmas nl_free = nl_not_digit nl_not_fraction nl_not_padded

lemma nl_not_int: "nl \<notin> set (int_string n)"
  by (simp add: int_string_def nl_free)

lemma nl_not_digits: "nl \<notin> set (digits_string e n)"
  unfolding digits_string_def Let_def by (simp add: nl_free)

lemma nl_not_float: "nl \<notin> set (float_string x)"
proof (cases x)
  case (Fin r)
  then show ?thesis by (simp add: general_string_def Let_def nl_not_digits)
qed (simp_all add: nl_def)

lemma nl_not_time: "nl \<notin> set (time_string t)"
  by (simp add: time_string_def two_def nl_free nl_not_int Let_def split: prod.splits)

lemma plain_no_nl: "plain s \<Longrightarrow> nl \<notin> set s"
  using needs_escape_chars(3) by (auto simp: plain_def list_all_iff)

lemmas line_facts = nl_not_digit [unfolded nl_def] nl_not_int [unfolded nl_def] nl_not_float [unfolded nl_def]
  nl_not_time [unfolded nl_def] nl_not_padded [OF nl_not_int, unfolded nl_def] plain_no_nl [unfolded nl_def]

lemma nl_not_state: "nl \<notin> set (to_string st)"
  by (cases st) (simp_all add: nl_def)

lemma event_line_no_nl:
  assumes "plain_event e"
  shows "nl \<notin> set (event_line e)"
proof (cases e)
  case (SnapshotEvent s)
  then show ?thesis using assms by (simp add: snapshot_line_def nl_def line_facts)
next
  case (DecisionEvent d)
  then show ?thesis using assms by (simp add: decision_line_def nl_def line_facts)
next
  case (TaskEvent i st d)
  then show ?thesis using assms nl_not_state [of st] by (simp add: task_event_line_def nl_def line_facts)
next
  case (PeerEvent p t)
  then show ?thesis using assms by (simp add: peer_event_line_def nl_def line_facts)
next
  case (CustomEvent n j)
  then show ?thesis using assms by (simp add: custom_line_def nl_def line_facts)
qed

lemma log_line_no_nl: "nl \<notin> set message \<Longrightarrow> nl \<notin> set (log_line now level message)"
  unfolding log_line_def nl_def by (cases level) (simp_all add: line_facts)

section \<open>Properties\<close>


definition sample_events :: "metric_event list" where
  "sample_events = [TaskEvent ''t1'' Completed 12, PeerEvent ''pi'' ''lost'',
     DecisionEvent \<lparr>d_task_id = ''t1'', assigned_node = ''pi'', reason = LeastLoaded\<rparr>]"


text \<open>The log holds one line per message at or above the level, in order.\<close>

lemma log_lines:
  "lg_sink (fold (\<lambda>(now, level, message). log_message now level message) ms l) =
     fold sink_write (map (\<lambda>(now, level, message). log_line now level message)
       (filter (\<lambda>(now, level, message). level_rank (min_level l) \<le> level_rank level) ms)) (lg_sink l)"
  by (induction ms arbitrary: l) (auto simp: log_message_def)

theorem log_filtered:
  assumes "sink_usable (lg_sink l)" "terminated (sink_contents (lg_sink l))" "list_all (\<lambda>(now, level, message). nl \<notin> set message) ms"
  shows "split_lines (sink_contents (lg_sink (fold (\<lambda>(now, level, message). log_message now level message) ms l))) =
    split_lines (sink_contents (lg_sink l)) @ map (\<lambda>(now, level, message). log_line now level message)
       (filter (\<lambda>(now, level, message). level_rank (min_level l) \<le> level_rank level) ms)"
proof -
  have "\<forall>l \<in> set (map (\<lambda>(now, level, message). log_line now level message)
      (filter (\<lambda>(now, level, message). level_rank (min_level l) \<le> level_rank level) ms)). nl \<notin> set l"
    using assms(3) log_line_no_nl by (auto simp: list_all_iff)
  then show ?thesis unfolding log_lines by (rule any_sink.writes_lines [OF assms(1,2)])
qed

text \<open>An identifier with a newline in it tears its line in two.\<close>

theorem newline_tears_event:
  "length (split_lines (sink_contents (mc_sink (record_task_event (''a'' @ [nl] @ ''b'') Completed 1 \<lparr>mc_sink = Stdout []\<rparr>)))) = 2"
  by code_simp

text \<open>The file grows without bound: whatever its size limit, no line ever leaves it.\<close>

theorem sink_never_rotates:
  assumes "current_file s = Some old"
  shows "current_file (fold json_write ls s) = Some (old @ concat (map (\<lambda>l. l @ [nl]) ls)) \<and> js_path (fold json_write ls s) = js_path s"
  using assms by (induction ls arbitrary: s old) (simp_all add: json_write_def rotate_if_needed_def)

end
