(* ===== verification/Float32_Bounds.thy ===== *)
theory Float32_Bounds
  imports Wire
begin

text \<open>
  When binary32 rounding is exact and how far it moves a value: representable numbers, small
  integers, and ranges that end in a small integer.
\<close>

lemma bitlen_bounds:
  assumes "0 < n"
  shows "2 powi (bitlen n - 1) \<le> (of_int n :: rat)" "(of_int n :: rat) < 2 powi bitlen n"
proof -
  have b: "2 ^ nat (bitlen n - 1) \<le> n \<and> n < 2 ^ nat (bitlen n)" using assms by (rule bitlen_bounds)
  have pos: "1 \<le> bitlen n" using bitlen_le_iff_power [of n 0] assms by (simp add: not_le [symmetric])
  have "(of_int (2 ^ nat (bitlen n - 1)) :: rat) \<le> of_int n" using b by (simp only: of_int_le_iff)
  then show "2 powi (bitlen n - 1) \<le> (of_int n :: rat)" using pos by (simp add: power_int_def)
  have "(of_int n :: rat) < of_int (2 ^ nat (bitlen n))" using b by (simp only: of_int_less_iff)
  then show "(of_int n :: rat) < 2 powi bitlen n" using pos by (simp add: power_int_def)
qed

lemma ilog2_lower:
  assumes "0 < x"
  shows "2 powi ilog2 x \<le> x"
proof -
  obtain p q where pq: "quotient_of x = (p, q)" by (cases "quotient_of x")
  have q: "0 < q" using quotient_of_denom_pos [OF pq] .
  have x: "x = of_int p / of_int q" using quotient_of_div [OF pq] .
  then have p: "0 < p" using assms q by (simp add: zero_less_divide_iff)
  have "2 powi (bitlen p - bitlen q - 1) * of_int q \<le> 2 powi (bitlen p - bitlen q - 1) * (2 powi bitlen q :: rat)"
    using bitlen_bounds(2) [OF q] by (intro mult_left_mono) simp_all
  also have "\<dots> = 2 powi (bitlen p - 1)" by (simp flip: power_int_add)
  also have "\<dots> \<le> of_int p" by (rule bitlen_bounds(1) [OF p])
  finally have "2 powi (bitlen p - bitlen q - 1) \<le> x" using q by (simp add: x le_divide_eq)
  then show ?thesis by (simp add: ilog2_def pq Let_def)
qed

lemma quantum_le:
  assumes "0 < x" "x < 2 powi k" "-125 \<le> k"
  shows "quantum x \<le> k - 24"
proof -
  have "(2 :: rat) powi ilog2 x < 2 powi k" using ilog2_lower [OF assms(1)] assms(2) by simp
  then have "ilog2 x < k" using power_int_increasing [of k "ilog2 x" "2 :: rat"] by linarith
  then show ?thesis using assms(3) by (simp add: quantum_def)
qed

lemma rnd_exact:
  assumes "0 < x" "x = of_int m * 2 powi quantum x" "x \<le> max_finite"
  shows "rnd x = Fin x"
proof -
  have "x / 2 powi quantum x = of_int m" by (subst assms(2)) simp
  then show ?thesis using assms by (simp add: rnd_def rnd_pos_def flip: assms(2))
qed

lemma rnd_representable:
  assumes "representable (Fin x)"
  shows "rnd x = Fin x"
proof -
  have pos: "rnd y = Fin y" if "representable (Fin y)" "0 < y" for y
  proof -
    define q m where "q = quantum y" and "m = \<lfloor>y / 2 powi q\<rfloor>"
    have r: "y = of_int m * 2 powi q" "0 < m" "m < 2 ^ 24" "q \<le> 104"
      using that by (auto simp: Let_def q_def m_def)
    have "(of_int m :: rat) * 2 powi q \<le> of_int (2 ^ 24 - 1) * 2 powi 104"
    proof (rule mult_mono)
      show "(of_int m :: rat) \<le> of_int (2 ^ 24 - 1)" using r(3) by (simp only: of_int_le_iff)
      show "(2 :: rat) powi q \<le> 2 powi 104" using r(4) by (intro power_int_increasing) simp_all
    qed (use r(2) in simp_all)
    then have "y \<le> max_finite" using r(1) by (simp add: max_finite_def)
    then show ?thesis using that(2) r(1) unfolding q_def by (intro rnd_exact) auto
  qed
  consider "x = 0" | "0 < x" | "x < 0" by linarith
  then show ?thesis
  proof cases
    case 3
    then have "rnd (- x) = Fin (- x)" using assms by (intro pos) simp_all
    then show ?thesis using 3 by (simp add: rnd_def)
  qed (use pos [OF assms] in simp_all)
qed

text \<open>An integer below \<open>2\<^sup>24\<close> is a multiple of the quantum of every smaller number.\<close>

lemma quantum_divides:
  assumes "0 < x" "x \<le> of_nat c" "c < 2 ^ 24"
  obtains m where "(of_nat c :: rat) = of_int m * 2 powi quantum x"
proof -
  have "(of_nat c :: rat) < of_nat (2 ^ 24)" using assms(3) by (simp only: of_nat_less_iff)
  then have "quantum x \<le> 0" using quantum_le [of x 24] assms(1,2) by simp
  then have "(of_nat c :: rat) = of_int (int c * 2 ^ nat (- quantum x)) * 2 powi quantum x"
    by (simp add: power_int_def field_simps)
  then show ?thesis by (rule that)
qed

lemma rnd_of_nat: "c < 2 ^ 24 \<Longrightarrow> rnd (of_nat c) = Fin (of_nat c)"
proof (cases "c = 0")
  case False
  assume c: "c < 2 ^ 24"
  then have "(of_nat c :: rat) < of_nat (2 ^ 24)" by (simp only: of_nat_less_iff)
  then have "(of_nat c :: rat) \<le> max_finite" by (simp add: max_finite_def)
  then show ?thesis using quantum_divides [of "of_nat c" c] False c
    by (metis of_nat_0_less_iff order_refl rnd_exact zero_less_iff_neq_zero)
qed simp

lemma rnd_range:
  assumes "0 \<le> x" "x \<le> of_nat c" "c < 2 ^ 24"
  shows "\<exists>v. rnd x = Fin v \<and> 0 \<le> v \<and> v \<le> of_nat c"
proof (cases "x = 0")
  case False
  then have x: "0 < x" using assms(1) by simp
  let ?q = "2 powi quantum x :: rat"
  obtain m where m: "(of_nat c :: rat) = of_int m * ?q" using quantum_divides [OF x assms(2,3)] .
  have "x / ?q \<le> of_int m" using assms(2) m by (simp add: divide_le_eq)
  then have "round_half_even (x / ?q) \<le> m" using round_half_even_mono round_half_even_of_int by metis
  then have le: "of_int (round_half_even (x / ?q)) * ?q \<le> of_nat c" unfolding m by (intro mult_right_mono) simp_all
  have "(of_nat c :: rat) < of_nat (2 ^ 24)" using assms(3) by (simp only: of_nat_less_iff)
  then have "\<not> max_finite < of_int (round_half_even (x / ?q)) * ?q" using le by (simp add: max_finite_def)
  moreover have "0 \<le> of_int (round_half_even (x / ?q)) * ?q" using round_half_even_nonneg [of "x / ?q"] x by simp
  ultimately show ?thesis using x le by (simp add: rnd_def rnd_pos_def Let_def)
qed simp

end
