(* ===== verification/Resource_Monitor.thy ===== *)
theory Resource_Monitor
  imports Telemetry Float32_Bounds
begin

text \<open>
  The resource monitors: \<^verbatim>\<open>src/resource_monitor/linux_monitor.cpp\<close>, \<^verbatim>\<open>mock_monitor.cpp\<close>,
  \<^verbatim>\<open>monitor.hpp\<close>, and the concept they satisfy, \<^verbatim>\<open>src/core/concepts.hpp\<close>. A file system is a map from
  paths to contents; a variable that no extraction has set is \<open>None\<close>, and so is the result of a
  sample that reads such a variable or casts a float out of the range of its target.
\<close>

unbundle bit_operations_syntax

section \<open>Reading files and numbers\<close>

type_synonym files = "string \<Rightarrow> string option"

definition read_file_line :: "files \<Rightarrow> string \<Rightarrow> string" where
  "read_file_line fs path = (case fs path of None \<Rightarrow> [] | Some content \<Rightarrow> takeWhile (\<lambda>c. c \<noteq> nl) content)"

definition read_file_lines :: "files \<Rightarrow> string \<Rightarrow> string list" where
  "read_file_lines fs path = (case fs path of None \<Rightarrow> [] | Some content \<Rightarrow> split_lines content)"

definition is_space :: "char \<Rightarrow> bool" where
  "is_space c \<longleftrightarrow> c = CHR '' '' \<or> (of_char c :: nat) \<in> {9..13}"

definition is_digit :: "char \<Rightarrow> bool" where
  "is_digit c \<longleftrightarrow> (of_char c :: nat) \<in> {48..57}"

definition skip_space :: "string \<Rightarrow> string" where
  "skip_space s = dropWhile is_space s"

definition take_sign :: "string \<Rightarrow> bool \<times> string" where
  "take_sign s = (case s of c # cs \<Rightarrow> if c = CHR ''-'' then (True, cs) else if c = CHR ''+'' then (False, cs) else (False, s)
     | [] \<Rightarrow> (False, []))"

text \<open>
  \<^verbatim>\<open>stream >> n\<close> for a \<^verbatim>\<open>uint64_t\<close>: a failed or exhausted stream leaves the variable alone; a word that
  is no number sets it to zero, one that is too large to the maximum, and both fail the stream.
\<close>

definition extract_u64 :: "string option \<Rightarrow> u64 option \<Rightarrow> u64 option \<times> string option" where
  "extract_u64 stream old = (case stream of
       None \<Rightarrow> (old, None)
     | Some s \<Rightarrow>
         (let s1 = skip_space s
          in if s1 = [] then (old, None)
             else case take_sign s1 of (neg, s2) \<Rightarrow>
               (let ds = takeWhile is_digit s2; n = dec_value ds
                in if ds = [] then (Some 0, None)
                   else if 2 ^ 64 \<le> n then (Some (- 1), None)
                   else (Some (if neg then - of_nat n else of_nat n), Some (dropWhile is_digit s2)))))"

text \<open>\<^verbatim>\<open>stream >> word\<close>.\<close>

definition extract_word :: "string option \<Rightarrow> string option" where
  "extract_word stream = (case stream of
       None \<Rightarrow> None
     | Some s \<Rightarrow> (let s1 = skip_space s in if s1 = [] then None else Some (dropWhile (\<lambda>c. \<not> is_space c) s1)))"

fun extract_all :: "string option \<Rightarrow> u64 option list \<Rightarrow> u64 option list" where
  "extract_all stream [] = []"
| "extract_all stream (v # vs) = (case extract_u64 stream v of (v', stream') \<Rightarrow> v' # extract_all stream' vs)"

section \<open>CPU times\<close>

record CpuTimes =
  user :: u64
  nice :: u64
  system :: u64
  idle :: u64
  iowait :: u64
  irq :: u64
  softirq :: u64
  steal :: u64

definition no_times :: CpuTimes where
  "no_times = \<lparr>user = 0, nice = 0, system = 0, idle = 0, iowait = 0, irq = 0, softirq = 0, steal = 0\<rparr>"

definition parse_cpu_line :: "string \<Rightarrow> CpuTimes" where
  "parse_cpu_line line = (case map (\<lambda>v. case v of None \<Rightarrow> 0 | Some n \<Rightarrow> n)
       (extract_all (extract_word (Some line)) (replicate 8 (Some 0))) of
     [a, b, c, d, e, f, g, h] \<Rightarrow>
       \<lparr>user = a, nice = b, system = c, idle = d, iowait = e, irq = f, softirq = g, steal = h\<rparr>
   | _ \<Rightarrow> no_times)"

definition total_time :: "CpuTimes \<Rightarrow> u64" where
  "total_time t = user t + nice t + system t + idle t + iowait t + irq t + softirq t + steal t"

definition active_time :: "CpuTimes \<Rightarrow> u64" where
  "active_time t = user t + nice t + system t + irq t + softirq t + steal t"

definition compute_cpu_percent :: "CpuTimes \<Rightarrow> CpuTimes \<Rightarrow> f32" where
  "compute_cpu_percent prev cur =
     (let total_delta = total_time cur - total_time prev
      in if total_delta = 0 then Fin 0
         else let active_delta = active_time cur - active_time prev
              in f32_div (f32_mul (Fin 100) (f32_of_u64 active_delta)) (f32_of_u64 total_delta))"

section \<open>Memory, temperature, network, throttling\<close>

record MemInfo =
  total_kb :: u64
  available_kb :: u64

definition starts_with :: "string \<Rightarrow> string \<Rightarrow> bool" where
  "starts_with p s \<longleftrightarrow> take (length p) s = p"

definition mem_line :: "string \<Rightarrow> MemInfo \<Rightarrow> MemInfo" where
  "mem_line line info =
     (if starts_with ''MemTotal:'' line then
        info\<lparr>total_kb := the (fst (extract_u64 (Some (drop 9 line)) (Some (total_kb info))))\<rparr>
      else if starts_with ''MemAvailable:'' line then
        info\<lparr>available_kb := the (fst (extract_u64 (Some (drop 13 line)) (Some (available_kb info))))\<rparr>
      else info)"

definition parse_meminfo :: "files \<Rightarrow> MemInfo" where
  "parse_meminfo fs = fold mem_line (read_file_lines fs ''/proc/meminfo'') \<lparr>total_kb = 0, available_kb = 0\<rparr>"

text \<open>\<^verbatim>\<open>std::stol\<close>; \<open>None\<close> when it throws.\<close>

definition stol :: "string \<Rightarrow> int option" where
  "stol s = (case take_sign (skip_space s) of (neg, s2) \<Rightarrow>
     (let ds = takeWhile is_digit s2; n = int (dec_value ds); v = (if neg then - n else n)
      in if ds = [] \<or> v < - (2 ^ 63) \<or> 2 ^ 63 \<le> v then None else Some v))"

definition read_temperature :: "files \<Rightarrow> string \<Rightarrow> f32" where
  "read_temperature fs zone_path =
     (let line = read_file_line fs zone_path
      in if line = [] then Fin 0
         else case stol line of None \<Rightarrow> Fin 0 | Some v \<Rightarrow> f32_div (f32_of_int v) (Fin 1000))"

record NetCounters =
  rx_bytes :: u64
  tx_bytes :: u64

text \<open>
  One line of \<^verbatim>\<open>/proc/net/dev\<close>. The nine counters are not initialised before the extraction; a line
  that leaves the first or the last of them unset makes the sum undefined.
\<close>

definition interface_name :: "string \<Rightarrow> string" where
  "interface_name line =
     (let iface = takeWhile (\<lambda>c. c \<noteq> CHR '':'') line; stripped = dropWhile (\<lambda>c. c = CHR '' '') iface
      in if stripped = [] then iface else stripped)"

definition net_line :: "string \<Rightarrow> NetCounters \<Rightarrow> NetCounters option" where
  "net_line line acc =
     (if CHR '':'' \<notin> set line then Some acc
      else if interface_name line = ''lo'' then Some acc
      else case extract_all (Some (tl (dropWhile (\<lambda>c. c \<noteq> CHR '':'') line))) (replicate 9 None) of
        [Some rx, _, _, _, _, _, _, _, Some tx] \<Rightarrow> Some (acc\<lparr>rx_bytes := rx_bytes acc + rx, tx_bytes := tx_bytes acc + tx\<rparr>)
      | _ \<Rightarrow> None)"

fun net_lines :: "string list \<Rightarrow> NetCounters \<Rightarrow> NetCounters option" where
  "net_lines [] acc = Some acc"
| "net_lines (l # ls) acc = (case net_line l acc of None \<Rightarrow> None | Some t \<Rightarrow> net_lines ls t)"

definition parse_net_dev :: "files \<Rightarrow> NetCounters option" where
  "parse_net_dev fs = net_lines (drop 2 (read_file_lines fs ''/proc/net/dev'')) \<lparr>rx_bytes = 0, tx_bytes = 0\<rparr>"

text \<open>\<^verbatim>\<open>std::stoull\<close> with base 0: a prefix selects base 16 or 8. \<open>None\<close> when it throws.\<close>

definition digit_value :: "char \<Rightarrow> nat" where
  "digit_value c = (let n = of_char c :: nat in
     if 48 \<le> n \<and> n \<le> 57 then n - 48
     else if 97 \<le> n \<and> n \<le> 122 then n - 87 else if 65 \<le> n \<and> n \<le> 90 then n - 55 else 99)"

definition base_value :: "nat \<Rightarrow> string \<Rightarrow> nat" where
  "base_value b ds = foldl (\<lambda>acc c. acc * b + digit_value c) 0 ds"

definition split_base :: "string \<Rightarrow> nat \<times> string" where
  "split_base s = (case s of
       c0 # c1 # c2 # cs \<Rightarrow>
         if c0 = CHR ''0'' \<and> (c1 = CHR ''x'' \<or> c1 = CHR ''X'') \<and> digit_value c2 < 16 then (16, c2 # cs)
         else if c0 = CHR ''0'' then (8, s) else (10, s)
     | c0 # cs \<Rightarrow> if c0 = CHR ''0'' then (8, s) else (10, s)
     | [] \<Rightarrow> (10, []))"

definition stoull :: "string \<Rightarrow> u64 option" where
  "stoull s = (case take_sign (skip_space s) of (neg, s2) \<Rightarrow> (case split_base s2 of (b, s3) \<Rightarrow>
     (let ds = takeWhile (\<lambda>c. digit_value c < b) s3; n = base_value b ds
      in if ds = [] \<or> 2 ^ 64 \<le> n then None else Some (if neg then - of_nat n else of_nat n))))"

definition read_rpi_throttled :: "files \<Rightarrow> bool" where
  "read_rpi_throttled fs =
     (let line = read_file_line fs ''/sys/devices/platform/soc/soc:firmware/get_throttled''
      in if line = [] then False
         else case stoull line of None \<Rightarrow> False | Some val \<Rightarrow> val AND 4 \<noteq> 0)"

section \<open>LinuxMonitor\<close>

text \<open>\<open>'w\<close> is the state that the threshold callbacks act on.\<close>

record 'w LinuxMonitor =
  lm_node_id :: NodeId
  interval_ms :: u32
  sampling :: bool
  latest :: "ResourceSnapshot option"
  prev_cpu_times :: CpuTimes
  prev_per_core_times :: "CpuTimes list"
  prev_net :: NetCounters
  cpu_callbacks :: "(f32 \<times> (ResourceSnapshot \<Rightarrow> 'w \<Rightarrow> 'w)) list"
  memory_callbacks :: "(f32 \<times> (ResourceSnapshot \<Rightarrow> 'w \<Rightarrow> 'w)) list"

definition new_linux_monitor :: "NodeId \<Rightarrow> u32 \<Rightarrow> 'w LinuxMonitor" where
  "new_linux_monitor i interval = \<lparr>lm_node_id = i, interval_ms = interval, sampling = False, latest = None,
     prev_cpu_times = no_times, prev_per_core_times = replicate 4 no_times, prev_net = \<lparr>rx_bytes = 0, tx_bytes = 0\<rparr>,
     cpu_callbacks = [], memory_callbacks = []\<rparr>"

text \<open>The per-core lines: core \<open>i\<close> is on line \<open>i + 1\<close>, if that line starts with \<^verbatim>\<open>cpu\<close>.\<close>

definition core_line :: "string list \<Rightarrow> nat \<Rightarrow> string option" where
  "core_line ls i = (if i + 1 < length ls \<and> starts_with ''cpu'' (ls ! (i + 1)) then Some (ls ! (i + 1)) else None)"

definition linux_start :: "files \<Rightarrow> 'w LinuxMonitor \<Rightarrow> 'w LinuxMonitor option" where
  "linux_start fs m = (case parse_net_dev fs of
       None \<Rightarrow> None
     | Some net \<Rightarrow>
         (let ls = read_file_lines fs ''/proc/stat''
          in Some (m\<lparr>prev_net := net,
                prev_cpu_times := (if ls = [] then no_times else parse_cpu_line (ls ! 0)),
                prev_per_core_times := map (\<lambda>i. case core_line ls i of None \<Rightarrow> no_times | Some l \<Rightarrow> parse_cpu_line l) [0..<4],
                sampling := True\<rparr>)))"

definition linux_stop :: "'w LinuxMonitor \<Rightarrow> 'w LinuxMonitor" where
  "linux_stop m = m\<lparr>sampling := False\<rparr>"

definition linux_read :: "'w LinuxMonitor \<Rightarrow> (error, ResourceSnapshot) result" where
  "linux_read m = (case latest m of None \<Rightarrow> Inl ''No snapshot available yet'' | Some s \<Rightarrow> Inr s)"

definition linux_cpu_usage :: "'w LinuxMonitor \<Rightarrow> f32" where
  "linux_cpu_usage m = (case latest m of None \<Rightarrow> Fin 0 | Some s \<Rightarrow> cpu_usage_percent s)"

definition linux_memory_available :: "'w LinuxMonitor \<Rightarrow> u64" where
  "linux_memory_available m = (case latest m of None \<Rightarrow> 0 | Some s \<Rightarrow> memory_available_bytes s)"

definition linux_is_throttled :: "'w LinuxMonitor \<Rightarrow> bool" where
  "linux_is_throttled m = (case latest m of None \<Rightarrow> False | Some s \<Rightarrow> is_throttled s)"

definition on_cpu_threshold :: "f32 \<Rightarrow> (ResourceSnapshot \<Rightarrow> 'w \<Rightarrow> 'w) \<Rightarrow> 'w LinuxMonitor \<Rightarrow> 'w LinuxMonitor" where
  "on_cpu_threshold percent cb m = m\<lparr>cpu_callbacks := cpu_callbacks m @ [(percent, cb)]\<rparr>"

definition on_memory_threshold :: "f32 \<Rightarrow> (ResourceSnapshot \<Rightarrow> 'w \<Rightarrow> 'w) \<Rightarrow> 'w LinuxMonitor \<Rightarrow> 'w LinuxMonitor" where
  "on_memory_threshold percent cb m = m\<lparr>memory_callbacks := memory_callbacks m @ [(percent, cb)]\<rparr>"

text \<open>The cast of a \<^verbatim>\<open>float\<close> to \<^verbatim>\<open>uint64_t\<close> is undefined when the truncated value does not fit.\<close>

fun f32_to_u64 :: "f32 \<Rightarrow> u64 option" where
  "f32_to_u64 (Fin x) = (let n = rat_trunc x in if 0 \<le> n \<and> n < 2 ^ 64 then Some (word_of_int n) else None)"
| "f32_to_u64 _ = None"

text \<open>The network rates of a sample; a zero interval leaves them at zero.\<close>

definition net_rates :: "u32 \<Rightarrow> NetCounters \<Rightarrow> NetCounters \<Rightarrow> (u64 \<times> u64) option" where
  "net_rates interval prev cur =
     (let interval_sec = f32_div (rnd (of_nat (unat interval))) (Fin 1000)
      in if f32_less (Fin 0) interval_sec then
           (case (f32_to_u64 (f32_div (f32_of_u64 (rx_bytes cur - rx_bytes prev)) interval_sec),
                  f32_to_u64 (f32_div (f32_of_u64 (tx_bytes cur - tx_bytes prev)) interval_sec)) of
              (Some rx, Some tx) \<Rightarrow> Some (rx, tx)
            | _ \<Rightarrow> None)
         else Some (0, 0))"

text \<open>The CPU part of a sample.\<close>

definition sample_cpu :: "files \<Rightarrow> 'w LinuxMonitor \<Rightarrow> ResourceSnapshot \<Rightarrow> ResourceSnapshot \<times> 'w LinuxMonitor" where
  "sample_cpu fs m snap =
     (let ls = read_file_lines fs ''/proc/stat''
      in if ls = [] then (snap, m)
         else let cur = parse_cpu_line (ls ! 0);
                  cores = [0..<4]
              in (snap\<lparr>cpu_usage_percent := compute_cpu_percent (prev_cpu_times m) cur,
                       per_core_cpu_percent := map (\<lambda>i. case core_line ls i of
                           None \<Rightarrow> per_core_cpu_percent snap ! i
                         | Some l \<Rightarrow> compute_cpu_percent (prev_per_core_times m ! i) (parse_cpu_line l)) cores\<rparr>,
                  m\<lparr>prev_cpu_times := cur,
                    prev_per_core_times := map (\<lambda>i. case core_line ls i of
                        None \<Rightarrow> prev_per_core_times m ! i | Some l \<Rightarrow> parse_cpu_line l) cores\<rparr>))"

definition sample_once :: "files \<Rightarrow> Timestamp \<Rightarrow> 'w LinuxMonitor \<Rightarrow> (ResourceSnapshot \<times> 'w LinuxMonitor) option" where
  "sample_once fs now m =
     (case sample_cpu fs m (default_snapshot\<lparr>node_id := lm_node_id m, timestamp := now\<rparr>) of (snap1, m1) \<Rightarrow>
      let mem = parse_meminfo fs;
          snap2 = snap1\<lparr>memory_total_bytes := total_kb mem * 1024, memory_available_bytes := available_kb mem * 1024,
            cpu_temperature_celsius := read_temperature fs ''/sys/class/thermal/thermal_zone0/temp'',
            gpu_temperature_celsius := read_temperature fs ''/sys/class/thermal/thermal_zone1/temp''\<rparr>
      in case parse_net_dev fs of
           None \<Rightarrow> None
         | Some curr_net \<Rightarrow>
             (case net_rates (interval_ms m1) (prev_net m1) curr_net of
                None \<Rightarrow> None
              | Some (rx, tx) \<Rightarrow>
                  Some (snap2\<lparr>network_rx_bytes_sec := rx, network_tx_bytes_sec := tx,
                              is_throttled := read_rpi_throttled fs\<rparr>,
                        m1\<lparr>prev_net := curr_net\<rparr>)))"

definition check_thresholds :: "'w LinuxMonitor \<Rightarrow> ResourceSnapshot \<Rightarrow> 'w \<Rightarrow> 'w" where
  "check_thresholds m snap w =
     fold (\<lambda>(limit, cb) w. if \<not> f32_less (memory_usage_percent snap) limit \<and> memory_usage_percent snap \<noteq> NaN \<and> limit \<noteq> NaN
        then cb snap w else w) (memory_callbacks m)
       (fold (\<lambda>(limit, cb) w. if \<not> f32_less (cpu_usage_percent snap) limit \<and> cpu_usage_percent snap \<noteq> NaN \<and> limit \<noteq> NaN
          then cb snap w else w) (cpu_callbacks m) w)"

text \<open>One turn of the sampling loop.\<close>

definition sampling_round :: "files \<Rightarrow> Timestamp \<Rightarrow> 'w LinuxMonitor \<times> 'w \<Rightarrow> ('w LinuxMonitor \<times> 'w) option" where
  "sampling_round fs now s = (case s of (m, w) \<Rightarrow>
     (case sample_once fs now m of
        None \<Rightarrow> None
      | Some (snap, m1) \<Rightarrow> (let m2 = m1\<lparr>latest := Some snap\<rparr> in Some (m2, check_thresholds m2 snap w))))"

section \<open>MockMonitor\<close>

record MockMonitor =
  mm_node_id :: NodeId
  sequence :: "ResourceSnapshot list"
  index :: nat
  static_snapshot :: ResourceSnapshot
  use_static :: bool

definition new_mock_monitor :: "NodeId \<Rightarrow> MockMonitor" where
  "new_mock_monitor i = \<lparr>mm_node_id = i, sequence = [], index = 0,
     static_snapshot = default_snapshot\<lparr>node_id := i, memory_total_bytes := 4 * 1024 * 1024 * 1024,
       memory_available_bytes := 2 * 1024 * 1024 * 1024, cpu_usage_percent := Fin 25,
       per_core_cpu_percent := replicate 4 (Fin 25), cpu_temperature_celsius := Fin 45, is_throttled := False\<rparr>,
     use_static = True\<rparr>"

definition mock_read :: "Timestamp \<Rightarrow> MockMonitor \<Rightarrow> (error, ResourceSnapshot) result \<times> MockMonitor" where
  "mock_read now m =
     (if use_static m then
        let snap = (static_snapshot m)\<lparr>timestamp := now\<rparr> in (Inr snap, m\<lparr>static_snapshot := snap\<rparr>)
      else if length (sequence m) \<le> index m then (Inl ''Mock sequence exhausted'', m)
      else (Inr ((sequence m ! index m)\<lparr>timestamp := now\<rparr>), m\<lparr>index := index m + 1\<rparr>))"

definition mock_current :: "MockMonitor \<Rightarrow> ResourceSnapshot option" where
  "mock_current m = (if use_static m then Some (static_snapshot m)
     else if 0 < index m \<and> index m \<le> length (sequence m) then Some (sequence m ! (index m - 1)) else None)"

definition mock_cpu_usage :: "MockMonitor \<Rightarrow> f32" where
  "mock_cpu_usage m = (case mock_current m of None \<Rightarrow> Fin 0 | Some s \<Rightarrow> cpu_usage_percent s)"

definition mock_memory_available :: "MockMonitor \<Rightarrow> u64" where
  "mock_memory_available m = (case mock_current m of None \<Rightarrow> 0 | Some s \<Rightarrow> memory_available_bytes s)"

definition mock_is_throttled :: "MockMonitor \<Rightarrow> bool" where
  "mock_is_throttled m = (case mock_current m of None \<Rightarrow> False | Some s \<Rightarrow> is_throttled s)"

definition push_snapshot :: "ResourceSnapshot \<Rightarrow> MockMonitor \<Rightarrow> MockMonitor" where
  "push_snapshot snap m = m\<lparr>use_static := False, sequence := sequence m @ [snap\<lparr>node_id := mm_node_id m\<rparr>]\<rparr>"

definition set_static_snapshot :: "ResourceSnapshot \<Rightarrow> MockMonitor \<Rightarrow> MockMonitor" where
  "set_static_snapshot snap m = m\<lparr>use_static := True, static_snapshot := snap\<lparr>node_id := mm_node_id m\<rparr>\<rparr>"

definition set_cpu :: "f32 \<Rightarrow> MockMonitor \<Rightarrow> MockMonitor" where
  "set_cpu percent m = m\<lparr>static_snapshot := (static_snapshot m)\<lparr>cpu_usage_percent := percent,
     per_core_cpu_percent := replicate (length (per_core_cpu_percent (static_snapshot m))) percent\<rparr>\<rparr>"

definition set_memory :: "u64 \<Rightarrow> u64 \<Rightarrow> MockMonitor \<Rightarrow> MockMonitor" where
  "set_memory available all m =
     m\<lparr>static_snapshot := (static_snapshot m)\<lparr>memory_available_bytes := available, memory_total_bytes := all\<rparr>\<rparr>"

definition set_throttled :: "bool \<Rightarrow> MockMonitor \<Rightarrow> MockMonitor" where
  "set_throttled throttled m = m\<lparr>static_snapshot := (static_snapshot m)\<lparr>is_throttled := throttled\<rparr>\<rparr>"

section \<open>The monitor concept\<close>

text \<open>
  What the orchestrator relies on: a snapshot carries the monitor's own node id, which is how the
  policies name the local node, and the single-value queries agree with the snapshot last read.
\<close>

locale resource_monitor =
  fixes read_at :: "Timestamp \<Rightarrow> 'm \<Rightarrow> (error, ResourceSnapshot) result \<times> 'm"
    and cpu :: "'m \<Rightarrow> f32" and memory :: "'m \<Rightarrow> u64" and throttled :: "'m \<Rightarrow> bool"
    and ident :: "'m \<Rightarrow> NodeId" and valid :: "'m \<Rightarrow> bool"
  assumes read_own: "valid m \<Longrightarrow> read_at now m = (Inr s, m') \<Longrightarrow>
      node_id s = ident m \<and> cpu m' = cpu_usage_percent s \<and> memory m' = memory_available_bytes s \<and> throttled m' = is_throttled s"
    and read_valid: "valid m \<Longrightarrow> valid (snd (read_at now m)) \<and> ident (snd (read_at now m)) = ident m"
begin

text \<open>The snapshots that a sequence of reads returns.\<close>

fun reads :: "Timestamp list \<Rightarrow> 'm \<Rightarrow> ResourceSnapshot list" where
  "reads [] m = []"
| "reads (now # nows) m = (case read_at now m of (Inr s, m') \<Rightarrow> s # reads nows m' | (Inl _, m') \<Rightarrow> reads nows m')"

lemma reads_own: "valid m \<Longrightarrow> s \<in> set (reads nows m) \<Longrightarrow> node_id s = ident m"
proof (induction nows arbitrary: m)
  case (Cons now nows)
  obtain r m' where r: "read_at now m = (r, m')" by (cases "read_at now m")
  have v: "valid m'" "ident m' = ident m" using read_valid [OF Cons.prems(1), of now] r by simp_all
  show ?case
  proof (cases r)
    case (Inl e)
    then show ?thesis using Cons v r by simp
  next
    case (Inr s')
    then show ?thesis using Cons v r read_own [OF Cons.prems(1), of now s' m'] by auto
  qed
qed simp

end

definition linux_read_at :: "Timestamp \<Rightarrow> 'w LinuxMonitor \<Rightarrow> (error, ResourceSnapshot) result \<times> 'w LinuxMonitor" where
  "linux_read_at now m = (linux_read m, m)"

definition linux_valid :: "'w LinuxMonitor \<Rightarrow> bool" where
  "linux_valid m \<longleftrightarrow> (case latest m of None \<Rightarrow> True | Some s \<Rightarrow> node_id s = lm_node_id m) \<and> length (prev_per_core_times m) = 4"

definition mock_valid :: "MockMonitor \<Rightarrow> bool" where
  "mock_valid m \<longleftrightarrow> node_id (static_snapshot m) = mm_node_id m \<and> (\<forall>s \<in> set (sequence m). node_id s = mm_node_id m)"

interpretation linux_monitor: resource_monitor linux_read_at linux_cpu_usage linux_memory_available linux_is_throttled lm_node_id linux_valid
  by unfold_locales (auto simp: linux_read_at_def linux_read_def linux_cpu_usage_def linux_memory_available_def
      linux_is_throttled_def linux_valid_def split: option.splits)

interpretation mock_monitor: resource_monitor mock_read mock_cpu_usage mock_memory_available mock_is_throttled mm_node_id mock_valid
  by unfold_locales (auto simp: mock_read_def mock_cpu_usage_def mock_memory_available_def mock_is_throttled_def
      mock_current_def mock_valid_def Let_def split: if_splits)

text \<open>Every operation keeps the contract.\<close>

datatype mock_op = Push ResourceSnapshot | Static ResourceSnapshot | SetCpu f32 | SetMemory u64 u64 | SetThrottled bool | Read Timestamp

fun run_mock_op :: "mock_op \<Rightarrow> MockMonitor \<Rightarrow> MockMonitor" where
  "run_mock_op (Push s) m = push_snapshot s m"
| "run_mock_op (Static s) m = set_static_snapshot s m"
| "run_mock_op (SetCpu p) m = set_cpu p m"
| "run_mock_op (SetMemory a t) m = set_memory a t m"
| "run_mock_op (SetThrottled b) m = set_throttled b m"
| "run_mock_op (Read now) m = snd (mock_read now m)"

lemma mock_valid_op: "mock_valid m \<Longrightarrow> mock_valid (run_mock_op op m) \<and> mm_node_id (run_mock_op op m) = mm_node_id m"
  by (cases op) (simp_all add: mock_monitor.read_valid, simp_all add: mock_valid_def push_snapshot_def set_static_snapshot_def
      set_cpu_def set_memory_def set_throttled_def)

lemma mock_valid_run: "mock_valid m \<Longrightarrow> mock_valid (fold run_mock_op ops m) \<and> mm_node_id (fold run_mock_op ops m) = mm_node_id m"
  by (induction ops arbitrary: m) (simp_all add: mock_valid_op)

lemma sample_cpu_facts:
  assumes "sample_cpu fs m snap = (snap', m')"
  shows "node_id snap' = node_id snap" "timestamp snap' = timestamp snap" "lm_node_id m' = lm_node_id m"
    "latest m' = latest m" "interval_ms m' = interval_ms m" "prev_net m' = prev_net m"
    "length (prev_per_core_times m) = 4 \<Longrightarrow> length (prev_per_core_times m') = 4"
  using assms by (auto simp: sample_cpu_def Let_def split: if_splits)

lemma sample_once_facts:
  assumes "sample_once fs now m = Some (snap, m')"
  shows "node_id snap = lm_node_id m" "timestamp snap = now" "lm_node_id m' = lm_node_id m"
    "length (prev_per_core_times m) = 4 \<Longrightarrow> length (prev_per_core_times m') = 4"
proof -
  let ?s = "default_snapshot\<lparr>node_id := lm_node_id m, timestamp := now\<rparr>"
  obtain s1 m1 where s1: "sample_cpu fs m ?s = (s1, m1)" by (cases "sample_cpu fs m ?s")
  note f = sample_cpu_facts [OF s1]
  show "node_id snap = lm_node_id m" "timestamp snap = now" "lm_node_id m' = lm_node_id m"
    "length (prev_per_core_times m) = 4 \<Longrightarrow> length (prev_per_core_times m') = 4"
    using assms f unfolding sample_once_def s1 by (auto simp: Let_def split: option.splits)
qed

text \<open>A run of the sampling loop, one file system and clock reading per turn.\<close>

fun sampling_run :: "(files \<times> Timestamp) list \<Rightarrow> 'w LinuxMonitor \<times> 'w \<Rightarrow> ('w LinuxMonitor \<times> 'w) option" where
  "sampling_run [] s = Some s"
| "sampling_run ((fs, now) # rounds) s = (case sampling_round fs now s of None \<Rightarrow> None | Some s' \<Rightarrow> sampling_run rounds s')"

lemma sampling_round_valid:
  assumes "sampling_round fs now (m, w) = Some (m', w')" "linux_valid m"
  shows "linux_valid m'" "lm_node_id m' = lm_node_id m" "map_option timestamp (latest m') = Some now"
  using assms sample_once_facts
  by (fastforce simp: sampling_round_def linux_valid_def Let_def split: option.splits prod.splits)+

lemma sampling_run_valid:
  assumes "sampling_run rounds (m, w) = Some (m', w')" "linux_valid m"
  shows "linux_valid m' \<and> lm_node_id m' = lm_node_id m \<and>
    map_option timestamp (latest m') = (if rounds = [] then map_option timestamp (latest m) else Some (snd (last rounds)))"
  using assms
proof (induction rounds arbitrary: m w)
  case (Cons r rounds)
  obtain fs now where r: "r = (fs, now)" by (cases r)
  obtain m1 w1 where s: "sampling_round fs now (m, w) = Some (m1, w1)" "sampling_run rounds (m1, w1) = Some (m', w')"
    using Cons.prems(1) unfolding r by (auto split: option.splits)
  note v = sampling_round_valid [OF s(1) Cons.prems(2)]
  show ?case using Cons.IH [OF s(2) v(1)] v(2,3) by (auto simp: r)
qed simp

section \<open>The CPU percentage\<close>

definition total_nat :: "CpuTimes \<Rightarrow> nat" where
  "total_nat t = unat (user t) + unat (nice t) + unat (system t) + unat (idle t) + unat (iowait t) + unat (irq t) + unat (softirq t) + unat (steal t)"

definition active_nat :: "CpuTimes \<Rightarrow> nat" where
  "active_nat t = unat (user t) + unat (nice t) + unat (system t) + unat (irq t) + unat (softirq t) + unat (steal t)"

lemma unat_total: "total_nat t < 2 ^ 64 \<Longrightarrow> unat (total_time t) = total_nat t"
proof -
  assume "total_nat t < 2 ^ 64"
  moreover have "total_time t = of_nat (total_nat t)" by (simp add: total_time_def total_nat_def)
  ultimately show ?thesis by (simp add: unat_of_nat)
qed

lemma unat_active: "total_nat t < 2 ^ 64 \<Longrightarrow> unat (active_time t) = active_nat t"
proof -
  assume "total_nat t < 2 ^ 64"
  then have "active_nat t < 2 ^ 64" by (simp add: total_nat_def active_nat_def)
  moreover have "active_time t = of_nat (active_nat t)" by (simp add: active_time_def active_nat_def)
  ultimately show ?thesis by (simp add: unat_of_nat)
qed

text \<open>The counters of the kernel only grow.\<close>

definition grown :: "CpuTimes \<Rightarrow> CpuTimes \<Rightarrow> bool" where
  "grown p c \<longleftrightarrow> user p \<le> user c \<and> nice p \<le> nice c \<and> system p \<le> system c \<and> idle p \<le> idle c \<and> iowait p \<le> iowait c \<and>
     irq p \<le> irq c \<and> softirq p \<le> softirq c \<and> steal p \<le> steal c"

lemma grown_nat: "grown p c \<Longrightarrow> total_nat p \<le> total_nat c \<and> active_nat p \<le> active_nat c \<and>
    active_nat c - active_nat p \<le> total_nat c - total_nat p"
  unfolding grown_def total_nat_def active_nat_def word_le_nat_alt by (elim conjE) (intro conjI; linarith)

lemma cpu_percent_exact:
  assumes "grown p c" "total_nat c < 2 ^ 64" "100 * (total_nat c - total_nat p) < 2 ^ 24" "total_nat p < total_nat c"
  shows "compute_cpu_percent p c = rnd (100 * of_nat (active_nat c - active_nat p) / of_nat (total_nat c - total_nat p))"
proof -
  define a t where "a = active_nat c - active_nat p" and "t = total_nat c - total_nat p"
  note g = grown_nat [OF assms(1)]
  have small: "total_nat p < 2 ^ 64" using g assms(2) by simp
  have at: "a \<le> t" "100 * t < 2 ^ 24" "0 < t" using g assms(3,4) by (simp_all add: a_def t_def)
  have t: "unat (total_time c - total_time p) = t"
    using g unat_sub [of "total_time p" "total_time c"]
    unfolding t_def word_le_nat_alt unat_total [OF assms(2)] unat_total [OF small] by blast
  have a: "unat (active_time c - active_time p) = a"
    using g unat_sub [of "active_time p" "active_time c"]
    unfolding a_def word_le_nat_alt unat_active [OF assms(2)] unat_active [OF small] by blast
  have "total_time c - total_time p \<noteq> 0" using t at(3) by (metis unat_0 less_numeral_extra(3))
  moreover have "f32_of_u64 (total_time c - total_time p) = Fin (of_nat t)" "f32_of_u64 (active_time c - active_time p) = Fin (of_nat a)"
    using at unfolding f32_of_u64_def a t by (auto intro!: rnd_of_nat)
  moreover have "rnd (100 * of_nat a) = Fin (100 * of_nat a)" using rnd_of_nat [of "100 * a"] at by simp
  ultimately have "compute_cpu_percent p c = rnd (100 * of_nat a / of_nat t)"
    using at(3) by (simp add: compute_cpu_percent_def Let_def f32_mul_def f32_div_def)
  then show ?thesis unfolding a_def t_def .
qed

section \<open>The formats of the kernel's files\<close>

text \<open>Numbers with one or more spaces before each.\<close>

definition padded :: "(nat \<times> u64) list \<Rightarrow> string" where
  "padded xs = concat (map (\<lambda>(k, n). replicate (Suc k) (CHR '' '') @ dec_string (unat n)) xs)"

definition stat_line :: "string \<Rightarrow> (nat \<times> u64) list \<Rightarrow> string" where
  "stat_line label xs = label @ padded xs"

lemma padded_append: "padded (xs @ ys) = padded xs @ padded ys"
  by (simp add: padded_def)

text \<open>A line of \<^verbatim>\<open>/proc/meminfo\<close>; the counts of huge pages have no unit.\<close>

definition mem_entry :: "string \<times> nat \<times> u64 \<times> bool \<Rightarrow> string" where
  "mem_entry e = (case e of (key, k, n, kb) \<Rightarrow> key @ '':'' @ padded [(k, n)] @ (if kb then '' kB'' else []))"

definition net_entry :: "nat \<times> string \<times> (nat \<times> u64) list \<Rightarrow> string" where
  "net_entry e = (case e of (k, name, xs) \<Rightarrow> replicate k (CHR '' '') @ name @ '':'' @ padded xs)"

definition file_of :: "string list \<Rightarrow> string" where
  "file_of ls = concat (map (\<lambda>l. l @ [nl]) ls)"

lemma dec_string_is_digit: "c \<in> set (dec_string n) \<Longrightarrow> is_digit c"
  using dec_string_digits [of n] by (auto simp: is_digit_def of_char_digit)

lemma digit_facts: "is_digit c \<Longrightarrow> \<not> is_space c \<and> c \<noteq> CHR ''-'' \<and> c \<noteq> CHR ''+'' \<and> c \<noteq> nl \<and> c \<noteq> CHR '':''"
  by (auto simp: is_digit_def is_space_def nl_def)

lemma is_space_blank [simp]: "is_space (CHR '' '')"
  by (simp add: is_space_def)

lemma skip_blanks [simp]: "skip_space (replicate k (CHR '' '') @ s) = skip_space s"
  by (induction k) (simp_all add: skip_space_def)

lemma extract_dec:
  assumes "rest = [] \<or> \<not> is_digit (hd rest)"
  shows "extract_u64 (Some (replicate k (CHR '' '') @ dec_string (unat n) @ rest)) old = (Some n, Some rest)"
proof -
  obtain c cs where d: "dec_string (unat n) = c # cs" using dec_string_not_Nil by (meson neq_Nil_conv)
  have c: "\<not> is_space c" "c \<noteq> CHR ''-''" "c \<noteq> CHR ''+''"
    using dec_string_is_digit [of c "unat n"] digit_facts d by auto
  have sp: "skip_space (replicate k (CHR '' '') @ dec_string (unat n) @ rest) = dec_string (unat n) @ rest"
    using c(1) unfolding d skip_blanks by (simp add: skip_space_def)
  have sign: "take_sign (dec_string (unat n) @ rest) = (False, dec_string (unat n) @ rest)"
    using c by (simp add: d take_sign_def)
  have ds: "takeWhile is_digit (dec_string (unat n) @ rest) = dec_string (unat n)" "dropWhile is_digit (dec_string (unat n) @ rest) = rest"
    using assms dec_string_is_digit by (cases rest; simp add: takeWhile_append dropWhile_append)+
  show ?thesis
    unfolding extract_u64_def option.case sp sign Let_def prod.case ds dec_value_dec_string
    using unsigned_less [of n] by (simp add: not_le [symmetric])
qed

lemma padded_Cons: "padded ((k, n) # xs) = replicate (Suc k) (CHR '' '') @ dec_string (unat n) @ padded xs"
  by (simp add: padded_def)

lemma padded_hd: "padded xs @ rest = [] \<or> \<not> is_digit (hd (padded xs @ rest))" if "rest = [] \<or> \<not> is_digit (hd rest)"
  using that by (cases xs) (auto simp: padded_def is_digit_def)

lemma extract_padded:
  assumes "rest = [] \<or> \<not> is_digit (hd rest)" "length olds = length xs"
  shows "extract_all (Some (padded xs @ rest)) olds = map (Some \<circ> snd) xs"
  using assms(2)
proof (induction xs arbitrary: olds)
  case (Cons x xs)
  obtain k n where x: "x = (k, n)" by (cases x)
  obtain v vs where o: "olds = v # vs" "length vs = length xs" using Cons.prems by (cases olds) auto
  show ?case
    unfolding x o(1) padded_Cons append_assoc extract_all.simps extract_dec [OF padded_hd [OF assms(1)]] prod.case
    using Cons.IH [OF o(2)] by simp
qed simp

lemma parse_stat_line:
  assumes "label \<noteq> []" "list_all (\<lambda>c. \<not> is_space c) label" "rest = [] \<or> \<not> is_digit (hd rest)" "length ks = 8"
  shows "parse_cpu_line (stat_line label (zip ks [a, b, c, d, e, f, g, h]) @ rest) =
    \<lparr>user = a, nice = b, system = c, idle = d, iowait = e, irq = f, softirq = g, steal = h\<rparr>"
proof -
  let ?xs = "zip ks [a, b, c, d, e, f, g, h]"
  have sp: "skip_space (label @ padded ?xs @ rest) = label @ padded ?xs @ rest"
    using assms(1,2) by (cases label) (auto simp: skip_space_def)
  obtain k ks' where k: "ks = k # ks'" using assms(4) by (cases ks) auto
  have "dropWhile (\<lambda>c. \<not> is_space c) (label @ padded ?xs @ rest) = padded ?xs @ rest"
    using assms(2) by (simp add: dropWhile_append list_all_iff k padded_Cons)
  then have "extract_word (Some (stat_line label ?xs @ rest)) = Some (padded ?xs @ rest)"
    using sp assms(1) by (simp add: extract_word_def stat_line_def)
  moreover have "extract_all (Some (padded ?xs @ rest)) (replicate 8 (Some 0)) = map (Some \<circ> snd) ?xs"
    using assms(4) by (intro extract_padded [OF assms(3)]) simp
  moreover have "map (Some \<circ> snd) ?xs = map Some [a, b, c, d, e, f, g, h]"
    using assms(4) unfolding map_map [symmetric] by (subst map_snd_zip) simp_all
  ultimately show ?thesis by (simp add: parse_cpu_line_def)
qed

lemma colon_key:
  assumes "CHR '':'' \<notin> set key" "CHR '':'' \<notin> set p"
  shows "starts_with (p @ '':'') (key @ '':'' @ r) \<longleftrightarrow> key = p"
proof
  assume "starts_with (p @ '':'') (key @ '':'' @ r)"
  then have "key @ CHR '':'' # r = (p @ '':'') @ drop (length (p @ '':'')) (key @ '':'' @ r)"
    unfolding starts_with_def by (metis append.simps append_take_drop_id)
  then have "takeWhile (\<lambda>c. c \<noteq> CHR '':'') (key @ CHR '':'' # r) = takeWhile (\<lambda>c. c \<noteq> CHR '':'') (p @ CHR '':'' # drop (length (p @ '':'')) (key @ '':'' @ r))"
    by (simp only: append.simps append_assoc)
  moreover have "takeWhile (\<lambda>c. c \<noteq> CHR '':'') (x @ CHR '':'' # y) = x" if "CHR '':'' \<notin> set x" for x y
    using that by (subst takeWhile_append2) auto
  ultimately show "key = p" using assms by simp
qed (simp add: starts_with_def)

text \<open>The value of a line, read after the key and its colon.\<close>

lemma mem_value: "fst (extract_u64 (Some (padded [(k, n)] @ (if kb then '' kB'' else []))) old) = Some n"
  unfolding padded_Cons append_assoc by (subst extract_dec) (simp_all add: padded_def is_digit_def)

lemma mem_line_entry:
  assumes "CHR '':'' \<notin> set key"
  shows "mem_line (mem_entry (key, k, n, kb)) info =
    (if key = ''MemTotal'' then info\<lparr>total_kb := n\<rparr> else if key = ''MemAvailable'' then info\<lparr>available_kb := n\<rparr> else info)"
proof -
  let ?r = "padded [(k, n)] @ (if kb then '' kB'' else [])"
  have e: "mem_entry (key, k, n, kb) = key @ '':'' @ ?r" by (simp add: mem_entry_def)
  have "starts_with ''MemTotal:'' (key @ '':'' @ ?r) \<longleftrightarrow> key = ''MemTotal''"
    "starts_with ''MemAvailable:'' (key @ '':'' @ ?r) \<longleftrightarrow> key = ''MemAvailable''"
    using colon_key [OF assms, of "''MemTotal''" ?r] colon_key [OF assms, of "''MemAvailable''" ?r] by simp_all
  then show ?thesis unfolding mem_line_def e using mem_value [of k n kb] by auto
qed

lemma mem_lines:
  assumes "list_all (\<lambda>(key, _). CHR '':'' \<notin> set key) es" "distinct (map fst es)"
  shows "fold mem_line (map mem_entry es) info =
    \<lparr>total_kb = (case map_of es ''MemTotal'' of None \<Rightarrow> total_kb info | Some (k, n, kb) \<Rightarrow> n),
     available_kb = (case map_of es ''MemAvailable'' of None \<Rightarrow> available_kb info | Some (k, n, kb) \<Rightarrow> n)\<rparr>"
  using assms
proof (induction es arbitrary: info)
  case (Cons x es)
  obtain key k n kb where x: "x = (key, k, n, kb)" by (cases x) auto
  have none: "map_of es key = None" using Cons.prems(2) by (simp add: x map_of_eq_None_iff)
  show ?case
    using Cons.IH [of "mem_line (mem_entry x) info"] Cons.prems none
    by (auto simp: x mem_line_entry split: option.splits)
qed simp

lemma net_entry_parts:
  assumes "name \<noteq> []" "CHR '':'' \<notin> set name" "hd name \<noteq> CHR '' ''"
  shows "interface_name (net_entry (k, name, xs)) = name"
    and "tl (dropWhile (\<lambda>c. c \<noteq> CHR '':'') (net_entry (k, name, xs))) = padded xs"
    and "CHR '':'' \<in> set (net_entry (k, name, xs))"
proof -
  let ?p = "replicate k (CHR '' '') @ name"
  have e: "net_entry (k, name, xs) = ?p @ '':'' @ padded xs" by (simp add: net_entry_def)
  have pre: "\<forall>c \<in> set ?p. c \<noteq> CHR '':''" using assms(2) by auto
  have tw: "takeWhile (\<lambda>c. c \<noteq> CHR '':'') (net_entry (k, name, xs)) = ?p"
    using takeWhile_append2 [of ?p "\<lambda>c. c \<noteq> CHR '':''" "'':'' @ padded xs"] pre by (auto simp: e)
  show "tl (dropWhile (\<lambda>c. c \<noteq> CHR '':'') (net_entry (k, name, xs))) = padded xs"
    using dropWhile_append2 [of ?p "\<lambda>c. c \<noteq> CHR '':''" "'':'' @ padded xs"] pre by (auto simp: e)
  have "dropWhile (\<lambda>c. c = CHR '' '') ?p = name"
    using assms(1,3) by (induction k) (cases name; simp)+
  then show "interface_name (net_entry (k, name, xs)) = name" unfolding interface_name_def tw Let_def using assms(1) by simp
  show "CHR '':'' \<in> set (net_entry (k, name, xs))" by (simp add: e)
qed

text \<open>A stream that runs out leaves the remaining variables as they were.\<close>

lemma extract_exhausted: "extract_all (Some []) olds = olds" "extract_all None olds = olds"
proof -
  show none: "extract_all None olds = olds" for olds by (induction olds) (simp_all add: extract_u64_def)
  show "extract_all (Some []) olds = olds" by (cases olds) (simp_all add: extract_u64_def skip_space_def none)
qed

lemma extract_prefix:
  assumes "length xs \<le> length olds"
  shows "extract_all (Some (padded xs)) olds = map (Some \<circ> snd) xs @ drop (length xs) olds"
  using assms
proof (induction xs arbitrary: olds)
  case (Cons x xs)
  obtain k n where x: "x = (k, n)" by (cases x)
  obtain v vs where o: "olds = v # vs" "length xs \<le> length vs" using Cons.prems by (cases olds) auto
  have "padded xs = [] \<or> \<not> is_digit (hd (padded xs))" using padded_hd [of "[]" xs] by simp
  from extract_dec [OF this, of "Suc k" n v] show ?case
    using Cons.IH [OF o(2)] by (simp add: x o(1) padded_Cons)
qed (simp add: padded_def extract_exhausted)

lemma nine_elements:
  assumes "length ys = 9"
  obtains y0 y1 y2 y3 y4 y5 y6 y7 y8 where "ys = [y0, y1, y2, y3, y4, y5, y6, y7, y8]"
  using assms by (auto simp: length_Suc_conv eval_nat_numeral)

lemma net_line_entry:
  assumes "name \<noteq> []" "CHR '':'' \<notin> set name" "hd name \<noteq> CHR '' ''" "9 \<le> length xs"
  shows "net_line (net_entry (k, name, xs)) acc =
    Some (if name = ''lo'' then acc else acc\<lparr>rx_bytes := rx_bytes acc + snd (xs ! 0), tx_bytes := tx_bytes acc + snd (xs ! 8)\<rparr>)"
proof -
  define ys zs where "ys = take 9 xs" and "zs = drop 9 xs"
  have ys: "xs = ys @ zs" "length ys = 9" using assms(4) by (simp_all add: ys_def zs_def)
  have "padded xs = padded ys @ padded zs" by (simp add: ys(1) padded_def)
  then have ex: "extract_all (Some (padded xs)) (replicate 9 None) = map (Some \<circ> snd) ys"
    using extract_padded [OF padded_hd [of "[]" zs], of "replicate 9 None" ys] ys(2) by simp
  obtain y0 y1 y2 y3 y4 y5 y6 y7 y8 where "ys = [y0, y1, y2, y3, y4, y5, y6, y7, y8]"
    using ys(2) by (rule nine_elements)
  then show ?thesis unfolding net_line_def net_entry_parts(1,2) [OF assms(1-3)] ex
    using net_entry_parts(3) [OF assms(1-3)] ys(1) by simp
qed

definition net_total :: "(nat \<times> string \<times> (nat \<times> u64) list) list \<Rightarrow> nat \<Rightarrow> u64" where
  "net_total ifs j = sum_list (map (\<lambda>(k, name, xs). snd (xs ! j)) (filter (\<lambda>(k, name, xs). name \<noteq> ''lo'') ifs))"

definition interface_ok :: "nat \<times> string \<times> (nat \<times> u64) list \<Rightarrow> bool" where
  "interface_ok e = (case e of (k, name, xs) \<Rightarrow>
     name \<noteq> [] \<and> CHR '':'' \<notin> set name \<and> nl \<notin> set name \<and> hd name \<noteq> CHR '' '' \<and> 9 \<le> length xs)"

lemma net_lines_entries:
  assumes "list_all interface_ok ifs"
  shows "net_lines (map net_entry ifs) acc = Some \<lparr>rx_bytes = rx_bytes acc + net_total ifs 0, tx_bytes = tx_bytes acc + net_total ifs 8\<rparr>"
  using assms
proof (induction ifs arbitrary: acc)
  case (Cons e ifs)
  obtain k name xs where e: "e = (k, name, xs)" by (cases e) auto
  have l: "net_line (net_entry e) acc =
      Some (if name = ''lo'' then acc else acc\<lparr>rx_bytes := rx_bytes acc + snd (xs ! 0), tx_bytes := tx_bytes acc + snd (xs ! 8)\<rparr>)"
    using Cons.prems unfolding e by (intro net_line_entry) (auto simp: interface_ok_def)
  show ?case using Cons by (simp add: l) (simp add: e net_total_def)
qed (simp add: net_total_def)

lemma padded_no_nl: "nl \<notin> set (padded xs)"
  by (induction xs) (auto simp: padded_def nl_not_digit nl_def [symmetric], simp_all add: nl_def)

lemma file_lines: "fs path = Some (file_of ls) \<Longrightarrow> \<forall>l \<in> set ls. nl \<notin> set l \<Longrightarrow> read_file_lines fs path = ls"
  by (simp add: read_file_lines_def file_of_def split_lines_concat)

section \<open>When the rates are defined\<close>

lemma rnd_lower:
  assumes "2 powi k \<le> x" "-149 \<le> k" "2 * x \<le> max_finite"
  shows "\<exists>v. rnd x = Fin v \<and> 2 powi k \<le> v \<and> v \<le> 2 * x"
proof -
  have x: "0 < x" using assms(1) zero_less_power_int [of "2 :: rat" k] by linarith
  let ?q = "2 powi quantum x :: rat"
  have "2 powi k \<le> of_int (round_half_even (x / ?q)) * ?q"
  proof (cases "quantum x \<le> k")
    case True
    have "(2 powi k :: rat) = 2 powi (k - quantum x) * ?q" by (simp flip: power_int_add)
    also have "2 powi (k - quantum x) = (of_int (2 ^ nat (k - quantum x)) :: rat)" using True by (simp add: power_int_def)
    finally have m: "(2 powi k :: rat) = of_int (2 ^ nat (k - quantum x)) * ?q" .
    then have "of_int (2 ^ nat (k - quantum x)) \<le> x / ?q" using assms(1) by (simp add: le_divide_eq)
    then have "2 ^ nat (k - quantum x) \<le> round_half_even (x / ?q)" using round_half_even_mono round_half_even_of_int by metis
    then have "(of_int (2 ^ nat (k - quantum x)) :: rat) \<le> of_int (round_half_even (x / ?q))" by (simp only: of_int_le_iff)
    then show ?thesis unfolding m by (intro mult_right_mono) simp_all
  next
    case False
    then have q: "quantum x = ilog2 x - 23" using assms(2) by (auto simp: quantum_def max_def split: if_splits)
    have "?q \<le> 2 powi ilog2 x" unfolding q by (intro power_int_increasing) simp_all
    then have "of_int 1 \<le> x / ?q" using ilog2_lower [OF x] by (simp add: le_divide_eq)
    then have "1 \<le> round_half_even (x / ?q)" using round_half_even_mono round_half_even_of_int by metis
    then have "?q \<le> of_int (round_half_even (x / ?q)) * ?q" by simp
    moreover have "(2 powi k :: rat) \<le> ?q" using False by (intro power_int_increasing) simp_all
    ultimately show ?thesis by (rule order_trans [rotated])
  qed
  moreover obtain v where "rnd x = Fin v" "v \<le> 2 * x" using rnd_double_bound [of x] x assms(3) by auto
  ultimately show ?thesis using x by (auto simp: rnd_def rnd_pos_def Let_def split: if_splits)
qed

lemma rate_defined:
  assumes "unat d < 2 ^ 50" "2 powi -10 \<le> u"
  shows "\<exists>r. f32_to_u64 (f32_div (f32_of_u64 d) (Fin u)) = Some r"
proof -
  define n where "n = unat d"
  have d: "(of_nat n :: rat) < 2 ^ 50" using assms(1) unfolding n_def [symmetric] by (metis of_nat_less_iff of_nat_numeral of_nat_power)
  obtain a where a: "rnd (of_nat n) = Fin a" "0 \<le> a" "a \<le> 2 * of_nat n"
    using rnd_double_bound [of "of_nat n"] d by (auto simp: max_finite_def)
  have u: "0 < u" using assms(2) zero_less_power_int [of "2 :: rat" "-10"] by linarith
  have "a \<le> 2 ^ 51" using a(3) d by simp
  also have "(2 ^ 51 :: rat) = 2 ^ 61 * 2 powi -10" by (simp add: power_int_def power_divide)
  also have "\<dots> \<le> 2 ^ 61 * u" using assms(2) by (intro mult_left_mono) simp_all
  finally have q: "a / u \<le> 2 ^ 61" using u by (simp add: divide_le_eq)
  obtain b where b: "rnd (a / u) = Fin b" "0 \<le> b" "b \<le> 2 * (a / u)"
    using rnd_double_bound [of "a / u"] a(2) u q by (auto simp: max_finite_def)
  have "b \<le> 2 ^ 62" using b(3) q by simp
  then have "\<lfloor>b\<rfloor> \<le> 2 ^ 62" by (simp add: floor_le_iff)
  then show ?thesis using b(1,2) u unfolding f32_of_u64_def n_def [symmetric] a(1) by (simp add: f32_div_def rat_trunc_def Let_def)
qed

lemma net_rates_defined:
  assumes "rx_bytes p \<le> rx_bytes c" "tx_bytes p \<le> tx_bytes c"
    and "unat (rx_bytes c - rx_bytes p) < 2 ^ 50" "unat (tx_bytes c - tx_bytes p) < 2 ^ 50"
  shows "\<exists>r. net_rates interval p c = Some r"
proof (cases "interval = 0")
  case True
  then show ?thesis by (simp add: net_rates_def f32_div_def)
next
  case False
  define n where "n = unat interval"
  have n: "0 < n" "n < 2 ^ 32" using False unsigned_less [of interval] by (simp_all add: n_def unat_gt_0)
  have nq: "(1 :: rat) \<le> of_nat n" "(of_nat n :: rat) \<le> 2 ^ 32"
    using n by (simp, metis less_imp_le of_nat_le_iff of_nat_numeral of_nat_power)
  obtain v where v: "rnd (of_nat n) = Fin v" "1 \<le> v" "v \<le> 2 * of_nat n"
    using rnd_lower [of 0 "of_nat n"] nq by (auto simp: max_finite_def)
  have "2 powi -10 \<le> v / 1000" using v(2) by (simp add: power_int_def power_divide)
  moreover have "2 * (v / 1000) \<le> max_finite" using v(3) nq(2) by (simp add: max_finite_def)
  ultimately obtain u where u: "rnd (v / 1000) = Fin u" "2 powi -10 \<le> u" using rnd_lower [of "-10" "v / 1000"] by auto
  have "0 < u" using u(2) zero_less_power_int [of "2 :: rat" "-10"] by linarith
  moreover have "f32_div (rnd (of_nat (unat interval))) (Fin 1000) = Fin u" unfolding n_def [symmetric] using v(1) u(1) by (simp add: f32_div_def)
  ultimately show ?thesis
    using rate_defined [OF assms(3) u(2)] rate_defined [OF assms(4) u(2)] by (auto simp: net_rates_def Let_def simp del: of_nat_unat)
qed

text \<open>At the interval of the default configuration the rate of a moderate traffic is exact.\<close>

lemma half_second: "f32_div (rnd (of_nat (unat (500 :: u32)))) (Fin 1000) = Fin (1 / 2)"
  using rnd_of_nat [of 500] by (simp add: f32_div_def) code_simp

lemma double_exact:
  assumes "n < 2 ^ 23"
  shows "f32_to_u64 (f32_div (rnd (of_nat n)) (Fin (1 / 2))) = Some (word_of_int (int (2 * n)))"
proof -
  have "rnd (of_nat n) = Fin (of_nat n)" using assms by (intro rnd_of_nat) simp
  moreover have "rnd (of_nat (2 * n)) = Fin (of_nat (2 * n))" using assms by (intro rnd_of_nat) simp
  ultimately have "f32_div (rnd (of_nat n)) (Fin (1 / 2)) = Fin (of_nat (2 * n))" by (simp add: f32_div_def mult.commute)
  moreover have "rat_trunc (of_nat (2 * n)) = int (2 * n)" by (simp only: rat_trunc_def of_nat_0_le_iff if_True floor_of_nat)
  ultimately show ?thesis using assms by (simp add: Let_def)
qed

lemma net_rates_exact:
  assumes "net_rates 500 p c = Some (rx, tx)"
  shows "unat (rx_bytes c - rx_bytes p) < 2 ^ 23 \<Longrightarrow> unat rx = 2 * unat (rx_bytes c - rx_bytes p)"
    and "unat (tx_bytes c - tx_bytes p) < 2 ^ 23 \<Longrightarrow> unat tx = 2 * unat (tx_bytes c - tx_bytes p)"
proof -
  have un: "unat (word_of_int (int (2 * n)) :: u64) = 2 * n" if "n < 2 ^ 23" for n
    using that unfolding of_int_of_nat_eq unat_of_nat by (intro mod_less) simp
  have "f32_to_u64 (f32_div (f32_of_u64 (rx_bytes c - rx_bytes p)) (Fin (1 / 2))) = Some rx"
    "f32_to_u64 (f32_div (f32_of_u64 (tx_bytes c - tx_bytes p)) (Fin (1 / 2))) = Some tx"
    using assms unfolding net_rates_def half_second Let_def by (auto split: option.splits if_splits)
  then show "unat (rx_bytes c - rx_bytes p) < 2 ^ 23 \<Longrightarrow> unat rx = 2 * unat (rx_bytes c - rx_bytes p)"
    "unat (tx_bytes c - tx_bytes p) < 2 ^ 23 \<Longrightarrow> unat tx = 2 * unat (tx_bytes c - tx_bytes p)"
    unfolding f32_of_u64_def by (metis double_exact option.inject un)+
qed

section \<open>Properties\<close>

text \<open>
  The CPU load is a percentage: when the kernel's counters have only grown since the last sample,
  and by less than \<open>2\<^sup>24 / 100\<close> ticks in all, the value is the busy share of the elapsed ticks,
  rounded once, and lies between 0 and 100.
\<close>

theorem cpu_percent_range:
  assumes "grown p c" "total_nat c < 2 ^ 64" "100 * (total_nat c - total_nat p) < 2 ^ 24"
  shows "\<exists>r. compute_cpu_percent p c = Fin r \<and> 0 \<le> r \<and> r \<le> 100 \<and>
    (total_nat p < total_nat c \<longrightarrow> Fin r = rnd (100 * of_nat (active_nat c - active_nat p) / of_nat (total_nat c - total_nat p)))"
proof (cases "total_nat p < total_nat c")
  case True
  let ?x = "100 * of_nat (active_nat c - active_nat p) / of_nat (total_nat c - total_nat p) :: rat"
  have "(of_nat (active_nat c - active_nat p) :: rat) \<le> of_nat (total_nat c - total_nat p)"
    using grown_nat [OF assms(1)] by (simp only: of_nat_le_iff)
  then have "0 \<le> ?x" "?x \<le> of_nat 100" using True by (simp_all add: divide_le_eq)
  then obtain v where "rnd ?x = Fin v" "0 \<le> v" "v \<le> of_nat 100" using rnd_range [of ?x 100] by auto
  then show ?thesis using cpu_percent_exact [OF assms True] by auto
next
  case False
  then have "total_time c = total_time p"
    using grown_nat [OF assms(1)] unat_total [of c] unat_total [of p] assms(2) by (metis le_antisym not_le unsigned_word_eqI)
  then show ?thesis using False by (simp add: compute_cpu_percent_def)
qed

definition sample_times :: "CpuTimes" where
  "sample_times = \<lparr>user = 100, nice = 0, system = 20, idle = 900, iowait = 5, irq = 0, softirq = 1, steal = 0\<rparr>"

theorem cpu_percent_range_witness:
  "\<exists>r. compute_cpu_percent sample_times (sample_times\<lparr>user := 150, idle := 1050\<rparr>) = Fin r \<and> 0 \<le> r \<and> r \<le> 100 \<and> Fin r = rnd 25"
proof -
  let ?c = "sample_times\<lparr>user := 150, idle := 1050\<rparr>"
  have "grown sample_times ?c" "total_nat ?c < 2 ^ 64" "100 * (total_nat ?c - total_nat sample_times) < 2 ^ 24"
    "total_nat ?c - total_nat sample_times = 200" "active_nat ?c - active_nat sample_times = 50" "total_nat sample_times < total_nat ?c"
    by (simp_all add: grown_def sample_times_def total_nat_def active_nat_def)
  then show ?thesis using cpu_percent_range [of sample_times ?c] by simp
qed

text \<open>
  Both monitors keep their contract. Whatever was done to a mock monitor, and for every run of the
  sampling thread, a snapshot that is read carries the node's own id, the single-value queries agree
  with it, and the Linux monitor's snapshot is that of the latest turn.
\<close>

theorem monitors_report_own_node:
  assumes "sampling_run rounds (new_linux_monitor i interval, w) = Some (m, w')" "rounds \<noteq> []"
  shows "(\<exists>s. linux_read m = Inr s \<and> node_id s = i \<and> timestamp s = snd (last rounds) \<and>
      linux_cpu_usage m = cpu_usage_percent s \<and> linux_memory_available m = memory_available_bytes s) \<and>
    node_id ` set (mock_monitor.reads nows (fold run_mock_op ops (new_mock_monitor j))) \<subseteq> {j}"
proof
  have "linux_valid (new_linux_monitor i interval)" by (simp add: linux_valid_def new_linux_monitor_def)
  note v = sampling_run_valid [OF assms(1) this]
  then obtain s where s: "latest m = Some s" "timestamp s = snd (last rounds)" using assms(2) by auto
  then have "node_id s = i" using v by (simp add: linux_valid_def new_linux_monitor_def)
  then show "\<exists>s. linux_read m = Inr s \<and> node_id s = i \<and> timestamp s = snd (last rounds) \<and>
      linux_cpu_usage m = cpu_usage_percent s \<and> linux_memory_available m = memory_available_bytes s"
    using s by (simp add: linux_read_def linux_cpu_usage_def linux_memory_available_def)
  have "mock_valid (new_mock_monitor j)" by (simp add: mock_valid_def new_mock_monitor_def)
  then have "mock_valid (fold run_mock_op ops (new_mock_monitor j))" "mm_node_id (fold run_mock_op ops (new_mock_monitor j)) = j"
    using mock_valid_run [of "new_mock_monitor j" ops] by (simp_all add: new_mock_monitor_def)
  then show "node_id ` set (mock_monitor.reads nows (fold run_mock_op ops (new_mock_monitor j))) \<subseteq> {j}"
    using mock_monitor.reads_own by auto
qed

text \<open>With no file to read every value degrades to zero.\<close>

lemma sampling_no_files:
  "sampling_round (\<lambda>p. None) now (new_linux_monitor i 0, w) =
     Some ((new_linux_monitor i 0)\<lparr>latest := Some (default_snapshot\<lparr>node_id := i, timestamp := now\<rparr>)\<rparr>, w)"
  by (simp add: sampling_round_def sample_once_def sample_cpu_def read_file_lines_def read_file_line_def parse_meminfo_def
      read_temperature_def parse_net_dev_def net_rates_def f32_div_def read_rpi_throttled_def check_thresholds_def
      new_linux_monitor_def default_snapshot_def)

theorem monitors_report_own_node_witness:
  "linux_cpu_usage ((new_linux_monitor ''n'' 0 :: unit LinuxMonitor)\<lparr>latest := Some (default_snapshot\<lparr>node_id := ''n'', timestamp := 7\<rparr>)\<rparr>) =
     cpu_usage_percent (default_snapshot\<lparr>node_id := ''n'', timestamp := 7\<rparr>) \<and>
   node_id ` set (mock_monitor.reads [1, 2] (fold run_mock_op [Push default_snapshot, Push default_snapshot] (new_mock_monitor ''k''))) \<subseteq> {''k''}"
proof -
  let ?m = "(new_linux_monitor ''n'' 0 :: unit LinuxMonitor)\<lparr>latest := Some (default_snapshot\<lparr>node_id := ''n'', timestamp := 7\<rparr>)\<rparr>"
  have "sampling_run [(\<lambda>p. None, 7)] (new_linux_monitor ''n'' 0, ()) = Some (?m, ())"
    by (simp only: sampling_run.simps sampling_no_files option.case)
  from monitors_report_own_node [OF this, of "[1, 2]" "[Push default_snapshot, Push default_snapshot]" "''k''"]
  show ?thesis by (auto simp: linux_read_def)
qed

text \<open>
  C40. A sample of files as the kernel writes them succeeds and reads them exactly: the first eight CPU
  counters of the first line of \<^verbatim>\<open>/proc/stat\<close>, however many follow; the two memory figures in bytes,
  whatever other lines there are, with a unit or without; and the traffic summed over all interfaces
  but the loopback, when the traffic counters have not gone down since the last sample. The rates
  are those of \<^verbatim>\<open>net_rates\<close> for the traffic since then; at the default interval of half a second and
  below eight mebibytes per sample they are twice the traffic, with no rounding.
\<close>

theorem sample_reads_kernel_files:
  assumes "fs ''/proc/stat'' = Some (file_of (stat_line ''cpu'' (zip ks [a, b, c, d, e, f, g, h] @ extra) # stat_rest))" "length ks = 8"
    and "fs ''/proc/meminfo'' = Some (file_of (map mem_entry es))" "distinct (map fst es)"
    and "fs ''/proc/net/dev'' = Some (file_of (h1 # h2 # map net_entry ifs))" "list_all interface_ok ifs"
    and "list_all (\<lambda>l. nl \<notin> set l) (h1 # h2 # stat_rest)" "list_all (\<lambda>(key, _). CHR '':'' \<notin> set key \<and> nl \<notin> set key) es"
    and "rx_bytes (prev_net m) \<le> net_total ifs 0" "unat (net_total ifs 0 - rx_bytes (prev_net m)) < 2 ^ 50"
    and "tx_bytes (prev_net m) \<le> net_total ifs 8" "unat (net_total ifs 8 - tx_bytes (prev_net m)) < 2 ^ 50"
  defines "cur \<equiv> \<lparr>user = a, nice = b, system = c, idle = d, iowait = e, irq = f, softirq = g, steal = h\<rparr>"
  shows "\<exists>snap m'. sample_once fs now m = Some (snap, m') \<and>
    cpu_usage_percent snap = compute_cpu_percent (prev_cpu_times m) cur \<and> prev_cpu_times m' = cur \<and>
    memory_total_bytes snap = (case map_of es ''MemTotal'' of None \<Rightarrow> 0 | Some (k, n, kb) \<Rightarrow> n * 1024) \<and>
    memory_available_bytes snap = (case map_of es ''MemAvailable'' of None \<Rightarrow> 0 | Some (k, n, kb) \<Rightarrow> n * 1024) \<and>
    prev_net m' = \<lparr>rx_bytes = net_total ifs 0, tx_bytes = net_total ifs 8\<rparr> \<and>
    net_rates (interval_ms m) (prev_net m) (prev_net m') = Some (network_rx_bytes_sec snap, network_tx_bytes_sec snap) \<and>
    (interval_ms m = 500 \<and> unat (net_total ifs 0 - rx_bytes (prev_net m)) < 2 ^ 23 \<longrightarrow>
       unat (network_rx_bytes_sec snap) = 2 * unat (net_total ifs 0 - rx_bytes (prev_net m))) \<and>
    (interval_ms m = 500 \<and> unat (net_total ifs 8 - tx_bytes (prev_net m)) < 2 ^ 23 \<longrightarrow>
       unat (network_tx_bytes_sec snap) = 2 * unat (net_total ifs 8 - tx_bytes (prev_net m)))"
proof -
  let ?cpu = "stat_line ''cpu'' (zip ks [a, b, c, d, e, f, g, h] @ extra)"
  let ?snap = "default_snapshot\<lparr>node_id := lm_node_id m, timestamp := now\<rparr>"
  let ?net = "\<lparr>rx_bytes = net_total ifs 0, tx_bytes = net_total ifs 8\<rparr>"
  have stat: "read_file_lines fs ''/proc/stat'' = ?cpu # stat_rest"
    using assms(7) padded_no_nl by (intro file_lines [where fs = fs, OF assms(1)]) (auto simp: stat_line_def list_all_iff nl_def)
  have "read_file_lines fs ''/proc/meminfo'' = map mem_entry es"
    using assms(8) padded_no_nl by (intro file_lines [where fs = fs, OF assms(3)]) (fastforce simp: mem_entry_def list_all_iff nl_def)
  then have mem: "parse_meminfo fs = \<lparr>total_kb = (case map_of es ''MemTotal'' of None \<Rightarrow> 0 | Some (k, n, kb) \<Rightarrow> n),
      available_kb = (case map_of es ''MemAvailable'' of None \<Rightarrow> 0 | Some (k, n, kb) \<Rightarrow> n)\<rparr>"
    using mem_lines [OF _ assms(4)] assms(8) by (simp add: parse_meminfo_def list_all_iff case_prod_unfold split: option.split)
  have "read_file_lines fs ''/proc/net/dev'' = h1 # h2 # map net_entry ifs"
    using assms(6,7) padded_no_nl
    by (intro file_lines [where fs = fs, OF assms(5)]) (auto simp: net_entry_def interface_ok_def list_all_iff nl_def)
  then have net: "parse_net_dev fs = Some ?net"
    by (simp add: parse_net_dev_def net_lines_entries [OF assms(6)])
  obtain s1 m1 where s1: "sample_cpu fs m ?snap = (s1, m1)" by (cases "sample_cpu fs m ?snap")
  have "parse_cpu_line (stat_line ''cpu'' (zip ks [a, b, c, d, e, f, g, h]) @ padded extra) = cur"
    using parse_stat_line [of "''cpu''" "padded extra" ks] padded_hd [of "[]" extra] assms(2) by (simp add: cur_def is_space_def)
  then have "parse_cpu_line ?cpu = cur" by (simp add: stat_line_def padded_append)
  then have cpu: "cpu_usage_percent s1 = compute_cpu_percent (prev_cpu_times m) cur" "prev_cpu_times m1 = cur"
    using s1 by (auto simp: sample_cpu_def stat Let_def)
  have same: "prev_net m1 = prev_net m" "interval_ms m1 = interval_ms m" by (rule sample_cpu_facts(5,6) [OF s1])+
  obtain rx tx where rates: "net_rates (interval_ms m) (prev_net m) ?net = Some (rx, tx)"
    using net_rates_defined [of "prev_net m" ?net "interval_ms m"] assms(9-12) by auto
  obtain snap m' where r: "sample_once fs now m = Some (snap, m')" "cpu_usage_percent snap = cpu_usage_percent s1" "prev_cpu_times m' = prev_cpu_times m1"
    "memory_total_bytes snap = total_kb (parse_meminfo fs) * 1024" "memory_available_bytes snap = available_kb (parse_meminfo fs) * 1024"
    "prev_net m' = ?net" "network_rx_bytes_sec snap = rx" "network_tx_bytes_sec snap = tx"
    unfolding sample_once_def s1 by (auto simp: net same rates Let_def)
  have exact: "interval_ms m = 500 \<Longrightarrow> unat (net_total ifs 0 - rx_bytes (prev_net m)) < 2 ^ 23 \<Longrightarrow> unat rx = 2 * unat (net_total ifs 0 - rx_bytes (prev_net m))"
    "interval_ms m = 500 \<Longrightarrow> unat (net_total ifs 8 - tx_bytes (prev_net m)) < 2 ^ 23 \<Longrightarrow> unat tx = 2 * unat (net_total ifs 8 - tx_bytes (prev_net m))"
    using net_rates_exact [of "prev_net m" ?net rx tx] rates by simp_all
  show ?thesis
    by (intro exI [of _ snap] exI [of _ m'] conjI impI; (elim conjE)?)
      (simp_all add: r cpu mem rates exact split: option.split)
qed

definition sample_files :: files where
  "sample_files path =
     (if path = ''/proc/stat'' then Some (file_of [stat_line ''cpu'' (zip (replicate 8 0) [150, 0, 20, 1050, 5, 0, 1, 0] @ [(0, 7), (0, 0)]),
        stat_line ''intr'' [(0, 99)]])
      else if path = ''/proc/meminfo'' then Some (file_of (map mem_entry [(''MemTotal'', 7, 4000, True), (''MemFree'', 7, 100, True),
        (''MemAvailable'', 3, 3000, True), (''HugePages_Total'', 6, 0, False)]))
      else if path = ''/proc/net/dev'' then Some (file_of (''h1'' # ''h2'' # map net_entry
        [(4, ''lo'', replicate 16 (3, 8)), (2, ''eth0'', replicate 16 (1, 1000))]))
      else None)"

theorem sample_reads_kernel_files_witness:
  "\<exists>snap m'. sample_once sample_files 5 (new_linux_monitor ''n'' 500 :: unit LinuxMonitor) = Some (snap, m') \<and>
     memory_total_bytes snap = 4096000 \<and> memory_available_bytes snap = 3072000 \<and> prev_net m' = \<lparr>rx_bytes = 1000, tx_bytes = 1000\<rparr> \<and>
     unat (network_rx_bytes_sec snap) = 2000 \<and> unat (network_tx_bytes_sec snap) = 2000"
proof -
  let ?ifs = "[(4, ''lo'', replicate 16 (3, 8)), (2, ''eth0'', replicate 16 (1, 1000))] :: (nat \<times> string \<times> (nat \<times> u64) list) list"
  let ?es = "[(''MemTotal'', 7, 4000, True), (''MemFree'', 7, 100, True), (''MemAvailable'', 3, 3000, True), (''HugePages_Total'', 6, 0, False)]
    :: (string \<times> nat \<times> u64 \<times> bool) list"
  have "net_total ?ifs 0 = 1000" "net_total ?ifs 8 = 1000" by (simp_all add: net_total_def)
  moreover have "list_all interface_ok ?ifs" by (simp add: interface_ok_def nl_def)
  moreover have "nl \<notin> set (stat_line ''intr'' [(0, 99)])" using padded_no_nl by (simp add: stat_line_def nl_def)
  ultimately show ?thesis
    using sample_reads_kernel_files [of sample_files "replicate 8 0" 150 0 20 1050 5 0 1 0 "[(0, 7), (0, 0)]" "[stat_line ''intr'' [(0, 99)]]" ?es
        "''h1''" "''h2''" ?ifs "new_linux_monitor ''n'' 500 :: unit LinuxMonitor" 5]
    by (simp add: sample_files_def nl_def new_linux_monitor_def) blast
qed

text \<open>
  Two kinds of input for which a sample is undefined. A line of \<^verbatim>\<open>/proc/net/dev\<close> with fewer than nine
  counters leaves the last one unset; and an interface that disappears makes the traffic sum go
  down, the unsigned difference wrap around, and the rate too large for the cast.
\<close>

theorem short_net_line_undefined:
  assumes "name \<noteq> []" "CHR '':'' \<notin> set name" "hd name \<noteq> CHR '' ''" "name \<noteq> ''lo''" "length xs < 9"
  shows "net_line (net_entry (k, name, xs)) acc = None"
proof -
  define ys where "ys = map (Some \<circ> snd) xs @ drop (length xs) (replicate 9 None)"
  have ys: "length ys = 9" "last ys = None" using assms(5) by (simp_all add: ys_def last_append last_drop last_replicate)
  have "extract_all (Some (padded xs)) (replicate 9 None) = ys"
    using extract_prefix [of xs "replicate 9 None"] assms(5) by (simp add: ys_def)
  moreover obtain y0 y1 y2 y3 y4 y5 y6 y7 y8 where "ys = [y0, y1, y2, y3, y4, y5, y6, y7, y8]"
    using ys(1) by (rule nine_elements)
  ultimately show ?thesis unfolding net_line_def net_entry_parts(1,2) [OF assms(1-3)]
    using net_entry_parts(3) [OF assms(1-3)] assms(4) ys(2) by (auto split: option.split)
qed

theorem lost_interface_undefined:
  assumes "rx_bytes c < rx_bytes p" "unat (rx_bytes p - rx_bytes c) \<le> 2 ^ 63"
  shows "net_rates 500 p c = None"
proof -
  define n where "n = unat (rx_bytes c - rx_bytes p)"
  define b where "b = unat (rx_bytes p - rx_bytes c)"
  have "(n + b) mod 2 ^ 64 = unat ((rx_bytes c - rx_bytes p) + (rx_bytes p - rx_bytes c))"
    unfolding n_def b_def unat_word_ariths(1) by simp
  then have "(n + b) mod 2 ^ 64 = 0" by simp
  then obtain k where k: "n + b = 2 ^ 64 * k" by (auto simp: mod_eq_0_iff_dvd elim: dvdE)
  have "0 < b" using assms(1) by (auto simp: b_def unat_gt_0)
  then have "k \<noteq> 0" using k by (cases k) auto
  then have "2 ^ 64 \<le> n + b" unfolding k by (cases k) auto
  then have n: "2 ^ 63 \<le> n" "n < 2 ^ 64"
    using assms(2) unsigned_less [of "rx_bytes c - rx_bytes p"] by (simp_all add: n_def b_def)
  have nq: "2 powi 63 \<le> (of_nat n :: rat)" "(of_nat n :: rat) \<le> 2 ^ 64"
    using n by (metis of_nat_le_iff of_nat_numeral of_nat_power power_int_numeral, metis less_imp_le of_nat_le_iff of_nat_numeral of_nat_power)
  obtain v where v: "rnd (of_nat n) = Fin v" "2 powi 63 \<le> v" "v \<le> 2 * of_nat n"
    using rnd_lower [OF nq(1)] nq(2) by (auto simp: max_finite_def)
  have "2 powi 64 \<le> v / (1 / 2)" using v(2) by simp
  moreover have "2 * (v / (1 / 2)) \<le> max_finite" using v(3) nq(2) by (simp add: max_finite_def)
  ultimately obtain b where b: "rnd (v / (1 / 2)) = Fin b" "2 powi 64 \<le> b"
    using rnd_lower [of 64 "v / (1 / 2)"] by auto
  have "f32_to_u64 (f32_div (f32_of_u64 (rx_bytes c - rx_bytes p)) (Fin (1 / 2))) = None"
    unfolding f32_of_u64_def n_def [symmetric] v(1) using b by (simp add: f32_div_def rat_trunc_def Let_def le_floor_iff)
  then show ?thesis unfolding net_rates_def half_second Let_def by simp
qed

end
