(* ===== verification/Configuration.thy ===== *)
theory Configuration
  imports Threshold_Policy Optimizer_Policy Float32_Bounds
begin

text \<open>
  The configuration: \<^verbatim>\<open>src/core/config.hpp\<close> and \<^verbatim>\<open>src/core/config.cpp\<close>. The file system and the TOML
  library are a parameter: whether a file exists, what parsing it gives, and the accessors of a
  node. A TOML integer is an \<^verbatim>\<open>int64_t\<close> and a TOML float a \<^verbatim>\<open>double\<close>, whose value is exact here.
\<close>

section \<open>The structs and their defaults\<close>

record NodeConfig =
  nc_id :: string
  nc_port :: u16
  nc_discovery_port :: u16

record MonitorConfig =
  sampling_interval_ms :: u32
  mock :: bool

record ExecutorConfig =
  thread_count :: u32
  memory_pool_mb :: u64

record SchedulerConfig =
  policy :: string
  threshold :: ThresholdPolicyConfig
  optimizer :: OptimizerPolicyConfig

record NetworkConfig =
  nw_heartbeat_interval_ms :: u32
  nw_peer_timeout_ms :: u32
  offload_timeout_ms :: u32
  max_message_size_bytes :: u64

record TelemetryConfig =
  log_dir :: string
  max_file_size_mb :: u32
  rotate_count :: u32
  log_level :: string

record Config =
  cf_node :: NodeConfig
  cf_monitor :: MonitorConfig
  cf_executor :: ExecutorConfig
  cf_scheduler :: SchedulerConfig
  cf_network :: NetworkConfig
  cf_telemetry :: TelemetryConfig

definition default_threshold :: ThresholdPolicyConfig where
  "default_threshold = \<lparr>cpu_threshold_percent = Fin 75, memory_threshold_percent = Fin 80\<rparr>"

definition default_optimizer :: OptimizerPolicyConfig where
  "default_optimizer = \<lparr>max_iterations = 100, communication_weight = rnd (3 / 10)\<rparr>"

definition default_config :: Config where
  "default_config = \<lparr>
     cf_node = \<lparr>nc_id = ''node-01'', nc_port = 5201, nc_discovery_port = 5200\<rparr>,
     cf_monitor = \<lparr>sampling_interval_ms = 500, mock = False\<rparr>,
     cf_executor = \<lparr>thread_count = 0, memory_pool_mb = 64\<rparr>,
     cf_scheduler = \<lparr>policy = ''greedy'', threshold = default_threshold, optimizer = default_optimizer\<rparr>,
     cf_network = \<lparr>nw_heartbeat_interval_ms = 2000, nw_peer_timeout_ms = 6000, offload_timeout_ms = 10000,
       max_message_size_bytes = 1048576\<rparr>,
     cf_telemetry = \<lparr>log_dir = ''./logs'', max_file_size_mb = 50, rotate_count = 5, log_level = ''info''\<rparr>\<rparr>"

section \<open>The TOML library\<close>

record 't toml =
  file_exists :: "string \<Rightarrow> bool"
  parse_file :: "string \<Rightarrow> string + 't"
  at_key :: "'t \<Rightarrow> string \<Rightarrow> 't"
  is_table :: "'t \<Rightarrow> bool"
  as_string :: "'t \<Rightarrow> string option"
  as_integer :: "'t \<Rightarrow> int option"
  as_bool :: "'t \<Rightarrow> bool option"
  as_double :: "'t \<Rightarrow> f32 option"

text \<open>\<^verbatim>\<open>value_or\<close> and the casts of the source.\<close>

definition or_default :: "'a option \<Rightarrow> 'a \<Rightarrow> 'a" where
  "or_default v d = (case v of Some x \<Rightarrow> x | None \<Rightarrow> d)"

fun double_to_float :: "f32 \<Rightarrow> f32" where
  "double_to_float (Fin x) = rnd x"
| "double_to_float x = x"

text \<open>The \<^verbatim>\<open>double\<close> nearest to 0.3.\<close>

definition double_03 :: f32 where
  "double_03 = Fin (5404319552844595 / 18014398509481984)"

section \<open>Loading\<close>

definition load_node :: "'t toml \<Rightarrow> 't \<Rightarrow> NodeConfig \<Rightarrow> NodeConfig" where
  "load_node L node c = (if is_table L node then
       \<lparr>nc_id = or_default (as_string L (at_key L node ''id'')) ''node-01'',
        nc_port = word_of_int (or_default (as_integer L (at_key L node ''port'')) 5201),
        nc_discovery_port = word_of_int (or_default (as_integer L (at_key L node ''discovery_port'')) 5200)\<rparr>
     else c)"

definition load_monitor :: "'t toml \<Rightarrow> 't \<Rightarrow> MonitorConfig \<Rightarrow> MonitorConfig" where
  "load_monitor L monitor c = (if is_table L monitor then
       \<lparr>sampling_interval_ms = word_of_int (or_default (as_integer L (at_key L monitor ''sampling_interval_ms'')) 500),
        mock = or_default (as_bool L (at_key L monitor ''mock'')) False\<rparr>
     else c)"

definition load_executor :: "'t toml \<Rightarrow> 't \<Rightarrow> ExecutorConfig \<Rightarrow> ExecutorConfig" where
  "load_executor L executor c = (if is_table L executor then
       \<lparr>thread_count = word_of_int (or_default (as_integer L (at_key L executor ''thread_count'')) 0),
        memory_pool_mb = word_of_int (or_default (as_integer L (at_key L executor ''memory_pool_mb'')) 64)\<rparr>
     else c)"

definition load_threshold :: "'t toml \<Rightarrow> 't \<Rightarrow> ThresholdPolicyConfig \<Rightarrow> ThresholdPolicyConfig" where
  "load_threshold L node c = (if is_table L node then
       \<lparr>cpu_threshold_percent = double_to_float (or_default (as_double L (at_key L node ''cpu_threshold_percent'')) (Fin 75)),
        memory_threshold_percent = double_to_float (or_default (as_double L (at_key L node ''memory_threshold_percent'')) (Fin 80))\<rparr>
     else c)"

definition load_optimizer :: "'t toml \<Rightarrow> 't \<Rightarrow> OptimizerPolicyConfig \<Rightarrow> OptimizerPolicyConfig" where
  "load_optimizer L node c = (if is_table L node then
       \<lparr>max_iterations = word_of_int (or_default (as_integer L (at_key L node ''max_iterations'')) 100),
        communication_weight = double_to_float (or_default (as_double L (at_key L node ''communication_weight'')) double_03)\<rparr>
     else c)"

definition load_scheduler :: "'t toml \<Rightarrow> 't \<Rightarrow> SchedulerConfig \<Rightarrow> SchedulerConfig" where
  "load_scheduler L scheduler c = (if is_table L scheduler then
       \<lparr>policy = or_default (as_string L (at_key L scheduler ''policy'')) ''greedy'',
        threshold = load_threshold L (at_key L scheduler ''threshold'') (threshold c),
        optimizer = load_optimizer L (at_key L scheduler ''optimizer'') (optimizer c)\<rparr>
     else c)"

definition load_network :: "'t toml \<Rightarrow> 't \<Rightarrow> NetworkConfig \<Rightarrow> NetworkConfig" where
  "load_network L network c = (if is_table L network then
       \<lparr>nw_heartbeat_interval_ms = word_of_int (or_default (as_integer L (at_key L network ''heartbeat_interval_ms'')) 2000),
        nw_peer_timeout_ms = word_of_int (or_default (as_integer L (at_key L network ''peer_timeout_ms'')) 6000),
        offload_timeout_ms = word_of_int (or_default (as_integer L (at_key L network ''offload_timeout_ms'')) 10000),
        max_message_size_bytes = word_of_int (or_default (as_integer L (at_key L network ''max_message_size_bytes'')) 1048576)\<rparr>
     else c)"

definition load_telemetry :: "'t toml \<Rightarrow> 't \<Rightarrow> TelemetryConfig \<Rightarrow> TelemetryConfig" where
  "load_telemetry L telemetry c = (if is_table L telemetry then
       \<lparr>log_dir = or_default (as_string L (at_key L telemetry ''log_dir'')) ''./logs'',
        max_file_size_mb = word_of_int (or_default (as_integer L (at_key L telemetry ''max_file_size_mb'')) 50),
        rotate_count = word_of_int (or_default (as_integer L (at_key L telemetry ''rotate_count'')) 5),
        log_level = or_default (as_string L (at_key L telemetry ''log_level'')) ''info''\<rparr>
     else c)"

definition load_config :: "'t toml \<Rightarrow> string \<Rightarrow> (error, Config) result" where
  "load_config L path =
     (if \<not> file_exists L path then Inl (''Configuration file not found: '' @ path)
      else case parse_file L path of
        Inl description \<Rightarrow> Inl (''TOML parse error: '' @ description)
      | Inr tbl \<Rightarrow>
          (let config = default_config
           in Inr \<lparr>cf_node = load_node L (at_key L tbl ''node'') (cf_node config),
                   cf_monitor = load_monitor L (at_key L tbl ''monitor'') (cf_monitor config),
                   cf_executor = load_executor L (at_key L tbl ''executor'') (cf_executor config),
                   cf_scheduler = load_scheduler L (at_key L tbl ''scheduler'') (cf_scheduler config),
                   cf_network = load_network L (at_key L tbl ''network'') (cf_network config),
                   cf_telemetry = load_telemetry L (at_key L tbl ''telemetry'') (cf_telemetry config)\<rparr>))"

section \<open>What a document says\<close>

text \<open>
  A field is described by an entry that holds its value, or by no entry when it has its default; a
  table is described field by field, or left out when all its fields have their defaults.
\<close>

definition says :: "'v option \<Rightarrow> 'v \<Rightarrow> 'v \<Rightarrow> bool" where
  "says entry d v \<longleftrightarrow> entry = Some v \<or> entry = None \<and> v = d"

definition says_word :: "int option \<Rightarrow> 'w::len word \<Rightarrow> 'w word \<Rightarrow> bool" where
  "says_word entry d v \<longleftrightarrow> entry = Some (uint v) \<or> entry = None \<and> v = d"

definition says_float :: "f32 option \<Rightarrow> f32 \<Rightarrow> f32 \<Rightarrow> bool" where
  "says_float entry d v \<longleftrightarrow> entry = Some v \<and> representable v \<or> entry = None \<and> v = d"

definition says_table :: "'t toml \<Rightarrow> 't \<Rightarrow> bool \<Rightarrow> 'c \<Rightarrow> 'c \<Rightarrow> bool" where
  "says_table L node entries d c \<longleftrightarrow> is_table L node \<and> entries \<or> \<not> is_table L node \<and> c = d"

definition says_threshold :: "'t toml \<Rightarrow> 't \<Rightarrow> ThresholdPolicyConfig \<Rightarrow> bool" where
  "says_threshold L node c \<longleftrightarrow> says_table L node
     (says_float (as_double L (at_key L node ''cpu_threshold_percent'')) (Fin 75) (cpu_threshold_percent c) \<and>
      says_float (as_double L (at_key L node ''memory_threshold_percent'')) (Fin 80) (memory_threshold_percent c)) default_threshold c"

definition says_optimizer :: "'t toml \<Rightarrow> 't \<Rightarrow> OptimizerPolicyConfig \<Rightarrow> bool" where
  "says_optimizer L node c \<longleftrightarrow> says_table L node
     (says_word (as_integer L (at_key L node ''max_iterations'')) 100 (max_iterations c) \<and>
      says_float (as_double L (at_key L node ''communication_weight'')) (rnd (3 / 10)) (communication_weight c)) default_optimizer c"

definition says_node :: "'t toml \<Rightarrow> 't \<Rightarrow> NodeConfig \<Rightarrow> bool" where
  "says_node L node c \<longleftrightarrow> says_table L node
     (says (as_string L (at_key L node ''id'')) ''node-01'' (nc_id c) \<and>
      says_word (as_integer L (at_key L node ''port'')) 5201 (nc_port c) \<and>
      says_word (as_integer L (at_key L node ''discovery_port'')) 5200 (nc_discovery_port c)) (cf_node default_config) c"

definition says_monitor :: "'t toml \<Rightarrow> 't \<Rightarrow> MonitorConfig \<Rightarrow> bool" where
  "says_monitor L node c \<longleftrightarrow> says_table L node
     (says_word (as_integer L (at_key L node ''sampling_interval_ms'')) 500 (sampling_interval_ms c) \<and>
      says (as_bool L (at_key L node ''mock'')) False (mock c)) (cf_monitor default_config) c"

definition says_executor :: "'t toml \<Rightarrow> 't \<Rightarrow> ExecutorConfig \<Rightarrow> bool" where
  "says_executor L node c \<longleftrightarrow> says_table L node
     (says_word (as_integer L (at_key L node ''thread_count'')) 0 (thread_count c) \<and>
      says_word (as_integer L (at_key L node ''memory_pool_mb'')) 64 (memory_pool_mb c)) (cf_executor default_config) c"

definition says_scheduler :: "'t toml \<Rightarrow> 't \<Rightarrow> SchedulerConfig \<Rightarrow> bool" where
  "says_scheduler L node c \<longleftrightarrow> says_table L node
     (says (as_string L (at_key L node ''policy'')) ''greedy'' (policy c) \<and>
      says_threshold L (at_key L node ''threshold'') (threshold c) \<and>
      says_optimizer L (at_key L node ''optimizer'') (optimizer c)) (cf_scheduler default_config) c"

definition says_network :: "'t toml \<Rightarrow> 't \<Rightarrow> NetworkConfig \<Rightarrow> bool" where
  "says_network L node c \<longleftrightarrow> says_table L node
     (says_word (as_integer L (at_key L node ''heartbeat_interval_ms'')) 2000 (nw_heartbeat_interval_ms c) \<and>
      says_word (as_integer L (at_key L node ''peer_timeout_ms'')) 6000 (nw_peer_timeout_ms c) \<and>
      says_word (as_integer L (at_key L node ''offload_timeout_ms'')) 10000 (offload_timeout_ms c) \<and>
      says_word (as_integer L (at_key L node ''max_message_size_bytes'')) 1048576 (max_message_size_bytes c)) (cf_network default_config) c"

definition says_telemetry :: "'t toml \<Rightarrow> 't \<Rightarrow> TelemetryConfig \<Rightarrow> bool" where
  "says_telemetry L node c \<longleftrightarrow> says_table L node
     (says (as_string L (at_key L node ''log_dir'')) ''./logs'' (log_dir c) \<and>
      says_word (as_integer L (at_key L node ''max_file_size_mb'')) 50 (max_file_size_mb c) \<and>
      says_word (as_integer L (at_key L node ''rotate_count'')) 5 (rotate_count c) \<and>
      says (as_string L (at_key L node ''log_level'')) ''info'' (log_level c)) (cf_telemetry default_config) c"

definition document_of :: "'t toml \<Rightarrow> 't \<Rightarrow> Config \<Rightarrow> bool" where
  "document_of L tbl c \<longleftrightarrow>
     says_node L (at_key L tbl ''node'') (cf_node c) \<and>
     says_monitor L (at_key L tbl ''monitor'') (cf_monitor c) \<and>
     says_executor L (at_key L tbl ''executor'') (cf_executor c) \<and>
     says_scheduler L (at_key L tbl ''scheduler'') (cf_scheduler c) \<and>
     says_network L (at_key L tbl ''network'') (cf_network c) \<and>
     says_telemetry L (at_key L tbl ''telemetry'') (cf_telemetry c)"

lemma load_string: "says entry d v \<Longrightarrow> or_default entry d = v"
  by (auto simp: says_def or_default_def)

lemma load_word: "says_word entry d v \<Longrightarrow> word_of_int d' = d \<Longrightarrow> word_of_int (or_default entry d') = v"
  by (auto simp: says_word_def or_default_def)

lemma double_to_float_representable: "representable v \<Longrightarrow> double_to_float v = v"
  using rnd_representable by (cases v) auto

lemma load_float: "says_float entry d v \<Longrightarrow> double_to_float d' = d \<Longrightarrow> double_to_float (or_default entry d') = v"
  by (auto simp: says_float_def or_default_def double_to_float_representable)

lemma representable_75 [simp]: "double_to_float (Fin 75) = Fin 75" "double_to_float (Fin 80) = Fin 80"
  using rnd_of_nat [of 75] rnd_of_nat [of 80] by simp_all

text \<open>Rounding the double 0.3 once more gives the float literal 0.3.\<close>

lemma weight_default [simp]: "double_to_float double_03 = rnd (3 / 10)"
  unfolding double_03_def by code_simp

lemma load_numeral: "says_word entry (numeral k) v \<Longrightarrow> word_of_int (or_default entry (numeral k)) = v"
  by (rule load_word) simp_all

lemma load_zero: "says_word entry 0 v \<Longrightarrow> word_of_int (or_default entry 0) = v"
  by (rule load_word) simp_all

lemmas load_entry = load_string load_numeral load_zero load_float [OF _ representable_75(1)]
  load_float [OF _ representable_75(2)] load_float [OF _ weight_default]

lemma load_threshold_says: "says_threshold L node c \<Longrightarrow> load_threshold L node default_threshold = c"
  by (cases c) (auto simp: says_threshold_def says_table_def load_threshold_def dest!: load_entry)

lemma load_optimizer_says: "says_optimizer L node c \<Longrightarrow> load_optimizer L node default_optimizer = c"
  by (cases c) (auto simp: says_optimizer_def says_table_def load_optimizer_def dest!: load_entry)

lemma default_scheduler [simp]: "threshold (cf_scheduler default_config) = default_threshold"
    "optimizer (cf_scheduler default_config) = default_optimizer"
  by (simp_all add: default_config_def)

lemma load_node_says: "says_node L node c \<Longrightarrow> load_node L node (cf_node default_config) = c"
  by (cases c) (auto simp: says_node_def says_table_def load_node_def dest!: load_entry)

lemma load_monitor_says: "says_monitor L node c \<Longrightarrow> load_monitor L node (cf_monitor default_config) = c"
  by (cases c) (auto simp: says_monitor_def says_table_def load_monitor_def dest!: load_entry)

lemma load_executor_says: "says_executor L node c \<Longrightarrow> load_executor L node (cf_executor default_config) = c"
  by (cases c) (auto simp: says_executor_def says_table_def load_executor_def dest!: load_entry)

lemma load_scheduler_says: "says_scheduler L node c \<Longrightarrow> load_scheduler L node (cf_scheduler default_config) = c"
  by (cases c) (auto simp: says_scheduler_def says_table_def load_scheduler_def dest!: load_entry load_threshold_says load_optimizer_says)

lemma load_network_says: "says_network L node c \<Longrightarrow> load_network L node (cf_network default_config) = c"
  by (cases c) (auto simp: says_network_def says_table_def load_network_def dest!: load_entry)

lemma load_telemetry_says: "says_telemetry L node c \<Longrightarrow> load_telemetry L node (cf_telemetry default_config) = c"
  by (cases c) (auto simp: says_telemetry_def says_table_def load_telemetry_def dest!: load_entry)

section \<open>Properties\<close>

text \<open>
  C38. A configuration survives being written to a file, and a partial file is a valid one: when the
  document gives every field its value or leaves out fields and tables at their defaults, loading it
  returns exactly that configuration.
\<close>

theorem config_roundtrip:
  assumes "file_exists L path" "parse_file L path = Inr tbl" "document_of L tbl c"
  shows "load_config L path = Inr c"
  using assms by (simp add: load_config_def document_of_def Let_def load_node_says load_monitor_says load_executor_says
      load_scheduler_says load_network_says load_telemetry_says)

text \<open>A file that is absent or does not parse is reported, and nothing else is.\<close>

theorem config_errors:
  "(\<exists>e. load_config L path = Inl e) \<longleftrightarrow> \<not> file_exists L path \<or> (\<exists>e. parse_file L path = Inl e)"
  by (auto simp: load_config_def Let_def split: sum.splits)

text \<open>Integers are cast without a range check: a port is taken modulo \<open>2\<^sup>16\<close>.\<close>

theorem port_wraps:
  assumes "file_exists L path" "parse_file L path = Inr tbl" "is_table L (at_key L tbl ''node'')"
    and "as_integer L (at_key L (at_key L tbl ''node'') ''port'') = Some p"
  shows "\<exists>c. load_config L path = Inr c \<and> uint (nc_port (cf_node c)) = p mod 2 ^ 16"
  using assms by (simp add: load_config_def load_node_def or_default_def uint_word_of_int)

section \<open>An instance\<close>

text \<open>Documents as trees.\<close>

datatype node = Absent | TStr string | TInt int | TBool bool | TFloat f32 | Table "(string \<times> node) list"

definition tree_toml :: "node \<Rightarrow> node toml" where
  "tree_toml t = \<lparr>file_exists = (\<lambda>p. True), parse_file = (\<lambda>p. Inr t),
     at_key = (\<lambda>n k. case n of Table es \<Rightarrow> or_default (map_of es k) Absent | _ \<Rightarrow> Absent),
     is_table = (\<lambda>n. case n of Table _ \<Rightarrow> True | _ \<Rightarrow> False),
     as_string = (\<lambda>n. case n of TStr s \<Rightarrow> Some s | _ \<Rightarrow> None),
     as_integer = (\<lambda>n. case n of TInt i \<Rightarrow> Some i | _ \<Rightarrow> None),
     as_bool = (\<lambda>n. case n of TBool b \<Rightarrow> Some b | _ \<Rightarrow> None),
     as_double = (\<lambda>n. case n of TFloat x \<Rightarrow> Some x | _ \<Rightarrow> None)\<rparr>"

definition sample_document :: node where
  "sample_document = Table [(''node'', Table [(''id'', TStr ''pi''), (''port'', TInt 7000)]),
     (''scheduler'', Table [(''policy'', TStr ''optimizer''), (''optimizer'', Table [(''max_iterations'', TInt 20)])])]"

definition sample_config :: Config where
  "sample_config = default_config\<lparr>cf_node := \<lparr>nc_id = ''pi'', nc_port = 7000, nc_discovery_port = 5200\<rparr>,
     cf_scheduler := \<lparr>policy = ''optimizer'', threshold = default_threshold,
       optimizer = \<lparr>max_iterations = 20, communication_weight = rnd (3 / 10)\<rparr>\<rparr>\<rparr>"

theorem config_roundtrip_witness:
  "load_config (tree_toml sample_document) ''edge.toml'' = Inr sample_config"
proof (rule config_roundtrip)
  show "document_of (tree_toml sample_document) sample_document sample_config"
    by (simp add: document_of_def sample_document_def sample_config_def tree_toml_def or_default_def
        says_def says_word_def says_float_def says_table_def says_threshold_def says_optimizer_def
        says_node_def says_monitor_def says_executor_def says_scheduler_def says_network_def says_telemetry_def default_config_def)
qed (simp_all add: tree_toml_def)

end
