(* ===== verification/Orchestrator.thy ===== *)
theory Orchestrator
  imports Greedy_Policy Threshold_Policy Optimizer_Policy Task_Runner
    Thread_Pool Peer_Discovery Async_Transport Offload_Codec
    Telemetry Resource_Monitor Configuration
begin

text \<open>
  The orchestrator (\<^verbatim>\<open>src/orchestrator/orchestrator.hpp\<close>), which wires the other components together. The
  monitor type of the class template is a record of its operations. The jobs of a submission run on
  the pool; every access of a job to shared state is one step, and the steps of the jobs interleave
  with each other and with resets of the arena by other requests.
\<close>

section \<open>State\<close>

record 'm MonitorOps =
  mo_new :: "NodeId \<Rightarrow> u32 \<Rightarrow> 'm"
  mo_start :: "'m \<Rightarrow> 'm option"
  mo_stop :: "'m \<Rightarrow> 'm"
  mo_read :: "Timestamp \<Rightarrow> 'm \<Rightarrow> (error, ResourceSnapshot) result \<times> 'm"

text \<open>What the discovery callbacks act on.\<close>

record World =
  w_cluster :: ClusterViewManager
  w_logger :: Logger
  w_metrics :: MetricsCollector

text \<open>\<open>o_readers\<close> counts the holders of the shared lock on the arena.\<close>

record 'm Orchestrator =
  o_config :: Config
  o_monitor :: 'm
  o_workers :: nat
  o_arena :: MemoryPool
  o_readers :: nat
  o_world :: World
  o_discovery :: "World PeerDiscovery"
  o_server :: AsyncTransport
  o_updating :: bool
  o_running :: bool

definition w_debug :: "int \<Rightarrow> string \<Rightarrow> World \<Rightarrow> World" where
  "w_debug now msg w = w\<lparr>w_logger := log_debug now msg (w_logger w)\<rparr>"

definition w_info :: "int \<Rightarrow> string \<Rightarrow> World \<Rightarrow> World" where
  "w_info now msg w = w\<lparr>w_logger := log_info now msg (w_logger w)\<rparr>"

definition w_warn :: "int \<Rightarrow> string \<Rightarrow> World \<Rightarrow> World" where
  "w_warn now msg w = w\<lparr>w_logger := log_warn now msg (w_logger w)\<rparr>"

definition w_record :: "(MetricsCollector \<Rightarrow> MetricsCollector) \<Rightarrow> World \<Rightarrow> World" where
  "w_record f w = w\<lparr>w_metrics := f (w_metrics w)\<rparr>"

section \<open>Lifecycle\<close>

text \<open>
  The constructor: \<open>hardware\<close> is \<^verbatim>\<open>hardware_concurrency()\<close>, \<open>efd\<close> and \<open>wfd\<close> the descriptors of the reactor.
\<close>

definition new_orchestrator ::
  "'m MonitorOps \<Rightarrow> Config \<Rightarrow> ILogSink \<Rightarrow> LogLevel \<Rightarrow> ILogSink option \<Rightarrow> nat \<Rightarrow> int \<Rightarrow> int \<Rightarrow> 'm Orchestrator" where
  "new_orchestrator ops cfg sink level metrics_sink hardware efd wfd =
     \<lparr>o_config = cfg,
      o_monitor = mo_new ops (nc_id (cf_node cfg)) (sampling_interval_ms (cf_monitor cfg)),
      o_workers = pool_size hardware (if thread_count (cf_executor cfg) = 0 then hardware else unat (thread_count (cf_executor cfg))),
      o_arena = new_pool (memory_pool_mb (cf_executor cfg) * 1024 * 1024), o_readers = 0,
      o_world = \<lparr>w_cluster = empty_manager, w_logger = \<lparr>lg_sink = sink, min_level = level\<rparr>,
        w_metrics = \<lparr>mc_sink = (case metrics_sink of None \<Rightarrow> NullSink | Some s \<Rightarrow> s)\<rparr>\<rparr>,
      o_discovery = new_discovery (nc_id (cf_node cfg)) (nc_port (cf_node cfg)) (nc_discovery_port (cf_node cfg))
        (nw_heartbeat_interval_ms (cf_network cfg)) (nw_peer_timeout_ms (cf_network cfg)),
      o_server = new_async_transport efd wfd, o_updating = False, o_running = False\<rparr>"

text \<open>The two callbacks; \<open>clock\<close> gives the wall clock when one runs.\<close>

definition peer_discovered :: "(World \<Rightarrow> int) \<Rightarrow> PeerInfo \<Rightarrow> World \<Rightarrow> World" where
  "peer_discovered clock peer w =
     w_record (record_peer_event (p_node_id peer) ''discovered'')
       (w_info (clock w) (''Peer discovered: '' @ p_node_id peer @ '' at '' @ p_address peer @ '':'' @ dec_string (unat (p_tcp_port peer)))
         (w\<lparr>w_cluster := update_peer peer (w_cluster w)\<rparr>))"

definition peer_lost :: "(World \<Rightarrow> int) \<Rightarrow> PeerInfo \<Rightarrow> World \<Rightarrow> World" where
  "peer_lost clock peer w =
     w_record (record_peer_event (p_node_id peer) ''lost'')
       (w_warn (clock w) (''Peer lost: '' @ p_node_id peer)
         (w\<lparr>w_cluster := remove_peer (p_node_id peer) (w_cluster w)\<rparr>))"

definition orch_start ::
  "'m MonitorOps \<Rightarrow> (World \<Rightarrow> int) \<Rightarrow> ListenAnswers \<Rightarrow> DiscoverySockets \<Rightarrow> 'm Orchestrator
     \<Rightarrow> ((error, unit) result \<times> 'm Orchestrator) option" where
  "orch_start ops clock la ds s =
     (if o_running s then Some (Inl ''Already running'', s)
      else let node = cf_node (o_config s);
               say = (\<lambda>msg w. w_info (clock w) msg w);
               w1 = say (''Orchestrator starting: node='' @ nc_id node @ '' port='' @ dec_string (unat (nc_port node))) (o_world s)
        in case mo_start ops (o_monitor s) of
             None \<Rightarrow> None
           | Some m \<Rightarrow>
               (let d1 = on_peer_lost (peer_lost clock) (on_peer_discovered (peer_discovered clock) (o_discovery s));
                    (listened, srv) = async_listen la (o_server s);
                    (serving, w2) = (case listened of
                        Inr _ \<Rightarrow> (async_serve srv, say (''Offload server listening on port '' @ dec_string (unat (nc_port node))) w1)
                      | Inl e \<Rightarrow> (Some srv, w_warn (clock w1) (''Could not start offload server: '' @ e) w1))
                in case serving of
                     None \<Rightarrow> None
                   | Some srv' \<Rightarrow> Some (Inr (), s\<lparr>o_running := True, o_monitor := m, o_discovery := fst (discovery_start ds d1),
                       o_server := srv', o_updating := True, o_world := say ''Orchestrator started successfully'' w2\<rparr>)))"

definition orch_stop ::
  "'m MonitorOps \<Rightarrow> (World \<Rightarrow> int) \<Rightarrow> (int list \<Rightarrow> int list) \<Rightarrow> StopAnswers \<Rightarrow> 'm Orchestrator \<Rightarrow> 'm Orchestrator option" where
  "orch_stop ops clock ord sa s =
     (if \<not> o_running s then Some s
      else let w1 = w_info (clock (o_world s)) ''Orchestrator shutting down...'' (o_world s)
        in case async_stop_serving ord sa (o_server s) of
             None \<Rightarrow> None
           | Some srv \<Rightarrow> Some (s\<lparr>o_running := False, o_updating := False, o_discovery := fst (discovery_stop (o_discovery s)),
               o_server := srv, o_monitor := mo_stop ops (o_monitor s), o_world := w_info (clock w1) ''Orchestrator stopped'' w1\<rparr>))"

text \<open>One pass of \<^verbatim>\<open>resource_update_loop\<close>.\<close>

definition resource_update_round :: "'m MonitorOps \<Rightarrow> Timestamp \<Rightarrow> 'm Orchestrator \<Rightarrow> 'm Orchestrator" where
  "resource_update_round ops now s = (case mo_read ops now (o_monitor s) of
     (Inr snap, m) \<Rightarrow> s\<lparr>o_monitor := m, o_discovery := update_local_resources snap (o_discovery s)\<rparr>
   | (Inl _, m) \<Rightarrow> s\<lparr>o_monitor := m\<rparr>)"

section \<open>Policies, tasks and the arena\<close>

definition create_policy :: "Config \<Rightarrow> SchedEnv \<Rightarrow> WorkloadDAG \<Rightarrow> ResourceSnapshot \<Rightarrow> ClusterView \<Rightarrow> SchedulingPlan option" where
  "create_policy cfg e d l c =
     (if policy (cf_scheduler cfg) = ''threshold'' then Some (threshold_schedule (threshold (cf_scheduler cfg)) e d l c)
      else if policy (cf_scheduler cfg) = ''optimizer'' then optimizer_schedule (optimizer (cf_scheduler cfg)) e d l c
      else Some (greedy_schedule e d l c))"

text \<open>
  \<open>run_task\<close> in its two halves, entering the arena under the shared lock and the execution. No caller
  passes a token that can be stopped.
\<close>

definition no_stop :: "RunEnv \<Rightarrow> RunEnv" where
  "no_stop env = env\<lparr>stop_requested := (\<lambda>_. False)\<rparr>"

definition run_task :: "RunEnv \<Rightarrow> TaskId \<Rightarrow> TaskProfile \<Rightarrow> 'm Orchestrator \<Rightarrow> (ExecutionResult \<times> 'm Orchestrator) option" where
  "run_task env task_id profile s =
     map_option (\<lambda>(r, p). (r, s\<lparr>o_arena := p\<rparr>)) (execute env task_id profile (o_arena s))"

definition enter_arena :: "TaskProfile \<Rightarrow> 'm Orchestrator \<Rightarrow> u64 option \<times> 'm Orchestrator" where
  "enter_arena profile s = (case allocate (memory_bytes profile) max_align (o_arena s) of
     (mem, p) \<Rightarrow> (mem, s\<lparr>o_arena := p, o_readers := Suc (o_readers s)\<rparr>))"

definition task_result :: "RunEnv \<Rightarrow> TaskId \<Rightarrow> TaskProfile \<Rightarrow> u64 option \<Rightarrow> ExecutionResult option" where
  "task_result env task_id profile mem = (case mem of
     None \<Rightarrow> Some \<lparr>er_task_id = task_id, final_state = Failed, actual_duration = 0, peak_memory_bytes = 0,
               error_message = Some ''Out of memory in pool''\<rparr>
   | Some _ \<Rightarrow> map_option (\<lambda>(k, q). \<lparr>er_task_id = task_id,
         final_state = (if stop_requested env q then Failed else Completed),
         actual_duration = duration_cast_us (steady_now env k - steady_now env 0), peak_memory_bytes = memory_bytes profile,
         error_message = (if stop_requested env (Suc q) then Some ''Cancelled via stop token'' else None)\<rparr>)
       (simulate_compute env (compute_cost profile) 1 0))"

definition leave_arena :: "'m Orchestrator \<Rightarrow> 'm Orchestrator" where
  "leave_arena s = s\<lparr>o_readers := o_readers s - 1\<rparr>"

text \<open>The exclusive lock is refused while a task holds the shared one, and may be refused otherwise.\<close>

definition try_reset_arena :: "bool \<Rightarrow> 'm Orchestrator \<Rightarrow> 'm Orchestrator" where
  "try_reset_arena lucky s = (if lucky \<and> o_readers s = 0 then s\<lparr>o_arena := pool_reset (o_arena s)\<rparr> else s)"

section \<open>The offload client\<close>

record RemoteOutcome =
  transport_ok :: bool
  task_ok :: bool
  ro_duration :: Duration
  ro_error :: string

text \<open>The kernel's answers, and the bytes that come back for the bytes that went out.\<close>

record RemoteEnv =
  rm_connect :: ConnectAnswers
  rm_sends :: "send_answer list"
  rm_recvs :: "recv_answer list"
  rm_peer :: "u8 list \<Rightarrow> u8 list"

definition broken :: "string \<Rightarrow> RemoteOutcome" where
  "broken e = \<lparr>transport_ok = False, task_ok = False, ro_duration = 0, ro_error = e\<rparr>"

definition offload_to_peer ::
  "protobuf \<Rightarrow> RemoteEnv \<Rightarrow> ClusterViewManager \<Rightarrow> TaskId \<Rightarrow> TaskProfile \<Rightarrow> NodeId \<Rightarrow> (RemoteOutcome \<times> TcpTransport) option" where
  "offload_to_peer pb env c task_id profile target =
     (let unknown = Some (broken (''no known endpoint for '' @ target), new_transport)
      in case peer_info target c of
        None \<Rightarrow> unknown
      | Some peer \<Rightarrow>
          (if p_address peer = [] \<or> p_tcp_port peer = 0 then unknown
           else case transport_connect (rm_connect env) (p_address peer) new_transport of
             (Inl e, t) \<Rightarrow> Some (broken (''connect: '' @ e), transport_destroy t)
           | (Inr _, t) \<Rightarrow>
               (case transport_send (rm_sends env) (encode_request pb task_id profile []) t of
                  None \<Rightarrow> None
                | Some (Inl e, _, _) \<Rightarrow> Some (broken (''send: '' @ e), transport_destroy t)
                | Some (Inr _, wire, _) \<Rightarrow>
                    (case transport_receive (rm_recvs env) (rm_peer env wire) t of
                       None \<Rightarrow> None
                     | Some (Inl e, _, _) \<Rightarrow> Some (broken (''receive: '' @ e), transport_destroy t)
                     | Some (Inr reply, _, _) \<Rightarrow>
                         (case decode_response pb reply (False, 0, 0, [], []) of
                            (False, _) \<Rightarrow> Some (broken ''malformed response'', transport_destroy t)
                          | (True, success, duration, _, error_msg, _) \<Rightarrow>
                              Some (\<lparr>transport_ok = True, task_ok = success, ro_duration = duration, ro_error = error_msg\<rparr>,
                                transport_destroy t))))))"

section \<open>Offload requests\<close>

definition default_profile :: TaskProfile where
  "default_profile = \<lparr>compute_cost = 0, memory_bytes = 0, input_bytes = 0, output_bytes = 0\<rparr>"

definition handle_offload_request ::
  "protobuf \<Rightarrow> int \<Rightarrow> RunEnv \<Rightarrow> bool \<Rightarrow> u8 list \<Rightarrow> 'm Orchestrator \<Rightarrow> (u8 list \<times> 'm Orchestrator) option" where
  "handle_offload_request pb now env lucky req s =
     (case decode_request pb req ([], default_profile, []) of
        (False, _) \<Rightarrow> Some (encode_response pb (False, 0, 0, ''Failed to decode request'', []), s)
      | (True, task_id, profile, input) \<Rightarrow>
          (let s1 = s\<lparr>o_world := w_debug now (''Executing offloaded task: '' @ task_id) (o_world s)\<rparr>
           in case run_task (no_stop env) task_id profile s1 of
                None \<Rightarrow> None
              | Some (r, s2) \<Rightarrow>
                  Some (encode_response pb (final_state r = Completed, actual_duration r, peak_memory_bytes r,
                          (case error_message r of None \<Rightarrow> [] | Some e \<Rightarrow> e), []),
                    try_reset_arena lucky (s2\<lparr>o_world := w_record (record_task_event task_id (final_state r) (actual_duration r)) (o_world s2)\<rparr>))))"

section \<open>Workload submissions\<close>

text \<open>
  Where a job is: in the queue of the pool, taken by a worker, with the outcome of its round trip,
  about to run locally after a broken one, in the arena with the block it got, with the result of its
  execution, about to count its outcome, or finished. \<open>j_fell_back\<close> is history.
\<close>

datatype job_pc = Queued | Started | Answered RemoteOutcome | FellBack | InArena "u64 option" | Ran ExecutionResult | Counting bool | JobDone bool

record Job =
  j_task :: TaskId
  j_profile :: TaskProfile
  j_target :: "NodeId option"
  j_pc :: job_pc
  j_fell_back :: bool

text \<open>
  A submission under way: the decisions the loop has not reached, the jobs given to the pool, the
  counters, and the blocks that tasks of other requests hold in the arena.
\<close>

record 'm Submitted =
  sb_orch :: "'m Orchestrator"
  sb_todo :: "SchedulingDecision list"
  sb_jobs :: "Job list"
  sb_local :: u64
  sb_offloaded :: u64
  sb_completed :: u64
  sb_failed :: u64
  sb_fallbacks :: u64
  sb_others :: "(u64 \<times> u64) option list"

text \<open>The body of the loop over the decisions of the plan, its next round, and where it begins.\<close>

definition submit_decision :: "WorkloadDAG \<Rightarrow> SchedulingDecision \<Rightarrow> 'm Submitted \<Rightarrow> 'm Submitted" where
  "submit_decision d x s = (case get_task d (d_task_id x) of
     None \<Rightarrow> s
   | Some t \<Rightarrow>
       (let s1 = s\<lparr>sb_orch := (sb_orch s)\<lparr>o_world := w_record (record_scheduling_decision x) (o_world (sb_orch s))\<rparr>\<rparr>;
            job = (\<lambda>target. \<lparr>j_task = d_task_id x, j_profile = t_profile t, j_target = target, j_pc = Queued, j_fell_back = False\<rparr>)
        in if assigned_node x = nc_id (cf_node (o_config (sb_orch s)))
           then s1\<lparr>sb_local := sb_local s + 1, sb_jobs := sb_jobs s @ [job None]\<rparr>
           else s1\<lparr>sb_offloaded := sb_offloaded s + 1, sb_jobs := sb_jobs s @ [job (Some (assigned_node x))]\<rparr>))"

definition submit_next :: "WorkloadDAG \<Rightarrow> 'm Submitted \<Rightarrow> 'm Submitted option" where
  "submit_next d s = (case sb_todo s of [] \<Rightarrow> None | x # xs \<Rightarrow> Some (submit_decision d x (s\<lparr>sb_todo := xs\<rparr>)))"

definition submit_plan :: "SchedulingPlan \<Rightarrow> 'm Orchestrator \<Rightarrow> 'm Submitted" where
  "submit_plan p s = \<lparr>sb_orch = s, sb_todo = decisions p, sb_jobs = [], sb_local = 0, sb_offloaded = 0, sb_completed = 0,
     sb_failed = 0, sb_fallbacks = 0, sb_others = []\<rparr>"

text \<open>What a step of a job takes from outside: the wall clock, its run and its round trip.\<close>

record JobEnv =
  je_now :: int
  je_run :: RunEnv
  je_remote :: RemoteEnv

definition set_job :: "nat \<Rightarrow> job_pc \<Rightarrow> 'm Submitted \<Rightarrow> 'm Submitted" where
  "set_job i pc s = s\<lparr>sb_jobs := (sb_jobs s)[i := (sb_jobs s ! i)\<lparr>j_pc := pc\<rparr>]\<rparr>"

definition in_world :: "(World \<Rightarrow> World) \<Rightarrow> 'm Submitted \<Rightarrow> 'm Submitted" where
  "in_world f s = s\<lparr>sb_orch := (sb_orch s)\<lparr>o_world := f (o_world (sb_orch s))\<rparr>\<rparr>"

definition enter_step :: "nat \<Rightarrow> Job \<Rightarrow> 'm Submitted \<Rightarrow> 'm Submitted" where
  "enter_step i j s = (case enter_arena (j_profile j) (sb_orch s) of (mem, os) \<Rightarrow> set_job i (InArena mem) (s\<lparr>sb_orch := os\<rparr>))"

text \<open>The job after its round trip: count the answer of the peer, or fall back to local execution.\<close>

definition answered_step :: "int \<Rightarrow> nat \<Rightarrow> Job \<Rightarrow> RemoteOutcome \<Rightarrow> 'm Submitted \<Rightarrow> 'm Submitted" where
  \<open>answered_step now i j out s =
     (let target = (case j_target j of None \<Rightarrow> [] | Some t \<Rightarrow> t)
      in if transport_ok out then
           let s1 = in_world (w_record (record_task_event (j_task j) (if task_ok out then Completed else Failed) (ro_duration out))) s
           in set_job i (Counting (task_ok out))
                (if task_ok out then s1
                 else in_world (w_warn now (''Peer '' @ target @ '' failed task '' @ j_task j @ '': '' @ ro_error out)) s1)
         else let s1 = in_world (w_record (record_custom ''offload_fallback''
                         (''{"task":"'' @ j_task j @ ''","target":"'' @ target @ ''"}'')))
                       (in_world (w_warn now (''Offload of '' @ j_task j @ '' to '' @ target @ '' failed ('' @ ro_error out @ ''); executing locally'')) s)
           in s1\<lparr>sb_fallbacks := sb_fallbacks s + 1,
                 sb_jobs := (sb_jobs s)[i := (sb_jobs s ! i)\<lparr>j_pc := FellBack, j_fell_back := True\<rparr>]\<rparr>)\<close>

definition count_step :: "nat \<Rightarrow> bool \<Rightarrow> 'm Submitted \<Rightarrow> 'm Submitted" where
  "count_step i ok s = set_job i (JobDone ok)
     (if ok then s\<lparr>sb_completed := sb_completed s + 1\<rparr> else s\<lparr>sb_failed := sb_failed s + 1\<rparr>)"

text \<open>A worker of the pool takes the job, and the steps of the job in the worker.\<close>

definition start_job :: "nat \<Rightarrow> 'm Submitted \<Rightarrow> 'm Submitted option" where
  "start_job i s = (if i < length (sb_jobs s) \<and> j_pc (sb_jobs s ! i) = Queued then Some (set_job i Started s) else None)"

definition job_step :: "protobuf \<Rightarrow> nat \<Rightarrow> JobEnv \<Rightarrow> 'm Submitted \<Rightarrow> 'm Submitted option" where
  "job_step pb i env s =
     (if i < length (sb_jobs s) then
        let j = sb_jobs s ! i in
        (case j_pc j of
           Queued \<Rightarrow> None
         | Started \<Rightarrow> (case j_target j of
               None \<Rightarrow> Some (enter_step i j s)
             | Some target \<Rightarrow> map_option (\<lambda>(out, _). set_job i (Answered out) s)
                 (offload_to_peer pb (je_remote env) (w_cluster (o_world (sb_orch s))) (j_task j) (j_profile j) target))
         | Answered out \<Rightarrow> Some (answered_step (je_now env) i j out s)
         | FellBack \<Rightarrow> Some (enter_step i j s)
         | InArena mem \<Rightarrow> map_option (\<lambda>r. set_job i (Ran r) (s\<lparr>sb_orch := leave_arena (sb_orch s)\<rparr>))
             (task_result (no_stop (je_run env)) (j_task j) (j_profile j) mem)
         | Ran r \<Rightarrow> Some (set_job i (Counting (final_state r = Completed))
             (in_world (w_record (record_task_event (j_task j) (final_state r) (actual_duration r))) s))
         | Counting ok \<Rightarrow> Some (count_step i ok s)
         | JobDone _ \<Rightarrow> None)
      else None)"

text \<open>A task of another request enters the arena and leaves it.\<close>

definition other_enter :: "TaskProfile \<Rightarrow> 'm Submitted \<Rightarrow> 'm Submitted" where
  "other_enter profile s = (case enter_arena profile (sb_orch s) of
     (mem, os) \<Rightarrow> s\<lparr>sb_orch := os, sb_others := map_option (\<lambda>a. (a, memory_bytes profile)) mem # sb_others s\<rparr>)"

definition other_leave :: "nat \<Rightarrow> 'm Submitted \<Rightarrow> 'm Submitted option" where
  "other_leave k s = (if k < length (sb_others s)
     then Some (s\<lparr>sb_orch := leave_arena (sb_orch s), sb_others := take k (sb_others s) @ drop (Suc k) (sb_others s)\<rparr>) else None)"

text \<open>
  What may happen next: a round of the loop, a worker taking a job, a step of a job, and the tasks of
  other requests, which enter the arena, leave it, and try to reset it when they are finished. Which
  job a worker takes, and when, is up to the run.
\<close>

datatype sub_action = SubmitNext | StartJob nat | JobStep nat JobEnv | OtherEnter TaskProfile | OtherLeave nat | OtherReset bool

fun sub_step :: "protobuf \<Rightarrow> WorkloadDAG \<Rightarrow> sub_action \<Rightarrow> 'm Submitted \<Rightarrow> 'm Submitted option" where
  "sub_step pb d SubmitNext s = submit_next d s"
| "sub_step pb d (StartJob i) s = start_job i s"
| "sub_step pb d (JobStep i env) s = job_step pb i env s"
| "sub_step pb d (OtherEnter profile) s = Some (other_enter profile s)"
| "sub_step pb d (OtherLeave k) s = other_leave k s"
| "sub_step pb d (OtherReset lucky) s = Some (s\<lparr>sb_orch := try_reset_arena lucky (sb_orch s)\<rparr>)"

fun run_jobs :: "protobuf \<Rightarrow> WorkloadDAG \<Rightarrow> sub_action list \<Rightarrow> 'm Submitted \<Rightarrow> 'm Submitted option" where
  "run_jobs pb d [] s = Some s"
| "run_jobs pb d (a # as) s = (case sub_step pb d a s of None \<Rightarrow> None | Some s' \<Rightarrow> run_jobs pb d as s')"

text \<open>
  The wait after the loop and the result: \<open>None\<close> while the loop is not through, and while jobs are
  missing and the deadline has not passed. The jobs that
  are not finished at the deadline keep running in the source; the result does not see them.
\<close>

definition finish_submission :: "bool \<Rightarrow> bool \<Rightarrow> Duration \<Rightarrow> SchedulingPlan \<Rightarrow> 'm Submitted \<Rightarrow> (OrchestrationResult \<times> 'm Orchestrator) option" where
  \<open>finish_submission deadline_passed lucky elapsed p s =
     (if sb_todo s \<noteq> [] \<or> sb_completed s + sb_failed s < of_nat (length (decisions p)) \<and> \<not> deadline_passed then None
      else let r = \<lparr>plan = p, local_tasks = sb_local s, offloaded_tasks = sb_offloaded s, completed_tasks = sb_completed s,
                 failed_tasks = sb_failed s, offload_fallbacks = sb_fallbacks s, total_duration = elapsed\<rparr>;
               s1 = try_reset_arena lucky (sb_orch s)
        in Some (r, s1\<lparr>o_world := w_record (record_custom ''orchestration_complete''
             (''{"local":'' @ dec_string (unat (local_tasks r)) @ '',"offloaded":'' @ dec_string (unat (offloaded_tasks r)) @
              '',"completed":'' @ dec_string (unat (completed_tasks r)) @ '',"failed":'' @ dec_string (unat (failed_tasks r)) @
              '',"duration_us":'' @ int_string elapsed @ ''}'')) (o_world s1)\<rparr>))\<close>

record SubmitEnv =
  sv_now :: Timestamp
  sv_sched :: SchedEnv
  sv_peer_order :: "NodeId list \<Rightarrow> NodeId list"
  sv_actions :: "sub_action list"
  sv_deadline :: bool
  sv_lucky :: bool
  sv_elapsed :: Duration

definition submit_workload ::
  "'m MonitorOps \<Rightarrow> protobuf \<Rightarrow> SubmitEnv \<Rightarrow> WorkloadDAG \<Rightarrow> 'm Orchestrator
     \<Rightarrow> ((error, OrchestrationResult) result \<times> 'm Orchestrator) option" where
  "submit_workload ops pb env d s =
     (case mo_read ops (sv_now env) (o_monitor s) of
        (Inl _, m) \<Rightarrow> Some (Inl ''Resource monitor not ready'', s\<lparr>o_monitor := m\<rparr>)
      | (Inr snap, m) \<Rightarrow>
          (let s1 = s\<lparr>o_monitor := m, o_discovery := update_local_resources snap (o_discovery s)\<rparr>;
               view = cm_snapshot (sv_peer_order env) (w_cluster (o_world s1))
           in case create_policy (o_config s1) (sv_sched env) d snap view of
                None \<Rightarrow> None
              | Some p \<Rightarrow>
                  (case run_jobs pb d (sv_actions env) (submit_plan p s1) of
                     None \<Rightarrow> None
                   | Some s2 \<Rightarrow> map_option (\<lambda>(r, s3). (Inr r, s3))
                       (finish_submission (sv_deadline env) (sv_lucky env) (sv_elapsed env) p s2))))"

section \<open>Messages\<close>

definition empty_result :: OrchestrationResult where
  "empty_result = \<lparr>plan = \<lparr>decisions = [], estimated_makespan = 0, computed_at = 0\<rparr>, local_tasks = 0, offloaded_tasks = 0,
     completed_tasks = 0, failed_tasks = 0, offload_fallbacks = 0, total_duration = 0\<rparr>"

text \<open>What a handler call takes from outside.\<close>

record HandlerEnv =
  he_now :: int
  he_order :: order
  he_run :: RunEnv
  he_lucky :: bool
  he_submit :: SubmitEnv

definition handle_workload_submission ::
  "'m MonitorOps \<Rightarrow> protobuf \<Rightarrow> HandlerEnv \<Rightarrow> u8 list \<Rightarrow> 'm Orchestrator \<Rightarrow> (u8 list \<times> 'm Orchestrator) option" where
  "handle_workload_submission ops pb env req s =
     (case decode_submission pb (he_order env) req ([], empty_dag) of
        (False, workload_id, _) \<Rightarrow> Some (encode_workload_result pb workload_id False ''Invalid workload submission'' empty_result, s)
      | (True, workload_id, d) \<Rightarrow>
          (let s1 = s\<lparr>o_world := w_info (he_now env) (''Workload '' @ [CHR 0x27] @ workload_id @ [CHR 0x27] @ '' received ('' @
                 dec_string (task_count d) @ '' tasks)'') (o_world s)\<rparr>
           in case submit_workload ops pb (he_submit env) d s1 of
                None \<Rightarrow> None
              | Some (Inl e, s2) \<Rightarrow> Some (encode_workload_result pb workload_id False e empty_result, s2)
              | Some (Inr r, s2) \<Rightarrow> Some (encode_workload_result pb workload_id True [] r, s2)))"

definition handle_message ::
  "'m MonitorOps \<Rightarrow> protobuf \<Rightarrow> HandlerEnv \<Rightarrow> u8 list \<Rightarrow> 'm Orchestrator \<Rightarrow> (u8 list \<times> 'm Orchestrator) option" where
  "handle_message ops pb env req s = (case classify pb req of
     OffloadRequestKind \<Rightarrow> handle_offload_request pb (he_now env) (he_run env) (he_lucky env) req s
   | WorkloadSubmissionKind \<Rightarrow> handle_workload_submission ops pb env req s
   | _ \<Rightarrow> Some (encode_response pb (False, 0, 0, ''Unsupported message type'', []),
       s\<lparr>o_world := w_warn (he_now env) (''Received unsupported message ('' @ dec_string (length req) @ '' bytes)'') (o_world s)\<rparr>))"

section \<open>The configured policy keeps the contract of a policy\<close>

interpretation configured: scheduling_policy "create_policy cfg" for cfg
proof
  fix e d l c p x
  assume a: "env_ok e" "dag_inv d" "closed_dag d" "create_policy cfg e d l c = Some p"
  show "mset (map d_task_id (decisions p)) = mset (topological_order (env_order e) d)"
    using a greedy.covers [OF a(1-3)] threshold.covers [OF a(1-3)] optimizer.covers [OF a(1-3)]
    by (auto simp: create_policy_def split: if_splits)
  assume "x \<in> set (decisions p)"
  then show "assigned_node x \<in> set (candidates l c)"
    using a greedy.placed [OF a(1-3)] threshold.placed [OF a(1-3)] optimizer.placed [OF a(1-3)]
    by (auto simp: create_policy_def split: if_splits)
qed

section \<open>Discovery feeds the cluster view\<close>

text \<open>On the cluster view the callbacks are exactly the updates that keep it in step with discovery.\<close>

lemma callbacks_cluster:
  "w_cluster (peer_discovered clock peer w) = update_peer peer (w_cluster w)"
  "w_cluster (peer_lost clock peer w) = remove_peer (p_node_id peer) (w_cluster w)"
  by (simp_all add: peer_discovered_def peer_lost_def w_record_def w_info_def w_warn_def)

text \<open>
  Every \<^verbatim>\<open>start\<close> registers the callbacks once more, so after a restart each peer event is handled and
  recorded twice.
\<close>

theorem restart_duplicates_callbacks:
  assumes "orch_start ops clock la ds s = Some (Inr (), s1)" "orch_stop ops clock ord sa s1 = Some s2"
    and "orch_start ops clock la ds s2 = Some (Inr (), s3)"
  shows "on_discovered (o_discovery s3) = on_discovered (o_discovery s) @ [peer_discovered clock, peer_discovered clock]"
proof -
  have start: "on_discovered (o_discovery u') = on_discovered (o_discovery u) @ [peer_discovered clock]"
    if "orch_start ops clock la ds u = Some (Inr (), u')" for u u'
    using that by (auto simp: orch_start_def discovery_start_def on_peer_lost_def on_peer_discovered_def Let_def
        split: if_splits option.splits prod.splits)
  have "on_discovered (o_discovery s2) = on_discovered (o_discovery s1)"
    using assms(2) by (auto simp: orch_stop_def discovery_stop_def Let_def split: if_splits option.splits)
  then show ?thesis using start [OF assms(1)] start [OF assms(3)] by simp
qed

end
