(* ===== verification/Submission.thy ===== *)
theory Submission
  imports Orchestrator
begin

text \<open>
  A submission to the orchestrator, for every interleaving of its loop, its jobs and the tasks of other
  requests: the counters of the result (\<^verbatim>\<open>submit_workload\<close> of \<^verbatim>\<open>src/orchestrator/orchestrator.hpp\<close>), the blocks
  that tasks hold in the arena while other requests allocate from it and try to reset it, and that no
  job a worker of the pool has taken gets stuck.
\<close>

section \<open>Books of a submission\<close>

lemma run_task_halves:
  "run_task env i profile s = (case enter_arena profile s of (mem, s') \<Rightarrow>
     map_option (\<lambda>r. (r, leave_arena s')) (task_result env i profile mem))"
  by (auto simp: run_task_def enter_arena_def leave_arena_def task_result_def execute_def option.map_comp comp_def case_prod_beta
      split: option.splits prod.splits)

lemma length_filter_update:
  "i < length xs \<Longrightarrow> length (filter P (xs[i := y])) + of_bool (P (xs ! i)) = length (filter P xs) + of_bool (P y)"
proof (induction xs arbitrary: i)
  case (Cons x xs)
  then show ?case by (cases i) auto
qed simp

abbreviation tally :: "(Job \<Rightarrow> bool) \<Rightarrow> 'm Submitted \<Rightarrow> nat" where
  "tally P s \<equiv> length (filter P (sb_jobs s))"

definition job_ok :: "Job \<Rightarrow> bool" where
  "job_ok j \<longleftrightarrow> (j_fell_back j \<longrightarrow> j_target j \<noteq> None) \<and>
     (case j_pc j of Queued \<Rightarrow> \<not> j_fell_back j | Started \<Rightarrow> \<not> j_fell_back j | Answered _ \<Rightarrow> \<not> j_fell_back j \<and> j_target j \<noteq> None | FellBack \<Rightarrow> j_fell_back j | _ \<Rightarrow> True)"

definition sub_inv :: "'m Submitted \<Rightarrow> bool" where
  "sub_inv s \<longleftrightarrow> list_all job_ok (sb_jobs s) \<and>
     sb_local s = of_nat (tally (\<lambda>j. j_target j = None) s) \<and> sb_offloaded s = of_nat (tally (\<lambda>j. j_target j \<noteq> None) s) \<and>
     sb_completed s = of_nat (tally (\<lambda>j. j_pc j = JobDone True) s) \<and> sb_failed s = of_nat (tally (\<lambda>j. j_pc j = JobDone False) s) \<and>
     sb_fallbacks s = of_nat (tally j_fell_back s)"

text \<open>A step that replaces one job keeps the books when the counters follow that job.\<close>

lemma tally_update:
  assumes "i < length (sb_jobs s)" "sb_jobs s' = (sb_jobs s)[i := j']" "c = of_nat (tally P s)"
    and "c' + of_bool (P (sb_jobs s ! i)) = c + (of_bool (P j') :: u64)"
  shows "c' = of_nat (tally P s')"
proof -
  have "(of_nat (tally P s') :: u64) + of_bool (P (sb_jobs s ! i)) = of_nat (tally P s) + of_bool (P j')"
    using arg_cong [OF length_filter_update [OF assms(1), of P j'], of "of_nat :: nat \<Rightarrow> u64"] by (simp add: assms(2))
  then show ?thesis using assms(3,4) by (metis add_right_cancel)
qed

lemma sub_inv_update:
  assumes "sub_inv s" "i < length (sb_jobs s)" "sb_jobs s' = (sb_jobs s)[i := j']" "j_target j' = j_target (sb_jobs s ! i)" "job_ok j'"
    and "sb_local s' = sb_local s" "sb_offloaded s' = sb_offloaded s"
    and "sb_completed s' + of_bool (j_pc (sb_jobs s ! i) = JobDone True) = sb_completed s + of_bool (j_pc j' = JobDone True)"
    and "sb_failed s' + of_bool (j_pc (sb_jobs s ! i) = JobDone False) = sb_failed s + of_bool (j_pc j' = JobDone False)"
    and "sb_fallbacks s' + of_bool (j_fell_back (sb_jobs s ! i)) = sb_fallbacks s + of_bool (j_fell_back j')"
  shows "sub_inv s'"
proof -
  have inv: "list_all job_ok (sb_jobs s)" "sb_local s = of_nat (tally (\<lambda>j. j_target j = None) s)"
    "sb_offloaded s = of_nat (tally (\<lambda>j. j_target j \<noteq> None) s)" "sb_completed s = of_nat (tally (\<lambda>j. j_pc j = JobDone True) s)"
    "sb_failed s = of_nat (tally (\<lambda>j. j_pc j = JobDone False) s)" "sb_fallbacks s = of_nat (tally j_fell_back s)"
    using assms(1) by (simp_all add: sub_inv_def)
  note t = tally_update [OF assms(2,3)]
  have "list_all job_ok (sb_jobs s')"
    using inv(1) assms(3,5) set_update_subset_insert [of "sb_jobs s" i j'] by (auto simp: list_all_iff)
  moreover have "sb_local s' = of_nat (tally (\<lambda>j. j_target j = None) s')" by (rule t [OF inv(2)]) (simp add: assms(4,6))
  moreover have "sb_offloaded s' = of_nat (tally (\<lambda>j. j_target j \<noteq> None) s')" by (rule t [OF inv(3)]) (simp add: assms(4,7))
  moreover have "sb_completed s' = of_nat (tally (\<lambda>j. j_pc j = JobDone True) s')" by (rule t [OF inv(4) assms(8)])
  moreover have "sb_failed s' = of_nat (tally (\<lambda>j. j_pc j = JobDone False) s')" by (rule t [OF inv(5) assms(9)])
  moreover have "sb_fallbacks s' = of_nat (tally j_fell_back s')" by (rule t [OF inv(6) assms(10)])
  ultimately show ?thesis by (simp add: sub_inv_def)
qed

text \<open>The steps of a job, and what each does to the jobs and the counters.\<close>

lemma job_step_cases:
  assumes "job_step pb i env s = Some s'"
  obtains (enter) "i < length (sb_jobs s)" "j_pc (sb_jobs s ! i) = Started \<and> j_target (sb_jobs s ! i) = None \<or> j_pc (sb_jobs s ! i) = FellBack"
      "s' = enter_step i (sb_jobs s ! i) s"
    | (answer) target out where "i < length (sb_jobs s)" "j_pc (sb_jobs s ! i) = Started" "j_target (sb_jobs s ! i) = Some target"
      "s' = set_job i (Answered out) s"
    | (answered) out where "i < length (sb_jobs s)" "j_pc (sb_jobs s ! i) = Answered out" "s' = answered_step (je_now env) i (sb_jobs s ! i) out s"
    | (leave) mem r where "i < length (sb_jobs s)" "j_pc (sb_jobs s ! i) = InArena mem" "s' = set_job i (Ran r) (s\<lparr>sb_orch := leave_arena (sb_orch s)\<rparr>)"
    | (ran) r f where "i < length (sb_jobs s)" "j_pc (sb_jobs s ! i) = Ran r" "s' = set_job i (Counting (final_state r = Completed)) (in_world f s)"
    | (count) ok where "i < length (sb_jobs s)" "j_pc (sb_jobs s ! i) = Counting ok" "s' = count_step i ok s"
  using assms unfolding job_step_def by (auto simp: Let_def split: if_splits job_pc.splits option.splits)

lemma set_job_fields [simp]:
  "sb_jobs (set_job i pc s) = (sb_jobs s)[i := (sb_jobs s ! i)\<lparr>j_pc := pc\<rparr>]" "sb_orch (set_job i pc s) = sb_orch s"
  "sb_local (set_job i pc s) = sb_local s" "sb_offloaded (set_job i pc s) = sb_offloaded s" "sb_completed (set_job i pc s) = sb_completed s"
  "sb_failed (set_job i pc s) = sb_failed s" "sb_fallbacks (set_job i pc s) = sb_fallbacks s"
  "sb_todo (set_job i pc s) = sb_todo s" "sb_others (set_job i pc s) = sb_others s"
  by (simp_all add: set_job_def)

lemma in_world_fields [simp]:
  "sb_jobs (in_world f s) = sb_jobs s" "sb_local (in_world f s) = sb_local s" "sb_offloaded (in_world f s) = sb_offloaded s"
  "sb_completed (in_world f s) = sb_completed s" "sb_failed (in_world f s) = sb_failed s" "sb_fallbacks (in_world f s) = sb_fallbacks s"
  "o_config (sb_orch (in_world f s)) = o_config (sb_orch s)" "o_arena (sb_orch (in_world f s)) = o_arena (sb_orch s)"
  "o_readers (sb_orch (in_world f s)) = o_readers (sb_orch s)" "sb_todo (in_world f s) = sb_todo s" "sb_others (in_world f s) = sb_others s"
  by (simp_all add: in_world_def)

lemma enter_step_fields [simp]:
  "sb_jobs (enter_step i j s) = (sb_jobs s)[i := (sb_jobs s ! i)\<lparr>j_pc := InArena (fst (enter_arena (j_profile j) (sb_orch s)))\<rparr>]"
  "sb_orch (enter_step i j s) = snd (enter_arena (j_profile j) (sb_orch s))"
  "sb_local (enter_step i j s) = sb_local s" "sb_offloaded (enter_step i j s) = sb_offloaded s" "sb_completed (enter_step i j s) = sb_completed s"
  "sb_failed (enter_step i j s) = sb_failed s" "sb_fallbacks (enter_step i j s) = sb_fallbacks s"
  "sb_todo (enter_step i j s) = sb_todo s" "sb_others (enter_step i j s) = sb_others s"
  by (simp_all add: enter_step_def split: prod.splits)

lemma answered_step_fields:
  "transport_ok out \<Longrightarrow> sb_jobs (answered_step now i j out s) = (sb_jobs s)[i := (sb_jobs s ! i)\<lparr>j_pc := Counting (task_ok out)\<rparr>]"
  "\<not> transport_ok out \<Longrightarrow> sb_jobs (answered_step now i j out s) = (sb_jobs s)[i := (sb_jobs s ! i)\<lparr>j_pc := FellBack, j_fell_back := True\<rparr>]"
  "sb_local (answered_step now i j out s) = sb_local s" "sb_offloaded (answered_step now i j out s) = sb_offloaded s"
  "sb_completed (answered_step now i j out s) = sb_completed s" "sb_failed (answered_step now i j out s) = sb_failed s"
  "sb_fallbacks (answered_step now i j out s) = sb_fallbacks s + of_bool (\<not> transport_ok out)"
  "o_config (sb_orch (answered_step now i j out s)) = o_config (sb_orch s)" "o_arena (sb_orch (answered_step now i j out s)) = o_arena (sb_orch s)"
  "o_readers (sb_orch (answered_step now i j out s)) = o_readers (sb_orch s)"
  "sb_todo (answered_step now i j out s) = sb_todo s" "sb_others (answered_step now i j out s) = sb_others s"
  by (simp_all add: answered_step_def Let_def)

lemma count_step_fields [simp]:
  "sb_jobs (count_step i ok s) = (sb_jobs s)[i := (sb_jobs s ! i)\<lparr>j_pc := JobDone ok\<rparr>]" "sb_orch (count_step i ok s) = sb_orch s"
  "sb_local (count_step i ok s) = sb_local s" "sb_offloaded (count_step i ok s) = sb_offloaded s"
  "sb_completed (count_step i ok s) = sb_completed s + of_bool ok" "sb_failed (count_step i ok s) = sb_failed s + of_bool (\<not> ok)"
  "sb_fallbacks (count_step i ok s) = sb_fallbacks s" "sb_todo (count_step i ok s) = sb_todo s" "sb_others (count_step i ok s) = sb_others s"
  by (simp_all add: count_step_def)

lemma job_step_inv:
  assumes "job_step pb i env s = Some s'" "sub_inv s"
  shows "sub_inv s'"
proof -
  have ok: "job_ok (sb_jobs s ! i)" if "i < length (sb_jobs s)" using assms(2) that by (simp add: sub_inv_def list_all_length)
  show ?thesis
    using assms(1)
  proof (cases rule: job_step_cases)
    case enter
    show ?thesis
      by (rule sub_inv_update [OF assms(2) enter(1), where j' = "(sb_jobs s ! i)\<lparr>j_pc := InArena (fst (enter_arena (j_profile (sb_jobs s ! i)) (sb_orch s)))\<rparr>"])
        (use enter ok in \<open>auto simp: job_ok_def\<close>)
  next
    case (answer target out)
    show ?thesis
      by (rule sub_inv_update [OF assms(2) answer(1), where j' = "(sb_jobs s ! i)\<lparr>j_pc := Answered out\<rparr>"]) (use answer ok in \<open>auto simp: job_ok_def\<close>)
  next
    case (answered out)
    show ?thesis
    proof (cases "transport_ok out")
      case True
      show ?thesis
        by (rule sub_inv_update [OF assms(2) answered(1), where j' = "(sb_jobs s ! i)\<lparr>j_pc := Counting (task_ok out)\<rparr>"])
          (use answered ok True in \<open>auto simp: job_ok_def answered_step_fields\<close>)
    next
      case False
      show ?thesis
        by (rule sub_inv_update [OF assms(2) answered(1), where j' = "(sb_jobs s ! i)\<lparr>j_pc := FellBack, j_fell_back := True\<rparr>"])
          (use answered ok False in \<open>auto simp: job_ok_def answered_step_fields\<close>)
    qed
  next
    case (leave mem r)
    show ?thesis
      by (rule sub_inv_update [OF assms(2) leave(1), where j' = "(sb_jobs s ! i)\<lparr>j_pc := Ran r\<rparr>"]) (use leave ok in \<open>auto simp: job_ok_def\<close>)
  next
    case (ran r f)
    show ?thesis
      by (rule sub_inv_update [OF assms(2) ran(1), where j' = "(sb_jobs s ! i)\<lparr>j_pc := Counting (final_state r = Completed)\<rparr>"])
        (use ran ok in \<open>auto simp: job_ok_def\<close>)
  next
    case (count b)
    show ?thesis
      by (rule sub_inv_update [OF assms(2) count(1), where j' = "(sb_jobs s ! i)\<lparr>j_pc := JobDone b\<rparr>"]) (use count ok in \<open>auto simp: job_ok_def\<close>)
  qed
qed

text \<open>What a step leaves of the job and of the loop; \<open>job_rank\<close> bounds the steps a job still has.\<close>

fun job_rank :: "job_pc \<Rightarrow> nat" where
  "job_rank Queued = 7" | "job_rank Started = 6" | "job_rank (Answered _) = 5" | "job_rank FellBack = 4" | "job_rank (InArena _) = 3"
| "job_rank (Ran _) = 2" | "job_rank (Counting _) = 1" | "job_rank (JobDone _) = 0"

lemma job_step_job:
  assumes "job_step pb i env s = Some s'"
  obtains j' where "i < length (sb_jobs s)" "sb_jobs s' = (sb_jobs s)[i := j']" "j_task j' = j_task (sb_jobs s ! i)"
    "j_profile j' = j_profile (sb_jobs s ! i)" "job_rank (j_pc j') < job_rank (j_pc (sb_jobs s ! i))"
    "job_rank (j_pc j') < 6" "sb_todo s' = sb_todo s" "sb_others s' = sb_others s"
  using assms
proof (cases rule: job_step_cases)
  case enter
  then show ?thesis
    by (intro that [of "(sb_jobs s ! i)\<lparr>j_pc := InArena (fst (enter_arena (j_profile (sb_jobs s ! i)) (sb_orch s)))\<rparr>"]) auto
next
  case (answered out)
  then show ?thesis
    by (intro that [of "if transport_ok out then (sb_jobs s ! i)\<lparr>j_pc := Counting (task_ok out)\<rparr> else (sb_jobs s ! i)\<lparr>j_pc := FellBack, j_fell_back := True\<rparr>"])
      (simp_all add: answered_step_fields)
next
  case (answer target out)
  then show ?thesis by (intro that [of "(sb_jobs s ! i)\<lparr>j_pc := Answered out\<rparr>"]) simp_all
next
  case (leave mem r)
  then show ?thesis by (intro that [of "(sb_jobs s ! i)\<lparr>j_pc := Ran r\<rparr>"]) simp_all
next
  case (ran r f)
  then show ?thesis by (intro that [of "(sb_jobs s ! i)\<lparr>j_pc := Counting (final_state r = Completed)\<rparr>"]) simp_all
next
  case (count ok)
  then show ?thesis by (intro that [of "(sb_jobs s ! i)\<lparr>j_pc := JobDone ok\<rparr>"]) simp_all
qed

lemma start_job_cases:
  assumes "start_job i s = Some s'"
  obtains "i < length (sb_jobs s)" "j_pc (sb_jobs s ! i) = Queued" "s' = set_job i Started s"
  using assms by (auto simp: start_job_def split: if_splits)

lemma start_job_inv:
  assumes "start_job i s = Some s'" "sub_inv s"
  shows "sub_inv s'"
  using assms(1)
proof (cases rule: start_job_cases)
  case 1
  have ok: "job_ok (sb_jobs s ! i)" using assms(2) 1(1) by (simp add: sub_inv_def list_all_length)
  show ?thesis
    by (rule sub_inv_update [OF assms(2) 1(1), where j' = "(sb_jobs s ! i)\<lparr>j_pc := Started\<rparr>"]) (use 1 ok in \<open>auto simp: job_ok_def\<close>)
qed

text \<open>The loop: the tasks of the jobs and of the decisions to come are those of the plan, in its order.\<close>

definition pending_ok :: "WorkloadDAG \<Rightarrow> 'm Submitted \<Rightarrow> bool" where
  "pending_ok d s \<longleftrightarrow> (\<forall>x \<in> set (sb_todo s). get_task d (d_task_id x) \<noteq> None)"

definition jobs_known :: "WorkloadDAG \<Rightarrow> 'm Submitted \<Rightarrow> bool" where
  "jobs_known d s \<longleftrightarrow> (\<forall>j \<in> set (sb_jobs s). \<exists>t. get_task d (j_task j) = Some t \<and> j_profile j = t_profile t)"

definition planned :: "'m Submitted \<Rightarrow> TaskId list" where
  "planned s = map j_task (sb_jobs s) @ map d_task_id (sb_todo s)"

lemma planned_update:
  assumes "i < length (sb_jobs s)" "sb_jobs s' = (sb_jobs s)[i := j']" "j_task j' = j_task (sb_jobs s ! i)"
    "j_profile j' = j_profile (sb_jobs s ! i)" "sb_todo s' = sb_todo s"
  shows "planned s' = planned s \<and> pending_ok d s' = pending_ok d s \<and> (jobs_known d s \<longrightarrow> jobs_known d s')"
proof -
  have "map j_task (sb_jobs s') = map j_task (sb_jobs s)"
    using assms(1-3) by (simp add: map_update) (metis length_map list_update_id nth_map)
  moreover have "\<exists>t. get_task d (j_task j) = Some t \<and> j_profile j = t_profile t" if "j \<in> set (sb_jobs s')" "jobs_known d s" for j
    using that set_update_subset_insert [of "sb_jobs s" i j'] assms nth_mem [OF assms(1)] by (auto simp: jobs_known_def)
  ultimately show ?thesis using assms(5) by (simp add: planned_def pending_ok_def jobs_known_def)
qed

lemma submit_next_cases:
  assumes "submit_next d s = Some s'"
  obtains (skip) x xs where "sb_todo s = x # xs" "get_task d (d_task_id x) = None" "s' = s\<lparr>sb_todo := xs\<rparr>"
    | (job) x xs t j where "sb_todo s = x # xs" "sb_todo s' = xs" "get_task d (d_task_id x) = Some t" "sb_jobs s' = sb_jobs s @ [j]"
    "j_task j = d_task_id x" "j_profile j = t_profile t" "j_pc j = Queued" "\<not> j_fell_back j"
    "sb_local s' = sb_local s + of_bool (j_target j = None)" "sb_offloaded s' = sb_offloaded s + of_bool (j_target j \<noteq> None)"
    "sb_completed s' = sb_completed s" "sb_failed s' = sb_failed s" "sb_fallbacks s' = sb_fallbacks s" "sb_others s' = sb_others s"
    "o_arena (sb_orch s') = o_arena (sb_orch s)" "o_readers (sb_orch s') = o_readers (sb_orch s)"
proof -
  obtain x xs where x: "sb_todo s = x # xs" "s' = submit_decision d x (s\<lparr>sb_todo := xs\<rparr>)"
    using assms by (auto simp: submit_next_def split: list.splits)
  show ?thesis
  proof (cases "get_task d (d_task_id x)")
    case None
    then show ?thesis using skip x by (simp add: submit_decision_def)
  next
    case t: (Some t)
    show ?thesis
    proof (cases "assigned_node x = nc_id (cf_node (o_config (sb_orch s)))")
      case True
      show ?thesis
        by (rule job [OF x(1) _ t, where j = "\<lparr>j_task = d_task_id x, j_profile = t_profile t, j_target = None, j_pc = Queued, j_fell_back = False\<rparr>"])
          (simp_all add: x(2) submit_decision_def t Let_def True)
    next
      case False
      show ?thesis
        by (rule job [OF x(1) _ t, where j = "\<lparr>j_task = d_task_id x, j_profile = t_profile t, j_target = Some (assigned_node x), j_pc = Queued, j_fell_back = False\<rparr>"])
          (simp_all add: x(2) submit_decision_def t Let_def False)
    qed
  qed
qed

lemma submit_next_inv:
  assumes "submit_next d s = Some s'" "sub_inv s"
  shows "sub_inv s' \<and> (pending_ok d s \<longrightarrow> planned s' = planned s \<and> pending_ok d s') \<and> (jobs_known d s \<longrightarrow> jobs_known d s')"
  using assms(1)
proof (cases rule: submit_next_cases)
  case (skip x xs)
  then show ?thesis using assms(2) by (simp add: sub_inv_def pending_ok_def jobs_known_def)
next
  case (job x xs t j)
  have "planned s' = planned s" "pending_ok d s \<longrightarrow> pending_ok d s'" "jobs_known d s \<longrightarrow> jobs_known d s'"
    by (simp_all add: planned_def pending_ok_def jobs_known_def job(1-6))
  moreover have "sub_inv s'" using assms(2) job(7,8) by (simp add: sub_inv_def job(4,9-13) job_ok_def)
  ultimately show ?thesis by blast
qed

lemma other_steps_fields:
  "sb_jobs (other_enter profile s) = sb_jobs s" "sb_todo (other_enter profile s) = sb_todo s" "sub_inv (other_enter profile s) = sub_inv s"
  "other_leave k s = Some s' \<Longrightarrow> sb_jobs s' = sb_jobs s \<and> sb_todo s' = sb_todo s \<and> sub_inv s' = sub_inv s"
  by (auto simp: other_enter_def other_leave_def sub_inv_def split: prod.splits if_splits)

lemma sub_step_inv:
  assumes "sub_step pb d a s = Some s'" "sub_inv s"
  shows "sub_inv s' \<and> (pending_ok d s \<longrightarrow> planned s' = planned s \<and> pending_ok d s') \<and> (jobs_known d s \<longrightarrow> jobs_known d s')"
proof (cases a)
  case SubmitNext
  then show ?thesis using assms submit_next_inv by simp
next
  case (StartJob i)
  then have st: "start_job i s = Some s'" using assms(1) by simp
  then show ?thesis
  proof (cases rule: start_job_cases)
    case 1
    have "planned s' = planned s \<and> pending_ok d s' = pending_ok d s \<and> (jobs_known d s \<longrightarrow> jobs_known d s')"
      by (rule planned_update [OF 1(1), where j' = "(sb_jobs s ! i)\<lparr>j_pc := Started\<rparr>"]) (simp_all add: 1(3))
    then show ?thesis using start_job_inv [OF st assms(2)] by blast
  qed
next
  case (JobStep i env)
  then have js: "job_step pb i env s = Some s'" using assms(1) by simp
  then obtain j' where j': "i < length (sb_jobs s)" "sb_jobs s' = (sb_jobs s)[i := j']" "j_task j' = j_task (sb_jobs s ! i)"
    "j_profile j' = j_profile (sb_jobs s ! i)" "sb_todo s' = sb_todo s"
    by (rule job_step_job) blast
  show ?thesis using planned_update [OF j'] job_step_inv [OF js assms(2)] by blast
next
  case (OtherEnter profile)
  then show ?thesis using assms by (auto simp: other_steps_fields planned_def pending_ok_def jobs_known_def)
next
  case (OtherLeave k)
  then show ?thesis using assms other_steps_fields(4) [of k s s'] by (simp add: planned_def pending_ok_def jobs_known_def)
next
  case (OtherReset lucky)
  then show ?thesis using assms by (auto simp: sub_inv_def planned_def pending_ok_def jobs_known_def)
qed

lemma run_jobs_inv:
  "run_jobs pb d as s = Some s' \<Longrightarrow> sub_inv s \<Longrightarrow>
     sub_inv s' \<and> (pending_ok d s \<longrightarrow> planned s' = planned s \<and> pending_ok d s') \<and> (jobs_known d s \<longrightarrow> jobs_known d s')"
proof (induction as arbitrary: s)
  case (Cons a as)
  then obtain s1 where s1: "sub_step pb d a s = Some s1" "run_jobs pb d as s1 = Some s'" by (auto split: option.splits)
  show ?case using sub_step_inv [OF s1(1) Cons.prems(2)] Cons.IH [OF s1(2)] by simp
qed simp

lemma submit_plan_pending:
  assumes "\<And>x. x \<in> set (decisions p) \<Longrightarrow> get_task d (d_task_id x) \<noteq> None"
  shows "pending_ok d (submit_plan p s)"
  using assms by (simp add: submit_plan_def pending_ok_def)

lemma submit_plan_start [simp]:
  "sub_inv (submit_plan p s)" "planned (submit_plan p s) = map d_task_id (decisions p)" "jobs_known d (submit_plan p s)"
  by (simp_all add: submit_plan_def sub_inv_def planned_def jobs_known_def)

text \<open>The jobs after the loop.\<close>

lemma all_submitted: "sb_todo s = [] \<Longrightarrow> length (sb_jobs s) = length (planned s)"
  by (simp add: planned_def)

lemma tally_le: "length (filter P xs) \<le> length xs"
  by simp

lemma tally_two: "length (filter (\<lambda>j. j_pc j = JobDone True) js) + length (filter (\<lambda>j. j_pc j = JobDone False) js) \<le> length js"
  by (induction js) auto

lemma tally_targets: "length (filter (\<lambda>j. j_target j = None) js) + length (filter (\<lambda>j. j_target j \<noteq> None) js) = length js"
  by (induction js) auto

lemma tally_fallbacks: "list_all job_ok js \<Longrightarrow> length (filter j_fell_back js) \<le> length (filter (\<lambda>j. j_target j \<noteq> None) js)"
  by (induction js) (auto simp: job_ok_def)

lemma submit_workload_cases:
  assumes "submit_workload ops pb env d s = Some (Inr r, s')"
  obtains snap m view s2 where "mo_read ops (sv_now env) (o_monitor s) = (Inr snap, m)"
    "create_policy (o_config s) (sv_sched env) d snap view = Some (plan r)"
    "run_jobs pb d (sv_actions env) (submit_plan (plan r) (s\<lparr>o_monitor := m, o_discovery := update_local_resources snap (o_discovery s)\<rparr>)) = Some s2"
    "finish_submission (sv_deadline env) (sv_lucky env) (sv_elapsed env) (plan r) s2 = Some (r, s')"
    "view = cm_snapshot (sv_peer_order env) (w_cluster (o_world s))"
  using assms unfolding submit_workload_def
  by (auto simp: Let_def finish_submission_def split: prod.splits sum.splits option.splits if_splits)

lemma finish_submission_fields:
  assumes "finish_submission deadline lucky elapsed p s = Some (r, s')"
  shows "local_tasks r = sb_local s \<and> offloaded_tasks r = sb_offloaded s \<and> completed_tasks r = sb_completed s \<and>
    failed_tasks r = sb_failed s \<and> offload_fallbacks r = sb_fallbacks s \<and>
    (sb_completed s + sb_failed s < of_nat (length (decisions p)) \<longrightarrow> deadline) \<and> sb_todo s = []"
  using assms by (auto simp: finish_submission_def Let_def split: if_splits)

section \<open>The arena under interleaving\<close>

definition in_arena :: "Job \<Rightarrow> bool" where
  "in_arena j \<longleftrightarrow> (case j_pc j of InArena _ \<Rightarrow> True | _ \<Rightarrow> False)"

text \<open>The block a job holds.\<close>

definition live :: "Job \<Rightarrow> (u64 \<times> u64) option" where
  "live j = (case j_pc j of InArena (Some a) \<Rightarrow> Some (a, memory_bytes (j_profile j)) | _ \<Rightarrow> None)"

text \<open>
  The blocks that jobs and tasks of other requests hold. In a list of possible holders, replacing one
  replaces its block.
\<close>

primrec block :: "'b option \<Rightarrow> 'b multiset" where
  "block None = {#}"
| "block (Some b) = {#b#}"

primrec blocks :: "'b option list \<Rightarrow> 'b multiset" where
  "blocks [] = {#}"
| "blocks (x # xs) = block x + blocks xs"

lemma blocks_append: "blocks (xs @ ys) = blocks xs + blocks ys"
  by (induction xs) simp_all

lemma blocks_nth: "i < length xs \<Longrightarrow> blocks xs = block (xs ! i) + blocks (take i xs @ drop (Suc i) xs)"
  using arg_cong [OF id_take_nth_drop [of i xs], of blocks] by (simp add: blocks_append ac_simps)

lemma blocks_update: "i < length xs \<Longrightarrow> blocks (xs[i := y]) = block y + blocks (take i xs @ drop (Suc i) xs)"
  by (simp add: upd_conv_take_nth_drop blocks_append ac_simps)

lemma blocks_none: "set xs \<subseteq> {None} \<Longrightarrow> blocks xs = {#}"
  by (induction xs) auto

definition held :: "'m Submitted \<Rightarrow> (u64 \<times> u64) multiset" where
  "held s = blocks (map live (sb_jobs s)) + blocks (sb_others s)"

text \<open>Blocks that end below \<open>hi\<close> and do not overlap.\<close>

definition apart :: "nat \<Rightarrow> (u64 \<times> u64) multiset \<Rightarrow> bool" where
  "apart hi M \<longleftrightarrow> (\<forall>b \<in># M. unat (fst b) + unat (snd b) \<le> hi \<and> (\<forall>c \<in># M - {#b#}. disjnt (block_span b) (block_span c)))"

lemma apart_empty [simp]: "apart hi {#}"
  by (simp add: apart_def)

lemma apart_mono:
  assumes "apart hi M" "N \<subseteq># M" "hi \<le> hi'"
  shows "apart hi' N"
proof -
  have "N - {#b#} \<subseteq># M - {#b#}" for b using assms(2) by (simp add: subseteq_mset_def diff_le_mono)
  then have sub: "b \<in># N \<Longrightarrow> b \<in># M" "c \<in># N - {#b#} \<Longrightarrow> c \<in># M - {#b#}" for b c using assms(2) by (blast dest: mset_subset_eqD)+
  show ?thesis
    unfolding apart_def using assms(1,3) sub by (auto simp: apart_def intro: order_trans)
qed

lemma apart_add:
  assumes "apart hi M" "hi \<le> unat (fst b)" "unat (fst b) + unat (snd b) \<le> hi'"
  shows "apart hi' (add_mset b M)"
proof -
  have new: "disjnt (block_span b) (block_span c)" if "c \<in># M" for c
    using assms(1,2) that by (force simp: apart_def disjnt_def)
  have "disjnt (block_span c) (block_span e)" if "c \<in># M" "e \<in># add_mset b M - {#c#}" for c e
    using that assms(1) new [OF that(1)] by (cases "b = c") (auto simp: apart_def disjnt_sym new)
  moreover have "unat (fst c) + unat (snd c) \<le> hi'" if "c \<in># M" for c
    using assms that by (fastforce simp: apart_def)
  ultimately show ?thesis using assms(3) new by (auto simp: apart_def)
qed

text \<open>The reader count covers everyone in the arena, and the blocks they hold lie apart below the offset.\<close>

definition arena_inv :: "nat \<Rightarrow> u64 \<Rightarrow> 'm Submitted \<Rightarrow> bool" where
  "arena_inv base bytes s \<longleftrightarrow> mp_capacity (o_arena (sb_orch s)) = bytes \<and> pool_inv (o_arena (sb_orch s)) \<and>
     o_readers (sb_orch s) = base + tally in_arena s + length (sb_others s) \<and>
     apart (unat (mp_offset (o_arena (sb_orch s)))) (held s)"

lemma live_in_arena: "live j = Some b \<Longrightarrow> in_arena j"
  by (auto simp: live_def in_arena_def split: job_pc.splits)

lemma held_update:
  assumes "i < length (sb_jobs s)" "sb_jobs s' = (sb_jobs s)[i := j']" "sb_others s' = sb_others s"
  obtains N where "held s = block (live (sb_jobs s ! i)) + N" "held s' = block (live j') + N"
proof -
  have i: "i < length (map live (sb_jobs s))" using assms(1) by simp
  show ?thesis
    by (rule that [of "blocks (take i (map live (sb_jobs s)) @ drop (Suc i) (map live (sb_jobs s))) + blocks (sb_others s)"])
      (use blocks_nth [OF i] blocks_update [OF i, of "live j'"] assms in \<open>simp_all add: held_def map_update ac_simps\<close>)
qed

text \<open>A step that does not allocate: the job holds no block afterwards, and the arena is the same.\<close>

lemma arena_inv_no_block:
  assumes "arena_inv base bytes s" "i < length (sb_jobs s)" "sb_jobs s' = (sb_jobs s)[i := j']" "sb_others s' = sb_others s"
    and "\<not> in_arena j'" "o_arena (sb_orch s') = o_arena (sb_orch s)"
    and "o_readers (sb_orch s') + of_bool (in_arena (sb_jobs s ! i)) = o_readers (sb_orch s)"
  shows "arena_inv base bytes s'"
proof -
  have none: "live j' = None" using assms(5) live_in_arena by (metis not_None_eq)
  have "tally in_arena s' + of_bool (in_arena (sb_jobs s ! i)) = tally in_arena s"
    using length_filter_update [OF assms(2), of in_arena j'] assms(3,5) by simp
  then have "o_readers (sb_orch s') = base + tally in_arena s' + length (sb_others s')" using assms(1,4,7) by (simp add: arena_inv_def)
  moreover obtain N where "held s = block (live (sb_jobs s ! i)) + N" "held s' = block (live j') + N"
    using assms(2-4) by (rule held_update)
  then have "held s' \<subseteq># held s" using none by simp
  ultimately show ?thesis using assms(1,6) apart_mono by (fastforce simp: arena_inv_def)
qed

lemma allocate_block:
  assumes "allocate sz max_align p = (mem, p')" "request_ok (mp_capacity p) sz max_align" "pool_inv p"
  shows "mp_capacity p' = mp_capacity p" "pool_inv p'" "unat (mp_offset p) \<le> unat (mp_offset p')"
    "mem = Some a \<Longrightarrow> unat (mp_offset p) \<le> unat a \<and> unat a + unat sz = unat (mp_offset p')"
proof -
  let ?a = "round_up (unat (mp_offset p)) (unat max_align)"
  have ge: "unat (mp_offset p) \<le> ?a" by (rule round_up_ge) (simp add: max_align_def)
  have bound: "unat (of_nat (?a + unat sz) :: u64) = ?a + unat sz" "unat (of_nat ?a :: u64) = ?a" if "?a + unat sz \<le> unat (mp_capacity p)"
    using le_unat_uoi [OF that] le_unat_uoi [of ?a "mp_capacity p"] that by linarith+
  note c = allocate_cases [OF assms(2,3), unfolded assms(1) Let_def]
  show "mp_capacity p' = mp_capacity p" using c by (auto split: if_splits)
  show "pool_inv p'" using pool_inv_preserved(3) [OF assms(3), of sz max_align] assms(1) by simp
  show "unat (mp_offset p) \<le> unat (mp_offset p')" using c bound ge by (auto split: if_splits)
  show "unat (mp_offset p) \<le> unat a \<and> unat a + unat sz = unat (mp_offset p')" if "mem = Some a"
    using c bound ge that by (auto split: if_splits)
qed

text \<open>A task that enters the arena.\<close>

lemma enter_arena_inv:
  assumes "arena_inv base bytes s" "request_ok bytes (memory_bytes profile) max_align" "enter_arena profile (sb_orch s) = (mem, os)"
    and "sb_orch s' = os" "held s' = block (map_option (\<lambda>a. (a, memory_bytes profile)) mem) + held s"
    and "tally in_arena s' + length (sb_others s') = Suc (tally in_arena s + length (sb_others s))"
  shows "arena_inv base bytes s'"
proof -
  let ?p = "o_arena (sb_orch s)"
  obtain p' where al: "allocate (memory_bytes profile) max_align ?p = (mem, p')" and os: "os = (sb_orch s)\<lparr>o_arena := p', o_readers := Suc (o_readers (sb_orch s))\<rparr>"
    using assms(3) by (auto simp: enter_arena_def split: prod.splits)
  have inv: "mp_capacity ?p = bytes" "pool_inv ?p" "apart (unat (mp_offset ?p)) (held s)" using assms(1) by (simp_all add: arena_inv_def)
  note blk = allocate_block [OF al assms(2) [folded inv(1)] inv(2)]
  have "apart (unat (mp_offset p')) (held s')"
  proof (cases mem)
    case None
    then show ?thesis using apart_mono [OF inv(3) _ blk(3)] assms(5) by simp
  next
    case (Some a)
    then show ?thesis using apart_add [OF inv(3), of "(a, memory_bytes profile)"] blk(4) [of a] assms(5) by simp
  qed
  then show ?thesis using assms(1,4,6) blk(1,2) inv(1) os by (simp add: arena_inv_def)
qed

lemma enter_step_arena:
  assumes "arena_inv base bytes s" "request_ok bytes (memory_bytes (j_profile (sb_jobs s ! i))) max_align"
    and "i < length (sb_jobs s)" "\<not> in_arena (sb_jobs s ! i)"
  shows "arena_inv base bytes (enter_step i (sb_jobs s ! i) s)"
proof -
  let ?j = "sb_jobs s ! i" let ?s = "enter_step i ?j s"
  obtain mem os where en: "enter_arena (j_profile ?j) (sb_orch s) = (mem, os)" by (cases "enter_arena (j_profile ?j) (sb_orch s)")
  let ?j' = "?j\<lparr>j_pc := InArena mem\<rparr>"
  have jobs: "sb_jobs ?s = (sb_jobs s)[i := ?j']" "sb_orch ?s = os" by (simp_all add: en)
  have "live ?j = None" using assms(4) live_in_arena by (metis not_None_eq)
  moreover have "live ?j' = map_option (\<lambda>a. (a, memory_bytes (j_profile ?j))) mem" by (cases mem) (simp_all add: live_def)
  moreover obtain N where "held s = block (live ?j) + N" "held ?s = block (live ?j') + N"
    using assms(3) jobs(1) enter_step_fields(9) by (rule held_update)
  ultimately have "held ?s = block (map_option (\<lambda>a. (a, memory_bytes (j_profile ?j))) mem) + held s" by simp
  moreover have "tally in_arena ?s = Suc (tally in_arena s)"
    using length_filter_update [OF assms(3), of in_arena ?j'] assms(4) jobs(1) by (simp add: in_arena_def)
  ultimately show ?thesis by (intro enter_arena_inv [OF assms(1,2) en jobs(2)]) simp_all
qed

lemma other_enter_arena:
  assumes "arena_inv base bytes s" "request_ok bytes (memory_bytes profile) max_align"
  shows "arena_inv base bytes (other_enter profile s)"
proof -
  obtain mem os where en: "enter_arena profile (sb_orch s) = (mem, os)" by (cases "enter_arena profile (sb_orch s)")
  then show ?thesis by (intro enter_arena_inv [OF assms en]) (simp_all add: other_enter_def held_def)
qed

lemma other_leave_arena:
  assumes "arena_inv base bytes s" "other_leave k s = Some s'"
  shows "arena_inv base bytes s'"
proof -
  have k: "k < length (sb_others s)" and s': "s' = s\<lparr>sb_orch := leave_arena (sb_orch s), sb_others := take k (sb_others s) @ drop (Suc k) (sb_others s)\<rparr>"
    using assms(2) by (auto simp: other_leave_def split: if_splits)
  have "held s' \<subseteq># held s" using blocks_nth [OF k] by (simp add: held_def s')
  moreover have "Suc (length (sb_others s')) = length (sb_others s)" using k by (simp add: s')
  ultimately show ?thesis using assms(1) apart_mono s' by (fastforce simp: arena_inv_def leave_arena_def)
qed

lemma job_step_arena:
  assumes "job_step pb i env s = Some s'" "arena_inv base bytes s" "request_ok bytes (memory_bytes (j_profile (sb_jobs s ! i))) max_align"
  shows "arena_inv base bytes s'"
  using assms(1)
proof (cases rule: job_step_cases)
  case enter
  then show ?thesis using enter_step_arena [OF assms(2,3) enter(1)] by (auto simp: in_arena_def)
next
  case (answer target out)
  show ?thesis
    by (rule arena_inv_no_block [OF assms(2) answer(1), where j' = "(sb_jobs s ! i)\<lparr>j_pc := Answered out\<rparr>"]) (use answer in \<open>auto simp: in_arena_def\<close>)
next
  case (answered out)
  show ?thesis
  proof (cases "transport_ok out")
    case True
    show ?thesis
      by (rule arena_inv_no_block [OF assms(2) answered(1), where j' = "(sb_jobs s ! i)\<lparr>j_pc := Counting (task_ok out)\<rparr>"])
        (use answered True in \<open>auto simp: in_arena_def answered_step_fields\<close>)
  next
    case False
    show ?thesis
      by (rule arena_inv_no_block [OF assms(2) answered(1), where j' = "(sb_jobs s ! i)\<lparr>j_pc := FellBack, j_fell_back := True\<rparr>"])
        (use answered False in \<open>auto simp: in_arena_def answered_step_fields\<close>)
  qed
next
  case (leave mem r)
  have held: "in_arena (sb_jobs s ! i)" using leave(2) by (simp add: in_arena_def)
  then have "0 < tally in_arena s" using leave(1) nth_mem [OF leave(1)] by (auto simp: filter_empty_conv)
  then have "0 < o_readers (sb_orch s)" using assms(2) by (simp add: arena_inv_def)
  then show ?thesis
    by (intro arena_inv_no_block [OF assms(2) leave(1), where j' = "(sb_jobs s ! i)\<lparr>j_pc := Ran r\<rparr>"])
      (use leave held in \<open>auto simp: in_arena_def leave_arena_def\<close>)
next
  case (ran r f)
  show ?thesis
    by (rule arena_inv_no_block [OF assms(2) ran(1), where j' = "(sb_jobs s ! i)\<lparr>j_pc := Counting (final_state r = Completed)\<rparr>"])
      (use ran in \<open>auto simp: in_arena_def\<close>)
next
  case (count ok)
  show ?thesis
    by (rule arena_inv_no_block [OF assms(2) count(1), where j' = "(sb_jobs s ! i)\<lparr>j_pc := JobDone ok\<rparr>"]) (use count in \<open>auto simp: in_arena_def\<close>)
qed

lemma reset_arena_inv:
  assumes "arena_inv base bytes s"
  shows "arena_inv base bytes (s\<lparr>sb_orch := try_reset_arena lucky (sb_orch s)\<rparr>)"
proof (cases "lucky \<and> o_readers (sb_orch s) = 0")
  case True
  then have "tally in_arena s = 0" and others: "sb_others s = []" using assms by (simp_all add: arena_inv_def)
  then have "\<not> in_arena j" if "j \<in> set (sb_jobs s)" for j using that by (auto simp: filter_empty_conv)
  then have "live j = None" if "j \<in> set (sb_jobs s)" for j using that live_in_arena by (metis not_None_eq)
  then have "blocks (map live (sb_jobs s)) = {#}" by (intro blocks_none) auto
  then have "held (s\<lparr>sb_orch := try_reset_arena lucky (sb_orch s)\<rparr>) = {#}" using others by (simp add: held_def)
  then show ?thesis using assms True by (auto simp: arena_inv_def try_reset_arena_def pool_reset_def pool_inv_def)
qed (use assms in \<open>auto simp: arena_inv_def try_reset_arena_def held_def\<close>)

lemma submit_next_arena:
  assumes "submit_next d s = Some s'" "arena_inv base bytes s"
  shows "arena_inv base bytes s'"
  using assms(1)
proof (cases rule: submit_next_cases)
  case (skip x xs)
  then show ?thesis using assms(2) by (simp add: arena_inv_def held_def)
next
  case (job x xs t j)
  have "live j = None" "\<not> in_arena j" using job(7) by (simp_all add: live_def in_arena_def)
  then have "held s' = held s" "tally in_arena s' = tally in_arena s" by (simp_all add: held_def job(4,14) blocks_append)
  then show ?thesis using assms(2) by (simp add: arena_inv_def job(14-16))
qed

text \<open>What the requests of a run ask for: its tasks, and the tasks of other requests.\<close>

definition requests_ok :: "u64 \<Rightarrow> WorkloadDAG \<Rightarrow> sub_action list \<Rightarrow> bool" where
  "requests_ok bytes d as \<longleftrightarrow> (\<forall>t \<in> set (map snd (tasks d)). request_ok bytes (memory_bytes (t_profile t)) max_align) \<and>
     (\<forall>profile. OtherEnter profile \<in> set as \<longrightarrow> request_ok bytes (memory_bytes profile) max_align)"

lemma sub_step_arena:
  assumes "sub_step pb d a s = Some s'" "jobs_known d s" "requests_ok bytes d [a]" "arena_inv base bytes s"
  shows "arena_inv base bytes s'"
proof (cases a)
  case SubmitNext
  then show ?thesis using assms submit_next_arena by simp
next
  case (StartJob i)
  then have "start_job i s = Some s'" using assms(1) by simp
  then show ?thesis
  proof (cases rule: start_job_cases)
    case 1
    then show ?thesis by (intro arena_inv_no_block [OF assms(4) 1(1), where j' = "(sb_jobs s ! i)\<lparr>j_pc := Started\<rparr>"]) (auto simp: in_arena_def)
  qed
next
  case (JobStep i env)
  then have js: "job_step pb i env s = Some s'" using assms(1) by simp
  then have "i < length (sb_jobs s)" by (rule job_step_job)
  then have "\<exists>t. get_task d (j_task (sb_jobs s ! i)) = Some t \<and> j_profile (sb_jobs s ! i) = t_profile t" using assms(2) by (auto simp: jobs_known_def)
  then have "request_ok bytes (memory_bytes (j_profile (sb_jobs s ! i))) max_align"
    using assms(3) by (auto simp: requests_ok_def get_task_def dest!: map_of_SomeD)
  then show ?thesis by (rule job_step_arena [OF js assms(4)])
next
  case (OtherEnter profile)
  then show ?thesis using assms(1,3) other_enter_arena [OF assms(4)] by (auto simp: requests_ok_def)
next
  case (OtherLeave k)
  then show ?thesis using assms(1) other_leave_arena [OF assms(4)] by simp
next
  case (OtherReset lucky)
  then show ?thesis using assms(1) reset_arena_inv [OF assms(4)] by auto
qed

lemma run_jobs_arena:
  "run_jobs pb d as s = Some s' \<Longrightarrow> sub_inv s \<Longrightarrow> jobs_known d s \<Longrightarrow> requests_ok bytes d as \<Longrightarrow> arena_inv base bytes s \<Longrightarrow> arena_inv base bytes s'"
proof (induction as arbitrary: s)
  case (Cons a as)
  then obtain s1 where s1: "sub_step pb d a s = Some s1" "run_jobs pb d as s1 = Some s'" by (auto split: option.splits)
  have r: "requests_ok bytes d [a]" "requests_ok bytes d as" using Cons.prems(4) by (auto simp: requests_ok_def)
  show ?case
    using sub_step_inv [OF s1(1) Cons.prems(2)] Cons.prems(3) sub_step_arena [OF s1(1) Cons.prems(3) r(1) Cons.prems(5)] Cons.IH [OF s1(2) _ _ r(2)] by blast
qed simp

lemma submit_plan_arena: "pool_inv (o_arena s) \<Longrightarrow> arena_inv (o_readers s) (mp_capacity (o_arena s)) (submit_plan p s)"
  by (simp add: submit_plan_def arena_inv_def held_def)

text \<open>The block of a job, beside those of the others.\<close>

lemma held_job:
  assumes "i < length (sb_jobs s)" "live (sb_jobs s ! i) = Some b"
  shows "b \<in># held s" "k < length (sb_jobs s) \<Longrightarrow> k \<noteq> i \<Longrightarrow> live (sb_jobs s ! k) = Some c \<Longrightarrow> c \<in># held s - {#b#}"
    "Some c \<in> set (sb_others s) \<Longrightarrow> c \<in># held s - {#b#}"
proof -
  let ?js = "map live (sb_jobs s)" let ?rest = "take i ?js @ drop (Suc i) ?js"
  have i: "i < length ?js" using assms(1) by simp
  have mem: "Some c \<in> set xs \<Longrightarrow> c \<in># blocks xs" for c :: "u64 \<times> u64" and xs
    by (induction xs) auto
  have held: "held s = add_mset b (blocks ?rest + blocks (sb_others s))"
    using blocks_nth [OF i] assms by (simp add: held_def)
  then show "b \<in># held s" by simp
  show "c \<in># held s - {#b#}" if "k < length (sb_jobs s)" "k \<noteq> i" "live (sb_jobs s ! k) = Some c"
  proof -
    have "Some c \<in> set ?rest"
      using that by (cases "k < i") (force simp: in_set_conv_nth, force simp: in_set_conv_nth intro!: exI [of _ "k - Suc i"])
    then show ?thesis using mem [of c ?rest] by (simp add: held)
  qed
  show "c \<in># held s - {#b#}" if "Some c \<in> set (sb_others s)" using mem [OF that] by (simp add: held)
qed

section \<open>Progress\<close>

lemma task_result_returns:
  assumes "clock_ok env" "0 \<le> compute_cost profile"
  shows "\<exists>r. task_result (no_stop env) i profile mem = Some r \<and> (final_state r = Completed \<longleftrightarrow> mem \<noteq> None)"
proof -
  have "clock_ok (no_stop env)" using assms(1) by (simp add: clock_ok_def no_stop_def)
  from simulate_compute_returns [OF this assms(2)] show ?thesis
    by (cases mem) (auto simp: task_result_def no_stop_def)
qed

text \<open>An environment in which round trips come back, well or not, and the clock moves on.\<close>

definition answers :: "protobuf \<Rightarrow> JobEnv \<Rightarrow> bool" where
  "answers pb env \<longleftrightarrow> clock_ok (je_run env) \<and> (\<forall>c i p t. offload_to_peer pb (je_remote env) c i p t \<noteq> None)"

lemma job_step_defined:
  assumes "i < length (sb_jobs s)" "answers pb env" "0 \<le> compute_cost (j_profile (sb_jobs s ! i))" "j_pc (sb_jobs s ! i) \<noteq> Queued"
    "job_rank (j_pc (sb_jobs s ! i)) \<noteq> 0"
  shows "\<exists>s'. job_step pb i env s = Some s'"
proof (cases "j_pc (sb_jobs s ! i)")
  case (InArena mem)
  then show ?thesis
    using assms task_result_returns [of "je_run env" "j_profile (sb_jobs s ! i)" "j_task (sb_jobs s ! i)" mem]
    by (auto simp: job_step_def answers_def)
next
  case Started
  show ?thesis
  proof (cases "j_target (sb_jobs s ! i)")
    case (Some target)
    obtain out t where "offload_to_peer pb (je_remote env) (w_cluster (o_world (sb_orch s))) (j_task (sb_jobs s ! i)) (j_profile (sb_jobs s ! i)) target = Some (out, t)"
      using assms(2) by (fastforce simp: answers_def)
    then show ?thesis using assms(1) Started Some by (simp add: job_step_def)
  qed (use assms(1) Started in \<open>simp add: job_step_def\<close>)
qed (use assms in \<open>simp_all add: job_step_def\<close>)

lemma job_finishes:
  assumes "i < length (sb_jobs s)" "answers pb env" "0 \<le> compute_cost (j_profile (sb_jobs s ! i))" "j_pc (sb_jobs s ! i) \<noteq> Queued"
  shows "\<exists>n s' j'. n \<le> 6 \<and> run_jobs pb d (replicate n (JobStep i env)) s = Some s' \<and> sb_jobs s' = (sb_jobs s)[i := j'] \<and>
    job_rank (j_pc j') = 0 \<and> j_profile j' = j_profile (sb_jobs s ! i) \<and> sb_todo s' = sb_todo s"
proof -
  have "\<exists>n s' j'. n \<le> job_rank (j_pc (sb_jobs s ! i)) \<and> run_jobs pb d (replicate n (JobStep i env)) s = Some s' \<and> sb_jobs s' = (sb_jobs s)[i := j'] \<and>
      job_rank (j_pc j') = 0 \<and> j_profile j' = j_profile (sb_jobs s ! i) \<and> sb_todo s' = sb_todo s"
    using assms
  proof (induction "job_rank (j_pc (sb_jobs s ! i))" arbitrary: s rule: less_induct)
    case less
    show ?case
    proof (cases "job_rank (j_pc (sb_jobs s ! i)) = 0")
      case True
      then show ?thesis by (intro exI [of _ 0] exI [of _ s] exI [of _ "sb_jobs s ! i"]) simp
    next
      case False
      obtain s1 where s1: "job_step pb i env s = Some s1" using job_step_defined [OF less.prems False] by blast
      then obtain j1 where j1: "sb_jobs s1 = (sb_jobs s)[i := j1]" "j_profile j1 = j_profile (sb_jobs s ! i)"
        "job_rank (j_pc j1) < job_rank (j_pc (sb_jobs s ! i))" "job_rank (j_pc j1) < 6" "sb_todo s1 = sb_todo s"
        by (rule job_step_job) blast
      have "j_pc j1 \<noteq> Queued" using j1(4) by auto
      then obtain n s' j' where r: "n \<le> job_rank (j_pc j1)" "run_jobs pb d (replicate n (JobStep i env)) s1 = Some s'" "sb_jobs s' = (sb_jobs s1)[i := j']"
        "job_rank (j_pc j') = 0" "j_profile j' = j_profile j1" "sb_todo s' = sb_todo s1"
        using less.hyps [of s1] less.prems j1 by auto
      show ?thesis
        by (intro exI [of _ "Suc n"] exI [of _ s'] exI [of _ j']) (use r j1 s1 in auto)
    qed
  qed
  moreover have "job_rank pc \<le> 6" if "pc \<noteq> Queued" for pc using that by (cases pc) simp_all
  ultimately show ?thesis using assms(4) by (meson order_trans)
qed

lemma run_jobs_append: "run_jobs pb d (as @ bs) s = (case run_jobs pb d as s of None \<Rightarrow> None | Some s' \<Rightarrow> run_jobs pb d bs s')"
  by (induction as arbitrary: s) (simp_all split: option.splits)

definition all_started :: "'m Submitted \<Rightarrow> bool" where
  "all_started s \<longleftrightarrow> sb_todo s = [] \<and> list_all (\<lambda>j. j_pc j \<noteq> Queued) (sb_jobs s)"

lemma jobs_finish:
  assumes "answers pb env" "list_all (\<lambda>j. 0 \<le> compute_cost (j_profile j)) (sb_jobs s)" "all_started s"
  shows "\<exists>as s'. length as \<le> 6 * length (sb_jobs s) \<and> run_jobs pb d as s = Some s' \<and> list_all (\<lambda>j. job_rank (j_pc j) = 0) (sb_jobs s') \<and>
    sb_todo s' = []"
proof -
  have "\<exists>as s'. length as \<le> 6 * m \<and> run_jobs pb d as s = Some s' \<and> length (sb_jobs s') = length (sb_jobs s) \<and> all_started s' \<and>
      list_all (\<lambda>j. 0 \<le> compute_cost (j_profile j)) (sb_jobs s') \<and> (\<forall>i < m. job_rank (j_pc (sb_jobs s' ! i)) = 0)" if "m \<le> length (sb_jobs s)" for m
    using that
  proof (induction m)
    case 0
    then show ?case using assms(2,3) by (intro exI [of _ "[]"] exI [of _ s]) simp
  next
    case (Suc m)
    then obtain as s1 where a: "length as \<le> 6 * m" "run_jobs pb d as s = Some s1" "length (sb_jobs s1) = length (sb_jobs s)" "all_started s1"
      "list_all (\<lambda>j. 0 \<le> compute_cost (j_profile j)) (sb_jobs s1)" "\<forall>i < m. job_rank (j_pc (sb_jobs s1 ! i)) = 0" by auto
    have m: "m < length (sb_jobs s1)" using a(3) Suc.prems by simp
    then have "0 \<le> compute_cost (j_profile (sb_jobs s1 ! m))" "j_pc (sb_jobs s1 ! m) \<noteq> Queued" using a(4,5) by (simp_all add: list_all_length all_started_def)
    from job_finishes [OF m assms(1) this] obtain n s2 j' where r: "n \<le> 6" "run_jobs pb d (replicate n (JobStep m env)) s1 = Some s2"
      "sb_jobs s2 = (sb_jobs s1)[m := j']" "job_rank (j_pc j') = 0" "j_profile j' = j_profile (sb_jobs s1 ! m)" "sb_todo s2 = sb_todo s1" by blast
    have "j_pc j' \<noteq> Queued" using r(4) by auto
    then have "list_all (\<lambda>j. 0 \<le> compute_cost (j_profile j)) (sb_jobs s2)" "\<forall>i < Suc m. job_rank (j_pc (sb_jobs s2 ! i)) = 0" "all_started s2"
      using a(4-6) r(3-6) m by (auto simp: list_all_length nth_list_update less_Suc_eq all_started_def)
    then show ?case
      by (intro exI [of _ "as @ replicate n (JobStep m env)"] exI [of _ s2]) (use a r in \<open>auto simp: run_jobs_append\<close>)
  qed
  from this [of "length (sb_jobs s)"] show ?thesis by (auto simp: list_all_length all_started_def)
qed

text \<open>A pool that takes the jobs: from every state there is a run that submits and starts them all.\<close>

lemma start_some:
  assumes "\<not> all_started s"
  shows "\<exists>a s'. sub_step pb d a s = Some s' \<and>
    2 * length (sb_todo s') + tally (\<lambda>j. j_pc j = Queued) s' < 2 * length (sb_todo s) + tally (\<lambda>j. j_pc j = Queued) s"
proof (cases "sb_todo s = []")
  case False
  then obtain s' where s': "submit_next d s = Some s'" by (auto simp: submit_next_def neq_Nil_conv)
  then have "2 * length (sb_todo s') + tally (\<lambda>j. j_pc j = Queued) s' < 2 * length (sb_todo s) + tally (\<lambda>j. j_pc j = Queued) s"
    by (cases rule: submit_next_cases) simp_all
  then show ?thesis using s' by (metis sub_step.simps(1))
next
  case True
  then obtain i where i: "i < length (sb_jobs s)" "j_pc (sb_jobs s ! i) = Queued" using assms by (auto simp: all_started_def list_all_length)
  then have "start_job i s = Some (set_job i Started s)" by (simp add: start_job_def)
  moreover have "tally (\<lambda>j. j_pc j = Queued) (set_job i Started s) < tally (\<lambda>j. j_pc j = Queued) s"
    using length_filter_update [OF i(1), of "\<lambda>j. j_pc j = Queued" "(sb_jobs s ! i)\<lparr>j_pc := Started\<rparr>"] i(2) by simp
  ultimately show ?thesis by (intro exI [of _ "StartJob i"] exI [of _ "set_job i Started s"]) simp
qed

lemma jobs_start: "\<exists>as s'. run_jobs pb d as s = Some s' \<and> all_started s'"
proof (induction "2 * length (sb_todo s) + tally (\<lambda>j. j_pc j = Queued) s" arbitrary: s rule: less_induct)
  case less
  show ?case
  proof (cases "all_started s")
    case True
    then show ?thesis by (intro exI [of _ "[]"]) simp
  next
    case False
    then obtain a s1 where a: "sub_step pb d a s = Some s1"
      "2 * length (sb_todo s1) + tally (\<lambda>j. j_pc j = Queued) s1 < 2 * length (sb_todo s) + tally (\<lambda>j. j_pc j = Queued) s"
      using start_some by blast
    obtain as s' where "run_jobs pb d as s1 = Some s'" "all_started s'" using less [OF a(2)] by blast
    then show ?thesis using a(1) by (intro exI [of _ "a # as"]) simp
  qed
qed

section \<open>The result\<close>

lemma submit_workload_books:
  assumes "env_ok (sv_sched env)" "dag_inv d" "closed_dag d" "acyclic (edges d)" "task_count d < 2 ^ 63"
    and "submit_workload ops pb env d s = Some (Inr r, s')"
  shows "distinct (map d_task_id (decisions (plan r))) \<and> d_task_id ` set (decisions (plan r)) = task_ids d \<and>
    unat (local_tasks r) + unat (offloaded_tasks r) = task_count d \<and>
    unat (completed_tasks r) + unat (failed_tasks r) \<le> task_count d \<and>
    (sv_deadline env \<or> unat (completed_tasks r) + unat (failed_tasks r) = task_count d) \<and>
    unat (offload_fallbacks r) \<le> unat (offloaded_tasks r)"
proof -
  obtain snap m view s2 where c: "create_policy (o_config s) (sv_sched env) d snap view = Some (plan r)"
    and run: "run_jobs pb d (sv_actions env) (submit_plan (plan r) (s\<lparr>o_monitor := m, o_discovery := update_local_resources snap (o_discovery s)\<rparr>)) = Some s2"
    and fin: "finish_submission (sv_deadline env) (sv_lucky env) (sv_elapsed env) (plan r) s2 = Some (r, s')"
    using assms(6) by (rule submit_workload_cases)
  note all = configured.all_tasks [OF assms(1-4) c]
  have tasks: "get_task d (d_task_id x) \<noteq> None" if "x \<in> set (decisions (plan r))" for x
    using all(1) that by (auto simp: get_task_def map_of_None_keys)
  have todo: "sb_todo s2 = []" using finish_submission_fields [OF fin] by blast
  have "pending_ok d (submit_plan (plan r) u)" for u :: "'a Orchestrator" by (rule submit_plan_pending) (rule tasks)
  then have len: "length (sb_jobs s2) = task_count d" and inv: "sub_inv s2"
    using run_jobs_inv [OF run submit_plan_start(1)] all_submitted [OF todo] all(2) by simp_all
  have r: "local_tasks r = sb_local s2" "offloaded_tasks r = sb_offloaded s2" "completed_tasks r = sb_completed s2"
    "failed_tasks r = sb_failed s2" "offload_fallbacks r = sb_fallbacks s2"
    "sb_completed s2 + sb_failed s2 < of_nat (length (decisions (plan r))) \<Longrightarrow> sv_deadline env"
    using finish_submission_fields [OF fin] by blast+
  have un: "unat (of_nat (length (filter P (sb_jobs s2))) :: u64) = length (filter P (sb_jobs s2))" for P
    using tally_le [of P "sb_jobs s2"] len assms(5) by (simp add: unat_of_nat)
  have cnt: "unat (local_tasks r) = tally (\<lambda>j. j_target j = None) s2" "unat (offloaded_tasks r) = tally (\<lambda>j. j_target j \<noteq> None) s2"
    "unat (completed_tasks r) = tally (\<lambda>j. j_pc j = JobDone True) s2" "unat (failed_tasks r) = tally (\<lambda>j. j_pc j = JobDone False) s2"
    "unat (offload_fallbacks r) = tally j_fell_back s2"
    using inv by (simp_all only: r sub_inv_def un)
  have two: "unat (completed_tasks r) + unat (failed_tasks r) \<le> task_count d" using tally_two [of "sb_jobs s2"] cnt len by simp
  then have "unat (completed_tasks r + failed_tasks r) = unat (completed_tasks r) + unat (failed_tasks r)"
    using assms(5) by (intro unat_add_lem [THEN iffD1]) simp
  moreover have "unat (of_nat (length (decisions (plan r))) :: u64) = task_count d" using all(2) assms(5) by (simp add: unat_of_nat)
  ultimately have "sv_deadline env \<or> task_count d \<le> unat (completed_tasks r) + unat (failed_tasks r)"
    using r(3,4,6) by (auto simp: word_less_nat_alt not_less)
  then have "sv_deadline env \<or> unat (completed_tasks r) + unat (failed_tasks r) = task_count d" using two by linarith
  moreover have "unat (local_tasks r) + unat (offloaded_tasks r) = task_count d"
    unfolding cnt tally_targets by (rule len)
  moreover have "unat (offload_fallbacks r) \<le> unat (offloaded_tasks r)"
    unfolding cnt using inv by (intro tally_fallbacks) (simp add: sub_inv_def)
  ultimately show ?thesis using configured.once_each [OF assms(1-3) c] all(1) two by blast
qed

lemma all_done_counted:
  assumes "sub_inv s" "list_all (\<lambda>j. job_rank (j_pc j) = 0) (sb_jobs s)"
  shows "sb_completed s + sb_failed s = of_nat (length (sb_jobs s))"
proof -
  have len: "length (filter (\<lambda>j. j_pc j = JobDone True) js) + length (filter (\<lambda>j. j_pc j = JobDone False) js) = length js"
    if "list_all (\<lambda>j. job_rank (j_pc j) = 0) js" for js
    using that
  proof (induction js)
    case (Cons j js)
    then show ?case by (cases "j_pc j") auto
  qed simp
  have "sb_completed s + sb_failed s = of_nat (tally (\<lambda>j. j_pc j = JobDone True) s + tally (\<lambda>j. j_pc j = JobDone False) s)"
    using assms(1) unfolding sub_inv_def of_nat_add by (elim conjE) (simp only:)
  then show ?thesis unfolding len [OF assms(2)] .
qed

lemma submission_returns:
  assumes "mo_read ops (sv_now env) (o_monitor s) = (Inr snap, m)"
    and "create_policy (o_config s) (sv_sched env) d snap (cm_snapshot (sv_peer_order env) (w_cluster (o_world s))) = Some p"
    and "env_ok (sv_sched env)" "dag_inv d" "closed_dag d" "acyclic (edges d)" "\<forall>t \<in> set (map snd (tasks d)). 0 \<le> compute_cost (t_profile t)"
    and "answers pb jenv"
    and "run_jobs pb d before (submit_plan p (s\<lparr>o_monitor := m, o_discovery := update_local_resources snap (o_discovery s)\<rparr>)) = Some u"
    and "all_started u"
  shows "\<exists>as r s'. length as \<le> 6 * task_count d \<and> submit_workload ops pb (env\<lparr>sv_actions := before @ as, sv_deadline := False\<rparr>) d s = Some (Inr r, s')"
proof -
  let ?s = "s\<lparr>o_monitor := m, o_discovery := update_local_resources snap (o_discovery s)\<rparr>" let ?u = "submit_plan p ?s"
  note all = configured.all_tasks [OF assms(3-6,2)]
  have "get_task d (d_task_id x) \<noteq> None" if "x \<in> set (decisions p)" for x using all(1) that by (auto simp: get_task_def map_of_None_keys)
  note sp = submit_plan_pending [OF this, where s = ?s]
  have u: "sub_inv u" "planned u = map d_task_id (decisions p)" "pending_ok d u" "jobs_known d u"
    using run_jobs_inv [OF assms(9) submit_plan_start(1)] sp by simp_all
  have len: "length (sb_jobs u) = length (decisions p)" using all_submitted [of u] assms(10) u(2) by (simp add: all_started_def)
  have "0 \<le> compute_cost (j_profile j)" if "j \<in> set (sb_jobs u)" for j
    using u(4) that assms(7) by (fastforce simp: jobs_known_def get_task_def dest!: map_of_SomeD)
  then have cost: "list_all (\<lambda>j. 0 \<le> compute_cost (j_profile j)) (sb_jobs u)" by (simp add: list_all_iff)
  obtain as s2 where r: "length as \<le> 6 * length (sb_jobs u)" "run_jobs pb d as u = Some s2" "list_all (\<lambda>j. job_rank (j_pc j) = 0) (sb_jobs s2)" "sb_todo s2 = []"
    using jobs_finish [OF assms(8) cost assms(10)] by blast
  have "sub_inv s2" "length (sb_jobs s2) = length (decisions p)"
    using run_jobs_inv [OF r(2) u(1)] u(2,3) all_submitted [OF r(4)] by simp_all
  then have "sb_completed s2 + sb_failed s2 = of_nat (length (decisions p))"
    using all_done_counted [OF _ r(3)] by simp
  then obtain res s3 where "finish_submission False (sv_lucky env) (sv_elapsed env) p s2 = Some (res, s3)"
    using r(4) by (auto simp: finish_submission_def Let_def)
  then have "submit_workload ops pb (env\<lparr>sv_actions := before @ as, sv_deadline := False\<rparr>) d s = Some (Inr res, s3)"
    using assms(1,2,9) r(2) by (simp add: submit_workload_def run_jobs_append Let_def)
  then show ?thesis using r(1) len all(2) by metis
qed

section \<open>Samples\<close>

definition mock_ops :: "MockMonitor MonitorOps" where
  "mock_ops = \<lparr>mo_new = (\<lambda>i _. new_mock_monitor i), mo_start = Some, mo_stop = (\<lambda>m. m), mo_read = mock_read\<rparr>"

definition sample_orch :: "MockMonitor Orchestrator" where
  "sample_orch = new_orchestrator mock_ops default_config NullSink LInfo None 4 3 4"

definition refusing :: RemoteEnv where
  "refusing = \<lparr>rm_connect = \<lparr>ca_socket = Inr 9, ca_address_ok = True, ca_connect = CFailed ''Connection refused'', ca_poll_ready = False, ca_so_error = None\<rparr>,
     rm_sends = [], rm_recvs = [], rm_peer = (\<lambda>_. [])\<rparr>"

definition sample_job_env :: JobEnv where
  "sample_job_env = \<lparr>je_now = 0, je_run = sample_run_env, je_remote = refusing\<rparr>"

lemma refusing_breaks: "\<exists>e t. offload_to_peer pb refusing c i p target = Some (broken e, t)"
  by (auto simp: offload_to_peer_def refusing_def transport_connect_def new_transport_def Let_def split: option.splits)

lemma sample_job_env_answers: "answers pb sample_job_env"
  using refusing_breaks [of pb] sample_run_env_ok(1) by (fastforce simp: answers_def sample_job_env_def)

definition sample_submit :: SubmitEnv where
  "sample_submit = \<lparr>sv_now = 0, sv_sched = sample_env, sv_peer_order = rev, sv_actions = [], sv_deadline = False, sv_lucky = True, sv_elapsed = 7\<rparr>"

lemma sample_submission_facts:
  obtains snap m p where "mo_read mock_ops (sv_now sample_submit) (o_monitor sample_orch) = (Inr snap, m)"
    "create_policy (o_config sample_orch) (sv_sched sample_submit) sample_dag snap
      (cm_snapshot (sv_peer_order sample_submit) (w_cluster (o_world sample_orch))) = Some p"
    "env_ok (sv_sched sample_submit)" "\<forall>t \<in> set (map snd (tasks sample_dag)). 0 \<le> compute_cost (t_profile t)"
proof -
  obtain snap m where read: "mo_read mock_ops (sv_now sample_submit) (o_monitor sample_orch) = (Inr snap, m)"
    by (simp add: mock_ops_def sample_orch_def new_orchestrator_def new_mock_monitor_def mock_read_def Let_def)
  have "policy (cf_scheduler (o_config sample_orch)) = ''greedy''" by (simp add: sample_orch_def new_orchestrator_def default_config_def)
  then have p: "create_policy (o_config sample_orch) (sv_sched sample_submit) sample_dag snap
      (cm_snapshot (sv_peer_order sample_submit) (w_cluster (o_world sample_orch))) = Some (greedy_schedule (sv_sched sample_submit) sample_dag snap
      (cm_snapshot (sv_peer_order sample_submit) (w_cluster (o_world sample_orch))))"
    by (simp add: create_policy_def)
  have c: "\<forall>t \<in> set (map snd (tasks sample_dag)). 0 \<le> compute_cost (t_profile t)" by code_simp
  have "env_ok (sv_sched sample_submit)" using sample_env_ok by (simp add: sample_submit_def)
  from that [OF read p this c] show ?thesis .
qed

lemma sample_submission:
  "\<exists>as r s'. submit_workload mock_ops pb (sample_submit\<lparr>sv_actions := as, sv_deadline := False\<rparr>) sample_dag sample_orch = Some (Inr r, s')"
proof -
  obtain snap m p where "mo_read mock_ops (sv_now sample_submit) (o_monitor sample_orch) = (Inr snap, m)"
    "create_policy (o_config sample_orch) (sv_sched sample_submit) sample_dag snap
      (cm_snapshot (sv_peer_order sample_submit) (w_cluster (o_world sample_orch))) = Some p"
    "env_ok (sv_sched sample_submit)" "\<forall>t \<in> set (map snd (tasks sample_dag)). 0 \<le> compute_cost (t_profile t)"
    by (rule sample_submission_facts)
  note h = this
  let ?s = "sample_orch\<lparr>o_monitor := m, o_discovery := update_local_resources snap (o_discovery sample_orch)\<rparr>"
  obtain before u where u: "run_jobs pb sample_dag before (submit_plan p ?s) = Some u" "all_started u" using jobs_start by blast
  from submission_returns [OF h(1-3) sample_dag_ok sample_dag_acyclic h(4) sample_job_env_answers u] show ?thesis by blast
qed

section \<open>Properties\<close>

text \<open>
  C1. The result of a submission adds up. For a valid acyclic graph, whichever policy is configured and
  however the jobs interleave, the plan has one decision per task; every task is counted as local or
  offloaded; the counts of completed and failed tasks never exceed the tasks and account for all of
  them unless the deadline cut the wait short; and only offloaded tasks fall back.
\<close>

theorem workload_accounting:
  assumes "env_ok (sv_sched env)" "dag_inv d" "closed_dag d" "acyclic (edges d)" "task_count d < 2 ^ 63"
    and "submit_workload ops pb env d s = Some (Inr r, s')"
  shows "distinct (map d_task_id (decisions (plan r))) \<and> d_task_id ` set (decisions (plan r)) = task_ids d \<and>
    unat (local_tasks r) + unat (offloaded_tasks r) = task_count d \<and>
    unat (completed_tasks r) + unat (failed_tasks r) \<le> task_count d \<and>
    (sv_deadline env \<or> unat (completed_tasks r) + unat (failed_tasks r) = task_count d) \<and>
    unat (offload_fallbacks r) \<le> unat (offloaded_tasks r)"
  using assms by (rule submit_workload_books)

theorem workload_accounting_witness:
  "\<exists>as r s'. submit_workload mock_ops (listed_protobuf []) (sample_submit\<lparr>sv_actions := as, sv_deadline := False\<rparr>) sample_dag sample_orch = Some (Inr r, s') \<and>
     unat (completed_tasks r) + unat (failed_tasks r) = task_count sample_dag"
proof -
  obtain as r s' where r: "submit_workload mock_ops (listed_protobuf []) (sample_submit\<lparr>sv_actions := as, sv_deadline := False\<rparr>) sample_dag sample_orch = Some (Inr r, s')"
    using sample_submission by blast
  have "env_ok (sv_sched (sample_submit\<lparr>sv_actions := as, sv_deadline := False\<rparr>))" using sample_env_ok by (simp add: sample_submit_def)
  moreover have "task_count sample_dag = 4" by code_simp
  ultimately show ?thesis using workload_accounting [OF _ sample_dag_ok sample_dag_acyclic _ r] r by auto
qed

text \<open>
  C2. No job that a worker has taken gets stuck. If the monitor has a reading and the policy a plan, and
  round trips come back one way or the other, then whatever interleaving of the loop, the workers,
  the jobs and the tasks of other requests has brought the submission to a state in which the loop
  has handed over every decision and the pool has started every job, however far each of them has
  come, a run of at most six further steps per task exists after which the wait is over without the
  deadline, and every task is counted as completed or failed. That the pool starts every job is a
  hypothesis: a wake-up of the pool can be lost, and a job left in its queue is not counted.
\<close>

theorem submission_completes:
  assumes "mo_read ops (sv_now env) (o_monitor s) = (Inr snap, m)"
    and "create_policy (o_config s) (sv_sched env) d snap (cm_snapshot (sv_peer_order env) (w_cluster (o_world s))) = Some p"
    and "env_ok (sv_sched env)" "dag_inv d" "closed_dag d" "acyclic (edges d)" "\<forall>t \<in> set (map snd (tasks d)). 0 \<le> compute_cost (t_profile t)"
    and "answers pb jenv"
    and "run_jobs pb d before (submit_plan p (s\<lparr>o_monitor := m, o_discovery := update_local_resources snap (o_discovery s)\<rparr>)) = Some u"
    and "sb_todo u = []" "\<forall>j \<in> set (sb_jobs u). j_pc j \<noteq> Queued"
    and "task_count d < 2 ^ 63"
  shows "\<exists>as r s'. length as \<le> 6 * task_count d \<and>
    submit_workload ops pb (env\<lparr>sv_actions := before @ as, sv_deadline := False\<rparr>) d s = Some (Inr r, s') \<and>
    unat (completed_tasks r) + unat (failed_tasks r) = task_count d"
proof -
  have "all_started u" using assms(10,11) by (simp add: all_started_def list_all_iff)
  then obtain as r s' where r: "length as \<le> 6 * task_count d"
    "submit_workload ops pb (env\<lparr>sv_actions := before @ as, sv_deadline := False\<rparr>) d s = Some (Inr r, s')"
    using submission_returns [OF assms(1-9)] by blast
  have "env_ok (sv_sched (env\<lparr>sv_actions := before @ as, sv_deadline := False\<rparr>))" using assms(3) by simp
  from submit_workload_books [OF this assms(4-6,12) r(2)] show ?thesis using r by auto
qed

theorem submission_completes_witness:
  "\<exists>before as r s'. length as \<le> 24 \<and>
     submit_workload mock_ops (listed_protobuf []) (sample_submit\<lparr>sv_actions := before @ as, sv_deadline := False\<rparr>) sample_dag sample_orch = Some (Inr r, s') \<and>
     unat (completed_tasks r) + unat (failed_tasks r) = 4"
proof -
  obtain snap m p where h: "mo_read mock_ops (sv_now sample_submit) (o_monitor sample_orch) = (Inr snap, m)"
    "create_policy (o_config sample_orch) (sv_sched sample_submit) sample_dag snap
      (cm_snapshot (sv_peer_order sample_submit) (w_cluster (o_world sample_orch))) = Some p"
    "env_ok (sv_sched sample_submit)" "\<forall>t \<in> set (map snd (tasks sample_dag)). 0 \<le> compute_cost (t_profile t)"
    by (rule sample_submission_facts)
  let ?s = "sample_orch\<lparr>o_monitor := m, o_discovery := update_local_resources snap (o_discovery sample_orch)\<rparr>"
  obtain before u where u: "run_jobs (listed_protobuf []) sample_dag before (submit_plan p ?s) = Some u" "all_started u" using jobs_start by blast
  have st: "sb_todo u = []" "\<forall>j \<in> set (sb_jobs u). j_pc j \<noteq> Queued" using u(2) by (simp_all add: all_started_def list_all_iff)
  have "task_count sample_dag = 4" by code_simp
  then show ?thesis
    using submission_completes [OF h(1-3) sample_dag_ok sample_dag_acyclic h(4) sample_job_env_answers u(1) st] by auto
qed

text \<open>
  C3. A broken round trip does not lose the task. When a worker takes a job whose offload comes back
  without an answer of the peer, whatever the reason, the job's steps count a fallback and run the
  task locally; it counts as completed if the arena has room for it, and as failed otherwise.
\<close>

theorem broken_offload_runs_locally:
  assumes "i < length (sb_jobs s)" "sb_jobs s ! i = j" "j_pc j = Queued" "j_target j = Some target"
    and "offload_to_peer pb (je_remote env) (w_cluster (o_world (sb_orch s))) (j_task j) (j_profile j) target = Some (out, t)" "\<not> transport_ok out"
    and "clock_ok (je_run env)" "0 \<le> compute_cost (j_profile j)"
    and "allocate (memory_bytes (j_profile j)) max_align (o_arena (sb_orch s)) = (mem, arena)"
  shows "\<exists>s'. run_jobs pb d (StartJob i # replicate 6 (JobStep i env)) s = Some s' \<and>
    sb_jobs s' = (sb_jobs s)[i := j\<lparr>j_fell_back := True, j_pc := JobDone (mem \<noteq> None)\<rparr>] \<and> o_arena (sb_orch s') = arena \<and>
    sb_fallbacks s' = sb_fallbacks s + 1 \<and> sb_completed s' = sb_completed s + of_bool (mem \<noteq> None) \<and> sb_failed s' = sb_failed s + of_bool (mem = None)"
proof -
  obtain r where r: "task_result (no_stop (je_run env)) (j_task j) (j_profile j) mem = Some r" "final_state r = Completed \<longleftrightarrow> mem \<noteq> None"
    using task_result_returns [OF assms(7,8), of "j_task j" mem] by blast
  define s0 where "s0 = set_job i Started s"
  define s1 where "s1 = set_job i (Answered out) s0"
  define s2 where "s2 = answered_step (je_now env) i (sb_jobs s1 ! i) out s1"
  define s3 where "s3 = enter_step i (sb_jobs s2 ! i) s2"
  define s4 where "s4 = set_job i (Ran r) (s3\<lparr>sb_orch := leave_arena (sb_orch s3)\<rparr>)"
  define s5 where "s5 = set_job i (Counting (final_state r = Completed)) (in_world (w_record (record_task_event (j_task j) (final_state r) (actual_duration r))) s4)"
  define s6 where "s6 = count_step i (final_state r = Completed) s5"
  have j0: "sb_jobs s0 = (sb_jobs s)[i := j\<lparr>j_pc := Started\<rparr>]" "sb_orch s0 = sb_orch s" by (simp_all add: s0_def assms(2))
  have j1: "sb_jobs s1 = (sb_jobs s)[i := j\<lparr>j_pc := Answered out\<rparr>]" using assms(1) by (simp add: s1_def j0)
  have j2: "sb_jobs s2 = (sb_jobs s)[i := j\<lparr>j_pc := FellBack, j_fell_back := True\<rparr>]"
    using assms(1,6) by (simp add: s2_def answered_step_fields j1)
  have a2: "o_arena (sb_orch s2) = o_arena (sb_orch s)" by (simp add: s2_def s1_def s0_def answered_step_fields)
  have e: "fst (enter_arena (j_profile j) (sb_orch s2)) = mem" "o_arena (snd (enter_arena (j_profile j) (sb_orch s2))) = arena"
    by (simp_all add: enter_arena_def a2 assms(9))
  have j3: "sb_jobs s3 = (sb_jobs s)[i := j\<lparr>j_fell_back := True, j_pc := InArena mem\<rparr>]" "o_arena (sb_orch s3) = arena"
    using assms(1) e by (simp_all add: s3_def j2)
  have j4: "sb_jobs s4 = (sb_jobs s)[i := j\<lparr>j_fell_back := True, j_pc := Ran r\<rparr>]" using assms(1) by (simp add: s4_def j3)
  have j5: "sb_jobs s5 = (sb_jobs s)[i := j\<lparr>j_fell_back := True, j_pc := Counting (mem \<noteq> None)\<rparr>]" using assms(1) r(2) by (simp add: s5_def j4)
  have "start_job i s = Some s0" using assms(1-3) by (simp add: start_job_def s0_def)
  moreover have "job_step pb i env s0 = Some s1" using assms(1,4,5) by (simp add: job_step_def j0 s1_def)
  moreover have "job_step pb i env s1 = Some s2" using assms(1) by (simp add: job_step_def j1 s2_def)
  moreover have "job_step pb i env s2 = Some s3" using assms(1) by (simp add: job_step_def j2 s3_def)
  moreover have "job_step pb i env s3 = Some s4" using assms(1) r(1) by (simp add: job_step_def j3 s4_def)
  moreover have "job_step pb i env s4 = Some s5" using assms(1) by (simp add: job_step_def j4 s5_def)
  moreover have "job_step pb i env s5 = Some s6" using assms(1) r(2) by (simp add: job_step_def j5 s6_def)
  ultimately have "run_jobs pb d (StartJob i # replicate 6 (JobStep i env)) s = Some s6" by (simp add: numeral_eq_Suc)
  moreover have "sb_jobs s6 = (sb_jobs s)[i := j\<lparr>j_fell_back := True, j_pc := JobDone (mem \<noteq> None)\<rparr>]"
    using assms(1) r(2) by (simp add: s6_def j5)
  moreover have "sb_fallbacks s6 = sb_fallbacks s + 1" "sb_completed s6 = sb_completed s + of_bool (mem \<noteq> None)"
    "sb_failed s6 = sb_failed s + of_bool (mem = None)" "o_arena (sb_orch s6) = arena"
    using assms(6) r(2) j3(2) by (simp_all add: s6_def s5_def s4_def s3_def s2_def s1_def s0_def answered_step_fields leave_arena_def)
  ultimately show ?thesis by blast
qed

definition sample_remote :: "MockMonitor Submitted" where
  "sample_remote = \<lparr>sb_orch = sample_orch, sb_todo = [],
     sb_jobs = [\<lparr>j_task = ''a'', j_profile = t_profile (sample_task ''a'' 5 10), j_target = Some ''n1'', j_pc = Queued, j_fell_back = False\<rparr>],
     sb_local = 0, sb_offloaded = 1, sb_completed = 0, sb_failed = 0, sb_fallbacks = 0, sb_others = []\<rparr>"

lemma sample_arena: "o_arena sample_orch = new_pool 0x4000000"
  by (simp add: sample_orch_def new_orchestrator_def default_config_def)

theorem broken_offload_runs_locally_witness:
  "\<exists>s'. run_jobs (listed_protobuf []) sample_dag (StartJob 0 # replicate 6 (JobStep 0 sample_job_env)) sample_remote = Some s' \<and>
     sb_fallbacks s' = 1 \<and> sb_completed s' = 1 \<and> sb_failed s' = 0"
proof -
  let ?j = "sb_jobs sample_remote ! 0"
  obtain e t where out: "offload_to_peer (listed_protobuf []) (je_remote sample_job_env) (w_cluster (o_world (sb_orch sample_remote)))
      (j_task ?j) (j_profile ?j) ''n1'' = Some (broken e, t)"
    using refusing_breaks by (metis sample_job_env_def JobEnv.select_convs(3))
  have al: "allocate (memory_bytes (j_profile ?j)) max_align (o_arena (sb_orch sample_remote)) = (Some 0, \<lparr>mp_capacity = 0x4000000, mp_offset = 10\<rparr>)"
    by (simp add: sample_remote_def sample_arena sample_task_def allocate_def align_up_def max_align_def new_pool_def)
  have h: "0 < length (sb_jobs sample_remote)" "j_pc ?j = Queued" "j_target ?j = Some ''n1''" "0 \<le> compute_cost (j_profile ?j)"
    "clock_ok (je_run sample_job_env)" "\<not> transport_ok (broken e)"
    using sample_run_env_ok(1) by (simp_all add: sample_remote_def sample_task_def sample_job_env_def broken_def)
  show ?thesis
    using broken_offload_runs_locally [OF h(1) refl h(2,3) out h(6,5,4) al] by (auto simp: sample_remote_def)
qed

text \<open>
  C4. Resetting the arena never takes memory from a running task. However the loop and the jobs
  interleave with each other and with the tasks of other requests, which allocate from the arena,
  give up their block and try to reset it, the blocks that tasks hold at the same time lie inside the
  arena and do not overlap, provided no request can wrap around.
\<close>

theorem arena_blocks_disjoint:
  assumes "pool_inv (o_arena s)" "\<forall>t \<in> set (map snd (tasks d)). request_ok (mp_capacity (o_arena s)) (memory_bytes (t_profile t)) max_align"
    and "\<forall>profile. OtherEnter profile \<in> set as \<longrightarrow> request_ok (mp_capacity (o_arena s)) (memory_bytes profile) max_align"
    and "run_jobs pb d as (submit_plan p s) = Some s'"
    and "i < length (sb_jobs s')" "j_pc (sb_jobs s' ! i) = InArena (Some a)"
  shows "unat a + unat (memory_bytes (j_profile (sb_jobs s' ! i))) \<le> unat (mp_capacity (o_arena s)) \<and>
    (\<forall>k b. k < length (sb_jobs s') \<and> k \<noteq> i \<and> j_pc (sb_jobs s' ! k) = InArena (Some b) \<longrightarrow>
      disjnt {unat a..<unat a + unat (memory_bytes (j_profile (sb_jobs s' ! i)))} {unat b..<unat b + unat (memory_bytes (j_profile (sb_jobs s' ! k)))}) \<and>
    (\<forall>b sz. Some (b, sz) \<in> set (sb_others s') \<longrightarrow>
      disjnt {unat a..<unat a + unat (memory_bytes (j_profile (sb_jobs s' ! i)))} {unat b..<unat b + unat sz})"
proof (intro conjI allI impI; (elim conjE)?)
  have "requests_ok (mp_capacity (o_arena s)) d as" using assms(2,3) by (simp add: requests_ok_def)
  from run_jobs_arena [OF assms(4) _ _ this submit_plan_arena [OF assms(1)]]
  have inv: "arena_inv (o_readers s) (mp_capacity (o_arena s)) s'" by simp
  have l: "live (sb_jobs s' ! i) = Some (a, memory_bytes (j_profile (sb_jobs s' ! i)))" using assms(6) by (simp add: live_def)
  note h = held_job [OF assms(5) l]
  have "unat a + unat (memory_bytes (j_profile (sb_jobs s' ! i))) \<le> unat (mp_offset (o_arena (sb_orch s')))"
    using inv h(1) by (fastforce simp: arena_inv_def apart_def)
  also have "\<dots> \<le> unat (mp_capacity (o_arena s))" using inv by (auto simp: arena_inv_def pool_inv_def word_le_nat_alt)
  finally show "unat a + unat (memory_bytes (j_profile (sb_jobs s' ! i))) \<le> unat (mp_capacity (o_arena s))" .
  have other: "disjnt {unat a..<unat a + unat (memory_bytes (j_profile (sb_jobs s' ! i)))} {unat b..<unat b + unat sz}"
    if "(b, sz) \<in># held s' - {#(a, memory_bytes (j_profile (sb_jobs s' ! i)))#}" for b sz
    using inv h(1) that by (fastforce simp: arena_inv_def apart_def)
  show "disjnt {unat a..<unat a + unat (memory_bytes (j_profile (sb_jobs s' ! i)))} {unat b..<unat b + unat (memory_bytes (j_profile (sb_jobs s' ! k)))}"
    if "k < length (sb_jobs s')" "k \<noteq> i" "j_pc (sb_jobs s' ! k) = InArena (Some b)" for k b
  proof -
    have "live (sb_jobs s' ! k) = Some (b, memory_bytes (j_profile (sb_jobs s' ! k)))" by (simp add: live_def that(3))
    from other [OF h(2) [OF that(1,2) this]] show ?thesis .
  qed
  show "disjnt {unat a..<unat a + unat (memory_bytes (j_profile (sb_jobs s' ! i)))} {unat b..<unat b + unat sz}"
    if "Some (b, sz) \<in> set (sb_others s')" for b sz
    by (rule other [OF h(3) [OF that]])
qed

definition sample_plan :: SchedulingPlan where
  "sample_plan = \<lparr>decisions = [\<lparr>d_task_id = ''a'', assigned_node = ''node-01'', reason = LocalCapacity\<rparr>,
     \<lparr>d_task_id = ''b'', assigned_node = ''node-01'', reason = LocalCapacity\<rparr>], estimated_makespan = 0, computed_at = 0\<rparr>"

definition sample_actions :: "sub_action list" where
  "sample_actions = [SubmitNext, StartJob 0, JobStep 0 sample_job_env, OtherEnter (t_profile (sample_task ''x'' 5 8)), OtherReset True, SubmitNext,
     StartJob 1, JobStep 1 sample_job_env]"

lemma small_request: "sz \<le> 40 \<Longrightarrow> request_ok 0x4000000 sz max_align"
proof -
  assume "sz \<le> 40"
  then have "unat sz \<le> 40" by (simp add: word_le_nat_alt)
  moreover have "max_align \<in> set (map (\<lambda>k. 2 ^ k) [0..<64])"
    unfolding set_map by (rule image_eqI [of _ _ 4]) (simp_all add: max_align_def)
  ultimately show ?thesis by (simp add: request_ok_def max_align_def)
qed

theorem arena_blocks_disjoint_witness:
  "\<exists>s'. run_jobs (listed_protobuf []) sample_dag sample_actions (submit_plan sample_plan sample_orch) = Some s' \<and>
     j_pc (sb_jobs s' ! 0) = InArena (Some 0) \<and> j_pc (sb_jobs s' ! 1) = InArena (Some 32) \<and> sb_others s' = [Some (16, 8)] \<and>
     disjnt {0::nat..<10} {32..<62} \<and> disjnt {0::nat..<10} {16..<24}"
proof -
  let ?r = "run_jobs (listed_protobuf []) sample_dag sample_actions (submit_plan sample_plan sample_orch)"
  have ev: "?r \<noteq> None" "length (sb_jobs (the ?r)) = 2" "j_pc (sb_jobs (the ?r) ! 0) = InArena (Some 0)" "j_pc (sb_jobs (the ?r) ! 1) = InArena (Some 32)"
    "memory_bytes (j_profile (sb_jobs (the ?r) ! 0)) = 10" "memory_bytes (j_profile (sb_jobs (the ?r) ! 1)) = 30" "sb_others (the ?r) = [Some (16, 8)]"
    by code_simp+
  have small: "\<forall>t \<in> set (map snd (tasks sample_dag)). memory_bytes (t_profile t) \<le> 40" by code_simp
  have "pool_inv (o_arena sample_orch)" by (simp add: sample_arena pool_inv_preserved)
  moreover have "\<forall>t \<in> set (map snd (tasks sample_dag)). request_ok (mp_capacity (o_arena sample_orch)) (memory_bytes (t_profile t)) max_align"
    using small_request small by (simp add: sample_arena new_pool_def)
  moreover have "\<forall>profile. OtherEnter profile \<in> set sample_actions \<longrightarrow> request_ok (mp_capacity (o_arena sample_orch)) (memory_bytes profile) max_align"
    using small_request [of 8] by (simp add: sample_actions_def sample_task_def sample_arena new_pool_def)
  moreover have run: "?r = Some (the ?r)" using ev(1) by simp
  ultimately have all: "unat (0::u64) + unat (10::u64) \<le> unat (mp_capacity (o_arena sample_orch)) \<and>
    (\<forall>k b. k < length (sb_jobs (the ?r)) \<and> k \<noteq> 0 \<and> j_pc (sb_jobs (the ?r) ! k) = InArena (Some b) \<longrightarrow>
      disjnt {unat (0::u64)..<unat (0::u64) + unat (10::u64)} {unat b..<unat b + unat (memory_bytes (j_profile (sb_jobs (the ?r) ! k)))}) \<and>
    (\<forall>b sz. Some (b, sz) \<in> set (sb_others (the ?r)) \<longrightarrow> disjnt {unat (0::u64)..<unat (0::u64) + unat (10::u64)} {unat b..<unat b + unat sz})"
    using arena_blocks_disjoint [OF _ _ _ run, of 0 0] ev(2,3,5) by simp
  from all [THEN conjunct2, THEN conjunct1, THEN spec [of _ 1], THEN spec [of _ 32]] have "disjnt {0::nat..<10} {32..<62}" using ev by simp
  moreover from all [THEN conjunct2, THEN conjunct2, THEN spec [of _ 16], THEN spec [of _ 8]] have "disjnt {0::nat..<10} {16..<24}" using ev(7) by simp
  ultimately show ?thesis using run ev(3,4,7) by (intro exI [of _ "the ?r"]) simp
qed

text \<open>
  Dependencies are not enforced: a job may be running while the job of a task it depends on is still in
  the queue.
\<close>

theorem dependencies_not_enforced:
  "(''a'', ''b'') \<in> edges sample_dag \<and>
   map_option (\<lambda>s. map (\<lambda>j. (j_task j, job_rank (j_pc j))) (sb_jobs s))
     (run_jobs (listed_protobuf []) sample_dag [SubmitNext, SubmitNext, StartJob 1, JobStep 1 sample_job_env] (submit_plan sample_plan sample_orch)) =
       Some [(''a'', job_rank Queued), (''b'', job_rank (InArena (Some 0)))]"
proof -
  have "(''a'', ''b'') \<in> edges sample_dag" unfolding sample_dag_def by (simp add: build_dag_edges)
  moreover have "map_option (\<lambda>s. map (\<lambda>j. (j_task j, job_rank (j_pc j))) (sb_jobs s))
     (run_jobs (listed_protobuf []) sample_dag [SubmitNext, SubmitNext, StartJob 1, JobStep 1 sample_job_env] (submit_plan sample_plan sample_orch)) =
       Some [(''a'', job_rank Queued), (''b'', job_rank (InArena (Some 0)))]" by code_simp
  ultimately show ?thesis by blast
qed

end
