(* ===== verification/Offload_Path.thy ===== *)
theory Offload_Path
  imports Submission
begin

text \<open>
  The path of an offloaded task through both nodes: the client (\<^verbatim>\<open>offload_to_peer\<close>), the asynchronous server
  and the handlers (\<^verbatim>\<open>handle_message\<close>, \<^verbatim>\<open>handle_offload_request\<close> of \<^verbatim>\<open>src/orchestrator/orchestrator.hpp\<close>).
\<close>

section \<open>An offload from end to end\<close>

text \<open>What the serving node answers to the bytes of a request.\<close>

definition server_answer :: "'m MonitorOps \<Rightarrow> protobuf \<Rightarrow> HandlerEnv \<Rightarrow> 'm Orchestrator \<Rightarrow> u8 list \<Rightarrow> u8 list" where
  "server_answer ops pb env srv req = (case handle_message ops pb env req srv of None \<Rightarrow> [] | Some (response, _) \<Rightarrow> response)"

definition error_text :: "ExecutionResult \<Rightarrow> string" where
  "error_text r = (case error_message r of None \<Rightarrow> [] | Some e \<Rightarrow> e)"

lemma request_answered:
  assumes "pb_law pb" "pb_valid pb (request_env i p [])" "int64_ok (compute_cost p)"
    and "execute (no_stop (he_run env)) i p (o_arena srv) = Some (r, arena)"
  shows "server_answer ops pb env srv (encode_request pb i p []) =
    encode_response pb (final_state r = Completed, actual_duration r, peak_memory_bytes r, error_text r, [])"
proof -
  have "classify pb (encode_request pb i p []) = OffloadRequestKind" "decode_request pb (encode_request pb i p []) out = (True, i, p, [])" for out
    unfolding classify_def decode_request_def encode_request_def parse_encoded [OF assms(1,2)] using assms(3)
    by (simp_all add: request_env_def)
  then show ?thesis
    using assms(4) by (simp add: server_answer_def handle_message_def handle_offload_request_def run_task_def error_text_def Let_def)
qed

text \<open>The kernel sets up the connection, at once or, as for a non-blocking socket, after a while.\<close>

definition connection_made :: "ConnectAnswers \<Rightarrow> bool" where
  "connection_made ca \<longleftrightarrow> ca_connect ca = CDone \<or> ca_connect ca = CInProgress \<and> ca_poll_ready ca \<and> ca_so_error ca = None"

lemma connected:
  assumes "ca_socket ca = Inr fd" "ca_address_ok ca" "connection_made ca"
  obtains t where "transport_connect ca address new_transport = (Inr (), t)" "client_fd t = fd" "open_fds t = [fd]" "server_fd t = -1"
    "server_threads t = []"
  using assms by (auto simp: transport_connect_def new_transport_def connection_made_def Let_def)

text \<open>
  C5. An offload from end to end: the client of one node, the asynchronous server, the message dispatch
  and the task runner of another. When the peer is known, the connection is set up, at once or while
  the client waits for the socket to become writable, and the streams move, then however the kernel splits the bytes, the task runs on the serving node and the client
  learns exactly whether it completed, how long it took and the error, and leaves no descriptor open.
\<close>

theorem offload_end_to_end:
  assumes "pb_law pb" "pb_valid pb (request_env i p [])" "int64_ok (compute_cost p)"
    and "execute (no_stop (he_run henv)) i p (o_arena srv) = Some (r, arena)"
    and "pb_valid pb (response_env (final_state r = Completed, actual_duration r, peak_memory_bytes r, error_text r, []))" "int64_ok (actual_duration r)"
    and "req = encode_request pb i p []" "resp = server_answer ops pb henv srv req"
    and "length req \<le> MAX_MESSAGE_SIZE" "length resp \<le> MAX_MESSAGE_SIZE"
    and "peer_info target c = Some peer" "p_address peer \<noteq> []" "p_tcp_port peer \<noteq> 0"
    and "ca_socket (rm_connect env) = Inr fd" "0 \<le> fd" "ca_address_ok (rm_connect env)" "connection_made (rm_connect env)"
    and "send_healthy (rm_sends env)" "4 + length req \<le> send_progress (rm_sends env)"
    and "recv_healthy (rm_recvs env)" "4 + length resp \<le> recv_progress (rm_recvs env)"
    and "io_healthy reads" "4 + length req \<le> io_progress reads" "io_healthy writes" "4 + length resp \<le> io_progress writes"
    and "rm_peer env = (\<lambda>sent. case handle_connection reads writes False (server_answer ops pb henv srv) sent of None \<Rightarrow> [] | Some bs \<Rightarrow> bs)"
  shows "\<exists>t. offload_to_peer pb env c i p target =
    Some (\<lparr>transport_ok = True, task_ok = (final_state r = Completed), ro_duration = actual_duration r, ro_error = error_text r\<rparr>, t) \<and> open_fds t = []"
proof -
  note resp = request_answered [OF assms(1-4), of ops, folded assms(7), folded assms(8)]
  obtain t where t: "transport_connect (rm_connect env) (p_address peer) new_transport = (Inr (), t)" "client_fd t = fd" "open_fds t = [fd]" "server_fd t = -1"
    "server_threads t = []"
    using assms(14,16,17) by (rule connected)
  obtain ss where sent: "transport_send (rm_sends env) req t = Some (Inr (), frame req, ss)"
    using send_frame [OF assms(9,18,19)] t(2) assms(15) by (auto simp: transport_send_def)
  have "handle_connection reads writes False (server_answer ops pb henv srv) (frame req) = Some (frame resp)"
    using handle_connection_frame [where handler = "server_answer ops pb henv srv", OF assms(9) _ assms(22,23,24)] assms(8,10,25) by simp
  then have came: "rm_peer env (frame req) = frame resp" using assms(26) by simp
  obtain rs where got: "transport_receive (rm_recvs env) (frame resp) t = Some (Inr resp, [], rs)"
    using recv_frame [OF assms(10,20,21), of "[]"] t(2) assms(15) by (auto simp: transport_receive_def)
  have dec: "decode_response pb resp out = (True, final_state r = Completed, actual_duration r, peak_memory_bytes r, error_text r, [])" for out
    unfolding resp decode_response_def encode_response_def parse_encoded [OF assms(1,5)] using assms(6) by (simp add: response_env_def)
  have "open_fds (transport_destroy t) = []"
    using t(2-5) assms(15) by (simp add: transport_destroy_def stop_serving_def request_stops_def disconnect_def close_fd_def Let_def)
  then show ?thesis
    using assms(11-13) t(1) sent came got dec by (simp add: offload_to_peer_def assms(7) [symmetric] Let_def)
qed

definition sample_profile :: TaskProfile where
  "sample_profile = \<lparr>compute_cost = 0, memory_bytes = 10, input_bytes = 0, output_bytes = 0\<rparr>"

definition sample_executed :: ExecutionResult where
  "sample_executed = \<lparr>er_task_id = ''a'', final_state = Completed, actual_duration = 3, peak_memory_bytes = 10, error_message = None\<rparr>"

definition sample_pb :: protobuf where
  "sample_pb = listed_protobuf [request_env ''a'' sample_profile [], response_env (True, 3, 10, [], [])]"

definition sample_handler :: HandlerEnv where
  "sample_handler = \<lparr>he_now = 0, he_order = rev, he_run = sample_run_env, he_lucky = True, he_submit = sample_submit\<rparr>"

definition sample_peer_n1 :: PeerInfo where
  "sample_peer_n1 = \<lparr>p_node_id = ''n1'', p_resources = default_snapshot, p_address = ''10.0.0.1'', p_tcp_port = 5201, p_reachable = True\<rparr>"

definition accepting :: RemoteEnv where
  "accepting = \<lparr>rm_connect = \<lparr>ca_socket = Inr 9, ca_address_ok = True, ca_connect = CInProgress, ca_poll_ready = True, ca_so_error = None\<rparr>,
     rm_sends = replicate 5 (SSome 0), rm_recvs = replicate 5 (RSome 0),
     rm_peer = (\<lambda>sent. case handle_connection (replicate 5 (IoMoved 0)) (replicate 5 (IoMoved 0)) False
       (server_answer mock_ops sample_pb sample_handler sample_orch) sent of None \<Rightarrow> [] | Some bs \<Rightarrow> bs)\<rparr>"

lemma sample_execution: "execute (no_stop sample_run_env) ''a'' sample_profile (o_arena sample_orch) = Some (sample_executed, \<lparr>mp_capacity = 0x4000000, mp_offset = 10\<rparr>)"
  by (simp add: sample_orch_def new_orchestrator_def default_config_def execute_def allocate_def align_up_def max_align_def new_pool_def sample_profile_def
      simulate_compute_def simulate_loop.simps [of _ 0] no_stop_def sample_run_env_def duration_cast_us_def sample_executed_def)

theorem offload_end_to_end_witness:
  "\<exists>t. offload_to_peer sample_pb accepting (update_peer sample_peer_n1 empty_manager) ''a'' sample_profile ''n1'' =
     Some (\<lparr>transport_ok = True, task_ok = True, ro_duration = 3, ro_error = []\<rparr>, t) \<and> open_fds t = []"
proof -
  have pb: "pb_law sample_pb" unfolding sample_pb_def by (rule listed_protobuf_law) simp
  have valid: "pb_valid sample_pb (request_env ''a'' sample_profile [])"
    "pb_valid sample_pb (response_env (final_state sample_executed = Completed, actual_duration sample_executed, peak_memory_bytes sample_executed, error_text sample_executed, []))"
    by (simp_all add: sample_pb_def listed_protobuf_def sample_executed_def error_text_def)
  have ints: "int64_ok (compute_cost sample_profile)" "int64_ok (actual_duration sample_executed)"
    by (simp_all add: int64_ok_def sample_profile_def sample_executed_def)
  have run: "execute (no_stop (he_run sample_handler)) ''a'' sample_profile (o_arena sample_orch) = Some (sample_executed, \<lparr>mp_capacity = 0x4000000, mp_offset = 10\<rparr>)"
    using sample_execution by (simp add: sample_handler_def)
  let ?req = "encode_request sample_pb ''a'' sample_profile []" let ?resp = "server_answer mock_ops sample_pb sample_handler sample_orch ?req"
  have len: "length ?req = 1" "length ?resp = 1"
    using request_answered [OF pb valid(1) ints(1) run, of mock_ops]
    by (simp_all add: encode_request_def encode_response_def sample_pb_def listed_protobuf_def)
  have peer: "peer_info ''n1'' (update_peer sample_peer_n1 empty_manager) = Some sample_peer_n1" "p_address sample_peer_n1 \<noteq> []" "p_tcp_port sample_peer_n1 \<noteq> 0"
    by (simp_all add: peer_info_def update_peer_def empty_manager_def sample_peer_n1_def)
  let ?io = "replicate 5 (IoMoved 0)"
  have conn: "ca_socket (rm_connect accepting) = Inr 9" "ca_address_ok (rm_connect accepting)" "connection_made (rm_connect accepting)"
    "rm_peer accepting = (\<lambda>sent. case handle_connection ?io ?io False (server_answer mock_ops sample_pb sample_handler sample_orch) sent of
       None \<Rightarrow> [] | Some bs \<Rightarrow> bs)"
    by (simp_all add: accepting_def connection_made_def)
  have io: "send_healthy (rm_sends accepting)" "recv_healthy (rm_recvs accepting)" "io_healthy ?io"
    by (simp_all add: accepting_def send_healthy_def recv_healthy_def io_healthy_def)
  have progress: "4 + length ?req \<le> send_progress (rm_sends accepting)" "4 + length ?resp \<le> recv_progress (rm_recvs accepting)"
    "4 + length ?req \<le> io_progress ?io" "4 + length ?resp \<le> io_progress ?io"
    unfolding len by (simp_all add: accepting_def numeral_eq_Suc)
  have small: "length ?req \<le> MAX_MESSAGE_SIZE" "length ?resp \<le> MAX_MESSAGE_SIZE" unfolding len by (simp_all add: MAX_MESSAGE_SIZE_def)
  have "0 \<le> (9 :: int)" by simp
  from offload_end_to_end [OF pb valid(1) ints(1) run valid(2) ints(2) refl refl small peer conn(1) this conn(2,3) io(1) progress(1) io(2) progress(2)
      io(3) progress(3) io(3) progress(4) conn(4)]
  show ?thesis by (simp add: sample_executed_def error_text_def)
qed

end
