(* ===== verification/Daemon.thy ===== *)
theory Daemon
  imports Orchestrator
begin

text \<open>
  The entry point (\<^verbatim>\<open>src/app/main.cpp\<close>): the command line, the configuration the daemon runs with, the
  composition of the orchestrator, its main loop and the shutdown. The console output and the demo
  mode are left out: a run in demo mode ends with the configuration the demo would use.
\<close>

section \<open>The command line\<close>

record CLIArgs =
  cl_config_path :: string
  cl_node_id :: string
  cl_port :: u16
  cl_log_dir :: string
  cl_demo_mode :: bool

definition default_args :: CLIArgs where
  "default_args = \<lparr>cl_config_path = ''config/default.toml'', cl_node_id = [], cl_port = 0, cl_log_dir = [], cl_demo_mode = False\<rparr>"

text \<open>\<^verbatim>\<open>std::stoi\<close>; \<open>None\<close> when it throws.\<close>

definition stoi :: "string \<Rightarrow> int option" where
  "stoi s = (case stol s of None \<Rightarrow> None | Some v \<Rightarrow> if - (2 ^ 31) \<le> v \<and> v < 2 ^ 31 then Some v else None)"

text \<open>
  The arguments after the program name. The help text ends the process, and so does an exception of
  \<^verbatim>\<open>std::stoi\<close>, which nothing catches.
\<close>

datatype parsed_args = Parsed CLIArgs | HelpShown | Thrown

fun parse_args :: "string list \<Rightarrow> CLIArgs \<Rightarrow> parsed_args" where
  "parse_args [] args = Parsed args"
| "parse_args (arg # rest) args =
     (if arg = ''--config'' \<and> rest \<noteq> [] then parse_args (tl rest) (args\<lparr>cl_config_path := hd rest\<rparr>)
      else if arg = ''--node-id'' \<and> rest \<noteq> [] then parse_args (tl rest) (args\<lparr>cl_node_id := hd rest\<rparr>)
      else if arg = ''--port'' \<and> rest \<noteq> [] then
        (case stoi (hd rest) of None \<Rightarrow> Thrown | Some v \<Rightarrow> parse_args (tl rest) (args\<lparr>cl_port := word_of_int v\<rparr>))
      else if arg = ''--log-dir'' \<and> rest \<noteq> [] then parse_args (tl rest) (args\<lparr>cl_log_dir := hd rest\<rparr>)
      else if arg = ''--demo'' then parse_args rest (args\<lparr>cl_demo_mode := True\<rparr>)
      else if arg = ''--help'' \<or> arg = ''-h'' then HelpShown
      else parse_args rest args)"

section \<open>Composition\<close>

definition apply_overrides :: "CLIArgs \<Rightarrow> Config \<Rightarrow> Config" where
  "apply_overrides args c =
     (let c1 = (if cl_node_id args = [] then c else c\<lparr>cf_node := (cf_node c)\<lparr>nc_id := cl_node_id args\<rparr>\<rparr>);
          c2 = (if cl_port args = 0 then c1 else c1\<lparr>cf_node := (cf_node c1)\<lparr>nc_port := cl_port args\<rparr>\<rparr>)
      in if cl_log_dir args = [] then c2 else c2\<lparr>cf_telemetry := (cf_telemetry c2)\<lparr>log_dir := cl_log_dir args\<rparr>\<rparr>)"

definition resolve_config :: "'t toml \<Rightarrow> CLIArgs \<Rightarrow> Config" where
  "resolve_config L args =
     apply_overrides args (case load_config L (cl_config_path args) of Inr c \<Rightarrow> c | Inl _ \<Rightarrow> default_config)"

text \<open>The sinks; \<open>opened\<close> is what the log file holds when it could be opened.\<close>

definition make_sink :: "string option \<Rightarrow> Config \<Rightarrow> ILogSink" where
  "make_sink opened c = (if log_dir (cf_telemetry c) \<noteq> []
     then JsonFile (new_json_sink opened (log_dir (cf_telemetry c)) ''edge_orchestrator'' 50 5) else Stdout [])"

definition make_metrics_sink :: "string option \<Rightarrow> Config \<Rightarrow> ILogSink option" where
  "make_metrics_sink opened c = (if log_dir (cf_telemetry c) \<noteq> []
     then Some (JsonFile (new_json_sink opened (log_dir (cf_telemetry c)) ''metrics'' 50 5)) else None)"

section \<open>The main loop\<close>

text \<open>The cast of a \<^verbatim>\<open>float\<close> to \<^verbatim>\<open>int\<close>, undefined out of range.\<close>

fun f32_to_int :: "f32 \<Rightarrow> int option" where
  "f32_to_int (Fin x) = (let n = rat_trunc x in if - (2 ^ 31) \<le> n \<and> n < 2 ^ 31 then Some n else None)"
| "f32_to_int _ = None"

definition status_line :: "ResourceSnapshot \<Rightarrow> nat \<Rightarrow> string option" where
  "status_line snap n = map_option (\<lambda>cpu. ''Status: CPU '' @ int_string cpu @ ''%, mem '' @
     dec_string (unat (memory_available_bytes snap div (1024 * 1024))) @ '' MB avail, '' @ dec_string n @ '' peers'')
     (f32_to_int (cpu_usage_percent snap))"

definition o_say :: "(World \<Rightarrow> int) \<Rightarrow> string \<Rightarrow> 'm Orchestrator \<Rightarrow> 'm Orchestrator" where
  "o_say clock msg s = s\<lparr>o_world := w_info (clock (o_world s)) msg (o_world s)\<rparr>"

definition status_round :: "'m MonitorOps \<Rightarrow> (World \<Rightarrow> int) \<Rightarrow> Timestamp \<Rightarrow> u64 \<Rightarrow> 'm Orchestrator \<Rightarrow> 'm Orchestrator option" where
  "status_round ops clock now loop_count s =
     (if loop_count mod 300 = 0 \<and> loop_count > 0 then
        (case mo_read ops now (o_monitor s) of
           (Inl _, m) \<Rightarrow> Some (s\<lparr>o_monitor := m\<rparr>)
         | (Inr snap, m) \<Rightarrow>
             (let s1 = s\<lparr>o_monitor := m, o_world := w_record (record_resource_snapshot snap) (o_world s)\<rparr>
              in map_option (\<lambda>line. o_say clock line s1) (status_line snap (cluster_size (w_cluster (o_world s1))))))
      else Some s)"

text \<open>
  One entry per pass of the loop: the clock, and what the other threads of the process do to the
  orchestrator while the main thread sleeps. The loop ends when a signal has arrived.
\<close>

record 'm Pass =
  ps_now :: Timestamp
  ps_others :: "'m Orchestrator \<Rightarrow> 'm Orchestrator"

fun main_loop :: "'m MonitorOps \<Rightarrow> (World \<Rightarrow> int) \<Rightarrow> 'm Pass list \<Rightarrow> u64 \<Rightarrow> 'm Orchestrator \<Rightarrow> 'm Orchestrator option" where
  "main_loop ops clock [] loop_count s = Some s"
| "main_loop ops clock (p # ps) loop_count s =
     (case status_round ops clock (ps_now p) loop_count s of
        None \<Rightarrow> None
      | Some s' \<Rightarrow> main_loop ops clock ps (loop_count + 1) (ps_others p s'))"

record 'm DaemonEnv =
  de_clock :: "World \<Rightarrow> int"
  de_log_file :: "string option"
  de_metrics_file :: "string option"
  de_hardware :: nat
  de_epoll_fd :: int
  de_wake_fd :: int
  de_listen :: ListenAnswers
  de_sockets :: DiscoverySockets
  de_passes :: "'m Pass list"
  de_order :: "int list \<Rightarrow> int list"
  de_answers :: StopAnswers

datatype 'm outcome = Help | Aborted | Demo Config | Returned int "'m Orchestrator"

definition composed :: "'m MonitorOps \<Rightarrow> 'm DaemonEnv \<Rightarrow> Config \<Rightarrow> 'm Orchestrator" where
  "composed ops env c = new_orchestrator ops c (make_sink (de_log_file env) c) LInfo (make_metrics_sink (de_metrics_file env) c)
     (de_hardware env) (de_epoll_fd env) (de_wake_fd env)"

definition run_daemon :: "'m MonitorOps \<Rightarrow> 'm DaemonEnv \<Rightarrow> Config \<Rightarrow> 'm outcome option" where
  "run_daemon ops env c =
     (case orch_start ops (de_clock env) (de_listen env) (de_sockets env) (composed ops env c) of
        None \<Rightarrow> None
      | Some (Inl _, s) \<Rightarrow> Some (Returned 1 s)
      | Some (Inr _, s) \<Rightarrow>
          (case main_loop ops (de_clock env) (de_passes env) 0
                 (o_say (de_clock env) ''Entering main loop. Press Ctrl+C to shutdown.'' s) of
             None \<Rightarrow> None
           | Some s1 \<Rightarrow> map_option (Returned 0) (orch_stop ops (de_clock env) (de_order env) (de_answers env)
               (o_say (de_clock env) ''Shutdown requested. Cleaning up...'' s1))))"

definition daemon_main :: "'t toml \<Rightarrow> 'm MonitorOps \<Rightarrow> 'm DaemonEnv \<Rightarrow> string list \<Rightarrow> 'm outcome option" where
  "daemon_main L ops env argv = (case parse_args (drop 1 argv) default_args of
     Thrown \<Rightarrow> Some Aborted
   | HelpShown \<Rightarrow> Some Help
   | Parsed args \<Rightarrow> if cl_demo_mode args then Some (Demo (resolve_config L args)) else run_daemon ops env (resolve_config L args))"

section \<open>Reading the command line\<close>

lemma stol_dec_string: "n < 2 ^ 63 \<Longrightarrow> stol (dec_string n) = Some (int n)"
proof -
  assume n: "n < 2 ^ 63"
  obtain c cs where d: "dec_string n = c # cs" by (cases "dec_string n") simp_all
  then have c: "is_digit c" using dec_string_is_digit [of c n] by simp
  have ds: "takeWhile is_digit (dec_string n) = dec_string n" by (simp add: takeWhile_eq_all_conv dec_string_is_digit)
  have "take_sign (skip_space (dec_string n)) = (False, dec_string n)"
    using digit_facts [OF c] by (simp add: d skip_space_def take_sign_def)
  then show ?thesis using n by (simp add: stol_def ds dec_value_dec_string Let_def del: takeWhile_eq_all_conv)
qed

lemma stoi_dec_string: "n < 2 ^ 31 \<Longrightarrow> stoi (dec_string n) = Some (int n)"
  by (simp add: stoi_def stol_dec_string)

lemma stoi_u16: "stoi (dec_string (unat (p :: u16))) = Some (int (unat p))"
proof (rule stoi_dec_string)
  have "unat p < 2 ^ 16" using unsigned_less [of p, where ?'a = nat] by simp
  then show "unat p < 2 ^ 31" by simp
qed

text \<open>The options that select given arguments.\<close>

definition print_args :: "CLIArgs \<Rightarrow> string list" where
  "print_args args = [''--port'', dec_string (unat (cl_port args)), ''--node-id'', cl_node_id args] @
     (if cl_demo_mode args then [''--demo''] else []) @
     [''--config'', cl_config_path args, ''--log-dir'', cl_log_dir args]"

text \<open>Every setting can be given on the command line, with any value, and is read back as given.\<close>

theorem args_roundtrip: "parse_args (print_args args) default_args = Parsed args"
  by (simp add: print_args_def default_args_def stoi_u16)

text \<open>A port that does not fit is cut to sixteen bits, and one that is no number ends the process.\<close>

lemma stoi_letter: "stoi ''http'' = None"
  by (simp add: stoi_def stol_def skip_space_def is_space_def take_sign_def is_digit_def)

theorem port_argument_unchecked:
  "n < 2 ^ 31 \<Longrightarrow> parse_args [''--port'', dec_string n] args = Parsed (args\<lparr>cl_port := of_nat n\<rparr>)"
  "parse_args [''--port'', ''http''] args = Thrown"
  by (simp_all add: stoi_dec_string stoi_letter)

section \<open>What the daemon runs with\<close>

text \<open>
  The command line wins over the file, and the file over the defaults; the settings that no option
  names are those of the file.
\<close>

theorem override_precedence:
  assumes "c = (case load_config L (cl_config_path args) of Inr c \<Rightarrow> c | Inl _ \<Rightarrow> default_config)"
  shows "resolve_config L args =
    c\<lparr>cf_node := (cf_node c)\<lparr>nc_id := (if cl_node_id args = [] then nc_id (cf_node c) else cl_node_id args),
          nc_port := (if cl_port args = 0 then nc_port (cf_node c) else cl_port args)\<rparr>,
      cf_telemetry := (cf_telemetry c)\<lparr>log_dir := (if cl_log_dir args = [] then log_dir (cf_telemetry c) else cl_log_dir args)\<rparr>\<rparr>"
  unfolding resolve_config_def assms [symmetric] by (simp add: apply_overrides_def Let_def)

text \<open>
  The log level, the file size and the rotation count of the configuration have no effect: two
  configurations that differ in them compose orchestrators that differ in nothing else.
\<close>

theorem telemetry_settings_unused:
  "composed ops env (c\<lparr>cf_telemetry := (cf_telemetry c)\<lparr>log_level := l, max_file_size_mb := k, rotate_count := n\<rparr>\<rparr>) =
   (composed ops env c)\<lparr>o_config := c\<lparr>cf_telemetry := (cf_telemetry c)\<lparr>log_level := l, max_file_size_mb := k, rotate_count := n\<rparr>\<rparr>\<rparr>"
  by (simp add: composed_def new_orchestrator_def make_sink_def make_metrics_sink_def)

section \<open>Shutdown\<close>

lemma o_say_fields [simp]:
  "o_running (o_say clock msg s) = o_running s" "o_server (o_say clock msg s) = o_server s" "o_config (o_say clock msg s) = o_config s"
  by (simp_all add: o_say_def)

lemma composed_starts: "orch_start ops clock la ds (composed ops env c) \<noteq> Some (Inl e, s)"
  by (auto simp: orch_start_def composed_def new_orchestrator_def Let_def split: option.splits prod.splits sum.splits)

lemma orch_stop_stopped: "orch_stop ops clock ord sa s = Some s' \<Longrightarrow> \<not> o_running s'"
  by (auto simp: orch_stop_def Let_def split: if_splits option.splits)

text \<open>
  The daemon never reports a failed start: a port that is taken leaves it running without a server. When
  it returns, the exit code is zero and the orchestrator is stopped.
\<close>

theorem daemon_exit_code:
  assumes "run_daemon ops env c = Some (Returned code s)"
  shows "code = 0 \<and> \<not> o_running s"
  using assms composed_starts [of ops "de_clock env" "de_listen env" "de_sockets env" env c]
  by (auto simp: run_daemon_def dest: orch_stop_stopped split: option.splits prod.splits sum.splits)

text \<open>
  After a signal the daemon ends. If the main loop is left with the offload server alive, in whatever
  state its coroutines are, there is a number of turns after which the reactor thread has ended; then,
  once the clock has passed the deadline for active connections, the daemon returns with exit code zero
  and the listening socket is closed.
\<close>

theorem daemon_shuts_down:
  assumes "orch_start ops (de_clock env) (de_listen env) (de_sockets env) (composed ops env c) = Some (Inr (), s)"
    and "main_loop ops (de_clock env) (de_passes env) 0
      (o_say (de_clock env) ''Entering main loop. Press Ctrl+C to shutdown.'' s) = Some s1"
    and "order_ok (de_order env)" "o_running s1" "reactor_live (as_reactor (o_server s1))" "\<not> as_stopping (o_server s1)"
  shows "\<exists>n. \<forall>sa. n \<le> length (sa_reactor sa) \<and> deadline_passes sa \<longrightarrow>
    (\<exists>s'. run_daemon ops (env\<lparr>de_answers := sa\<rparr>) c = Some (Returned 0 s') \<and> \<not> o_running s' \<and> as_server_fd (o_server s') < 0)"
proof (intro exI [of _ "3 * length (waiters (as_reactor (o_server s1))) + length (to_resume (as_reactor (o_server s1))) + 5"] allI impI; elim conjE)
  fix sa :: StopAnswers
  assume "3 * length (waiters (as_reactor (o_server s1))) + length (to_resume (as_reactor (o_server s1))) + 5 \<le> length (sa_reactor sa)"
    "deadline_passes sa"
  from live_server_stops [OF assms(3,5,6) this(2,1)] obtain u where
    "async_stop_serving (de_order env) sa (o_server s1) = Some (close_server u)" by blast
  then have "\<exists>s'. orch_stop ops (de_clock env) (de_order env) sa (o_say (de_clock env) ''Shutdown requested. Cleaning up...'' s1) = Some s' \<and>
      \<not> o_running s' \<and> as_server_fd (o_server s') < 0"
    using assms(4) by (simp add: orch_stop_def close_server_def as_close_def Let_def)
  moreover have "composed ops (env\<lparr>de_answers := sa\<rparr>) c = composed ops env c" by (simp add: composed_def)
  ultimately show "\<exists>s'. run_daemon ops (env\<lparr>de_answers := sa\<rparr>) c = Some (Returned 0 s') \<and> \<not> o_running s' \<and> as_server_fd (o_server s') < 0"
    using assms(1,2) by (auto simp: run_daemon_def)
qed

end
