(* ===== verification/Spec2Isabelle.thy ===== *)
theory Spec2Isabelle
  imports Dag_Metrics Dag_Ready Generator Transport Offload_Path Daemon
begin

text \<open>
  A verification of EdgeOrchestrator, a daemon that schedules graphs of tasks on a cluster of edge nodes.
  Paths below are relative to \<^verbatim>\<open>src/\<close> of the sources.

  \<^bold>\<open>The program.\<close> A node runs one \<^verbatim>\<open>Orchestrator\<close>. A workload is a \<^verbatim>\<open>WorkloadDAG\<close>; a policy (greedy,
  threshold or optimizer) maps it, a snapshot of the local resources and a view of the cluster to a
  plan with one decision per task. \<^verbatim>\<open>submit_workload\<close> hands every decision to the thread pool as a job.
  A local job allocates in the arena and runs; a remote job makes a round trip to its peer and falls
  back to local execution when the round trip breaks. Peers find each other by UDP heartbeats, which
  feed the cluster view. Requests arrive at an asynchronous server on top of an epoll reactor and are
  coded in protobuf. Monitors sample the kernel files, and logs and metrics are written as JSON lines.

  \<^bold>\<open>Theories and sources.\<close>
  \<^item> \<open>Prelude\<close>, \<open>Decimal\<close>, \<open>Float32\<close>, \<open>Float32_Bounds\<close>, \<open>Wire\<close>: machine integers as words,
    \<^verbatim>\<open>unordered_map\<close> as an association list with a traversal order, numerals, binary32 arithmetic with one
    rounding per operation, and byte encodings.
  \<^item> \<open>Core_Types\<close> (\<^verbatim>\<open>core/types.hpp\<close>, \<^verbatim>\<open>core/result.hpp\<close>): snapshots, profiles, states, and results as sums.
  \<^item> \<open>Dag\<close>, \<open>Dag_Order\<close>, \<open>Dag_Cycle\<close>, \<open>Dag_Metrics\<close>, \<open>Dag_Ready\<close> (\<^verbatim>\<open>workload/dag.cpp\<close>) and \<open>Generator\<close>
    (\<^verbatim>\<open>workload/generator.cpp\<close>): the graph with every operation. Kahn's order is sorted and complete, the
    three-colour search decides cycles, the critical path and the level estimate are what they mean, an
    executor of ready tasks never gets stuck, and every generator yields a valid graph.
  \<^item> \<open>Scheduler\<close> (\<^verbatim>\<open>scheduler/scheduler.hpp\<close>, \<^verbatim>\<open>scheduler/cluster_view.cpp\<close>) with the locale \<open>scheduling_policy\<close>,
    and \<open>Greedy_Policy\<close>, \<open>Threshold_Policy\<close>, \<open>Makespan\<close>, \<open>Optimizer_Policy\<close> (\<^verbatim>\<open>scheduler/*_policy.cpp\<close>),
    which interpret it: one decision per task, on the local node or a reachable peer, no peer given more
    memory than it reported; the makespan estimate is bounded from below by the critical path and by every
    node's load, and the local search never makes it worse.
  \<^item> \<open>Memory_Pool\<close>, \<open>Task_Runner\<close>, \<open>Mpmc_Queue\<close>, \<open>Thread_Pool\<close> (\<^verbatim>\<open>executor/\<close>): the arena and its
    compare-and-swap loop for any number of threads, the busy loop of a task, the lock-free queue as single
    atomic accesses that interleave, with the locale \<open>bounded_fifo\<close> as its sequential contract, and the pool
    of workers over the queue and a semaphore.
  \<^item> \<open>Cluster_Manager\<close>, \<open>Peer_Discovery\<close> (\<^verbatim>\<open>network/cluster_view.cpp\<close>, \<^verbatim>\<open>network/peer_discovery.cpp\<close>): the peer
    table, the advertisement format and its round trip, and, for the listener and the eviction thread with
    their critical sections and notifications as separate steps, when the view is in step with discovery.
  \<^item> \<open>Transport\<close>, \<open>Reactor\<close>, \<open>Async_Transport\<close> (\<^verbatim>\<open>network/transport.cpp\<close>, \<^verbatim>\<open>reactor.cpp\<close>,
    \<^verbatim>\<open>async_transport.cpp\<close>): framing over partial reads and writes, no leaked descriptor while server threads
    run beside the calls, every parked coroutine resumed once, an exchange between the synchronous client
    and the asynchronous server, and stopping with its bounded wait for open connections.
  \<^item> \<open>Offload_Codec\<close> (\<^verbatim>\<open>orchestrator/offload_codec.cpp\<close>): encoders and decoders over the schema of the
    protocol, their round trips, and what an accepted submission guarantees.
  \<^item> \<open>Configuration\<close>, \<open>Telemetry\<close>, \<open>Resource_Monitor\<close> (\<^verbatim>\<open>core/config.cpp\<close>, \<^verbatim>\<open>core/logger.cpp\<close>,
    \<^verbatim>\<open>telemetry/\<close>, \<^verbatim>\<open>resource_monitor/\<close>): loading, the lines written, and the parsing of the kernel files, with
    the locales \<open>log_sink\<close> and \<open>resource_monitor\<close> interpreted on every sink and both monitors.
  \<^item> \<open>Orchestrator\<close>, \<open>Submission\<close>, \<open>Offload_Path\<close> (\<^verbatim>\<open>orchestrator/orchestrator.hpp\<close>): the composition. The
    policy chosen by the configuration is a \<open>scheduling_policy\<close> again. A submission is a state with the
    decisions still to come, the jobs handed to the pool and the blocks of other requests; a run of it is
    any list of actions: a round of the loop, a worker taking a job, a step of a job, and the tasks of other
    requests. For every run the counters add up, no job that a worker has taken gets stuck, a broken round
    trip is made up for locally, and blocks in the arena stay apart while other requests allocate and
    reset; and an offload is followed from the client of one node to the task runner of another and back.
    Which job a worker takes and when is left open in \<open>Submission\<close>; the pool itself is \<open>Thread_Pool\<close>, where
    \<open>lost_wakeup\<close> shows that a job can stay in its queue.
  \<^item> \<open>Daemon\<close> (\<^verbatim>\<open>app/main.cpp\<close>): command line, effective configuration, main loop and shutdown.

  \<^bold>\<open>Conventions.\<close> A C++ object is a record and a method a function on it. Undefined behaviour,
  signed overflow apart, and a call that does not return are \<open>None\<close>; an exception that the code catches is a branch, one that it does not
  catch a value of its own. Concurrent code is a step function or step relation: one step is one atomic
  access or one critical section, and a run is any list of steps. Histories that the code does not have
  (what was submitted, parked or pushed) are fields of the state that no step reads. The order in which a
  hash map is traversed is a parameter, of which only \<open>order_ok\<close> (a permutation) is assumed.
  What lies outside the sources is a parameter with named hypotheses: the generated protobuf classes
  (\<open>pb_law\<close>), the TOML library, the random engine, the clock (\<open>clock_ok\<close>) and the kernel, whose answers
  are scripts with one entry per call. Properties with such hypotheses are applied to concrete instances
  by the theorem whose name ends in \<open>_witness\<close>.

  \<^bold>\<open>Bounds and fuel.\<close> Loops of the sources are total functions with a measure, except the busy loop of
  a task and the traceback of the optimizer, which may not end and are shown to return. A script of the
  kernel is the fuel of the loop that reads it, and the theorems say how much is enough: four bytes and
  the payload in progress for a frame, and three turns per parked coroutine and five more for the reactor
  to drain; a job ends within six steps after a worker has taken it. The interleaving theorems of the queue and the pool bound the
  number of steps below \<open>2 ^ 60\<close>, so that the 64-bit positions do not wrap. Counters of a submission are
  64-bit words, and graphs have fewer than \<open>2 ^ 63\<close> tasks.

  \<^bold>\<open>Not modelled.\<close>
  \<^item> Weak memory: the interleavings are sequentially consistent.
  \<^item> The promise and future that \<^verbatim>\<open>ThreadPool::submit\<close> wraps around a callable; no caller uses the future.
  \<^item> The coroutine types of \<^verbatim>\<open>core/async.hpp\<close>, which only tell the compiler how to build coroutines, the
    event descriptor that wakes the reactor, and the hop of a connection to the handler pool: a wait may
    end at any time, and a connection is a script of its awaits.
  \<^item> Overflow of \<^verbatim>\<open>int64_t\<close> in sums of durations and costs, which has no meaning in C++: \<open>Duration\<close> is \<open>int\<close>,
    so the theorems speak about executions in which the sums fit.
  \<^item> Wall-clock time: deadlines are answers of the environment (a wait may expire at any time).
  \<^item> After the deadline of a submission the jobs that still run refer to counters that no longer exist;
    the model of a submission ends there.
  \<^item> The demo mode, the banner and the messages to the console of \<^verbatim>\<open>app/main.cpp\<close>.
\<close>

end
